(* ===== verification/Prelude.thy ===== *)
theory Prelude
  imports Main "HOL-Library.Word" "HOL-Library.Multiset"
begin

text \<open>
  Shared vocabulary of the development: machine integers as words, checked arithmetic,
  decimal printing, the raw-memory copies of the containers, and the few generic facts on
  lists and words that the component theories use through the collections declared here.
\<close>

unbundle bit_operations_syntax

named_theorems frame_simps \<open>fields an operation does not write\<close>
named_theorems step_intros \<open>preservation of a component's invariant by its operations\<close>
named_theorems codec_simps \<open>what a reader returns on what a writer wrote\<close>

section \<open>Machine integers\<close>

type_synonym u8 = "8 word"
type_synonym u16 = "16 word"
type_synonym u32 = "32 word"
type_synonym u64 = "64 word"
type_synonym usize = "64 word"

text \<open>Rust's \<open>checked_mul\<close> and \<open>checked_add\<close>: \<open>None\<close> on overflow.\<close>

definition checked_add :: "'a::len word \<Rightarrow> 'a word \<Rightarrow> 'a word option" where
  "checked_add a b = (if unat a + unat b < 2 ^ LENGTH('a) then Some (a + b) else None)"

definition checked_mul :: "'a::len word \<Rightarrow> 'a word \<Rightarrow> 'a word option" where
  "checked_mul a b = (if unat a * unat b < 2 ^ LENGTH('a) then Some (a * b) else None)"

text \<open>An integer cast \<open>as u64\<close>, \<open>as u8\<close>: zero extension or truncation.\<close>

abbreviation cast :: "'a::len word \<Rightarrow> 'b::len word" where
  "cast \<equiv> ucast"

lemma checked_add_Some:
  "checked_add a b = Some c \<Longrightarrow> unat c = unat a + unat (b :: 'a::len word)"
  by (auto simp: checked_add_def unat_word_ariths split: if_splits)

lemma checked_mul_Some:
  "checked_mul a b = Some c \<Longrightarrow> unat c = unat a * unat (b :: 'a::len word)"
  by (auto simp: checked_mul_def unat_word_ariths split: if_splits)

lemma of_nat_checked:
  "n < 2 ^ LENGTH('a) \<Longrightarrow> unat (of_nat n :: 'a::len word) = n"
  by (simp add: unat_of_nat)

lemma unat_bound: "unat (w :: 'a::len word) < 2 ^ LENGTH('a)"
  by (rule unsigned_less)

lemma unat_drop_bit: "unat (drop_bit n w) = unat (w :: 'a::len word) div 2 ^ n"
proof -
  have "take_bit LENGTH('a) (unat w) = unat w"
    using unat_bound [of w] by (simp add: take_bit_nat_eq_self)
  then show ?thesis by (simp add: unsigned_drop_bit_eq drop_bit_eq_div [where 'a = nat])
qed

lemma unat_add_exact:
  "unat a + unat b < 2 ^ LENGTH('a) \<Longrightarrow> unat (a + b) = unat a + unat (b :: 'a::len word)"
  by (simp add: unat_word_ariths)

section \<open>Decimal numbers\<close>

definition digit_char :: "nat \<Rightarrow> char" where
  "digit_char d = char_of (48 + d)"

definition is_digit :: "char \<Rightarrow> bool" where
  "is_digit c \<longleftrightarrow> 48 \<le> (of_char c :: nat) \<and> (of_char c :: nat) \<le> 57"

definition digit_val :: "char \<Rightarrow> nat" where
  "digit_val c = of_char c - 48"

text \<open>The decimal form of a number, as the formatting macros print it.\<close>

fun show_nat :: "nat \<Rightarrow> string" where
  "show_nat n = (if n < 10 then [digit_char n] else show_nat (n div 10) @ [digit_char (n mod 10)])"

declare show_nat.simps [simp del]

definition show_word :: "'a::len word \<Rightarrow> string" where
  "show_word w = show_nat (unat w)"

fun val_digits :: "nat \<Rightarrow> string \<Rightarrow> nat" where
  "val_digits acc [] = acc"
| "val_digits acc (c # cs) = val_digits (acc * 10 + digit_val c) cs"

lemma of_char_digit [simp]: "d < 10 \<Longrightarrow> (of_char (digit_char d) :: nat) = 48 + d"
  by (simp add: digit_char_def)

lemma is_digit_digit_char [simp]: "d < 10 \<Longrightarrow> is_digit (digit_char d)"
  by (simp add: is_digit_def)

lemma digit_val_digit_char [simp]: "d < 10 \<Longrightarrow> digit_val (digit_char d) = d"
  by (simp add: digit_val_def)

lemma digit_val_less [simp]: "is_digit c \<Longrightarrow> digit_val c < 10"
  by (auto simp: is_digit_def digit_val_def)

lemma digit_char_digit_val [simp]: "is_digit c \<Longrightarrow> digit_char (digit_val c) = c"
  by (simp add: is_digit_def digit_val_def digit_char_def)

lemma digit_char_0: "digit_char 0 = CHR ''0''"
  by code_simp

lemma val_digits_append:
  "val_digits acc (xs @ ys) = val_digits (val_digits acc xs) ys"
  by (induction acc xs rule: val_digits.induct) auto

lemma val_digits_mono: "acc \<le> val_digits acc cs"
proof (induction acc cs rule: val_digits.induct)
  case (2 acc c cs)
  have "acc \<le> acc * 10 + digit_val c" by simp
  also have "\<dots> \<le> val_digits (acc * 10 + digit_val c) cs" by (rule 2)
  finally show ?case by simp
qed simp

lemma show_nat_digits: "list_all is_digit (show_nat n)"
proof (induction n rule: show_nat.induct)
  case (1 n)
  then show ?case by (subst show_nat.simps) (auto simp: list_all_iff)
qed

lemma show_nat_nonempty [simp]: "show_nat n \<noteq> []"
  by (subst show_nat.simps) simp

lemma val_digits_show_nat [simp, codec_simps]: "val_digits 0 (show_nat n) = n"
proof (induction n rule: show_nat.induct)
  case (1 n)
  then show ?case by (subst show_nat.simps) (auto simp: val_digits_append)
qed

text \<open>A digit string with no needless leading zero is the decimal form of its value.\<close>

lemma val_digits_pos:
  "list_all is_digit ds \<Longrightarrow> ds \<noteq> [] \<Longrightarrow> hd ds \<noteq> CHR ''0'' \<Longrightarrow> 0 < val_digits 0 ds"
proof (cases ds)
  case (Cons d ds')
  moreover assume "list_all is_digit ds" "hd ds \<noteq> CHR ''0''"
  ultimately have "0 < digit_val d"
    by (auto intro!: gr0I) (metis digit_char_0 digit_char_digit_val)
  then show ?thesis using val_digits_mono [of "digit_val d" ds'] by (simp add: Cons)
qed simp

lemma show_nat_val_digits [codec_simps]:
  "list_all is_digit ds \<Longrightarrow> ds \<noteq> [] \<Longrightarrow> (hd ds = CHR ''0'' \<Longrightarrow> length ds = 1) \<Longrightarrow>
   show_nat (val_digits 0 ds) = ds"
proof (induction ds rule: rev_induct)
  case (snoc d ds)
  show ?case
  proof (cases "ds = []")
    case True
    with snoc.prems show ?thesis by (simp add: show_nat.simps [of "digit_val d"])
  next
    case False
    with snoc.prems have hd: "hd ds \<noteq> CHR ''0''" by auto
    with False snoc.prems have "0 < val_digits 0 ds" by (intro val_digits_pos) auto
    moreover have "show_nat (val_digits 0 ds) = ds" using False hd snoc by auto
    ultimately show ?thesis
      using snoc.prems digit_val_less [of d]
      by (subst show_nat.simps) (simp add: val_digits_append)
  qed
qed simp

lemma show_nat_inj [simp]: "show_nat m = show_nat n \<longleftrightarrow> m = n"
  by (metis val_digits_show_nat)

lemma show_nat_hd_zero: "hd (show_nat n) = CHR ''0'' \<Longrightarrow> n = 0"
proof (induction n rule: show_nat.induct)
  case (1 n)
  show ?case
  proof (cases "n < 10")
    case True
    with "1.prems" have "digit_char n = CHR ''0''" by (simp add: show_nat.simps [of n])
    then have "(of_char (digit_char n) :: nat) = of_char CHR ''0''" by simp
    with True show ?thesis by simp
  next
    case False
    with "1.prems" have "hd (show_nat (n div 10)) = CHR ''0''"
      by (simp add: show_nat.simps [of n])
    with "1.IH" False have "n div 10 = 0" by simp
    with False show ?thesis by simp
  qed
qed

lemma show_nat_zero_alone: "hd (show_nat n) = CHR ''0'' \<Longrightarrow> length (show_nat n) = 1"
  by (drule show_nat_hd_zero) (simp add: show_nat.simps [of 0])

section \<open>Lists as raw buffers\<close>

text \<open>
  \<open>ptr::copy(p.add(src), p.add(dst), n)\<close> inside one buffer: the \<open>n\<close> cells from
  \<open>src\<close> are read before the cells from \<open>dst\<close> are written (memmove). Both ranges have to lie
  inside the buffer.
\<close>

definition memmove :: "nat \<Rightarrow> nat \<Rightarrow> nat \<Rightarrow> 'a list \<Rightarrow> 'a list" where
  "memmove src dst n xs = take dst xs @ take n (drop src xs) @ drop (dst + n) xs"

text \<open>\<open>ptr::copy_nonoverlapping(src, p.add(dst), len)\<close> from another buffer.\<close>

definition blit :: "'a list \<Rightarrow> nat \<Rightarrow> 'a list \<Rightarrow> 'a list" where
  "blit ys dst xs = take dst xs @ ys @ drop (dst + length ys) xs"

lemma length_memmove [simp]:
  "src + n \<le> length xs \<Longrightarrow> dst + n \<le> length xs \<Longrightarrow> length (memmove src dst n xs) = length xs"
  by (simp add: memmove_def)

lemma length_blit [simp]:
  "dst + length ys \<le> length xs \<Longrightarrow> length (blit ys dst xs) = length xs"
  by (simp add: blit_def)

lemma take_blit:
  "dst + length ys \<le> length xs \<Longrightarrow> take (dst + length ys) (blit ys dst xs) = take dst xs @ ys"
  by (simp add: blit_def)

lemma take_blit_low: "n \<le> dst \<Longrightarrow> dst \<le> length xs \<Longrightarrow> take n (blit ys dst xs) = take n xs"
  by (simp add: blit_def min_def)

lemma take_memmove:
  "src + n \<le> length xs \<Longrightarrow> dst \<le> length xs \<Longrightarrow>
   take (dst + n) (memmove src dst n xs) = take dst xs @ take n (drop src xs)"
  by (simp add: memmove_def)

lemma take_Suc_update:
  "n < length xs \<Longrightarrow> take (Suc n) (xs[n := x]) = take n xs @ [x]"
  by (simp add: take_Suc_conv_app_nth)

lemma filter_upt_less: "c \<le> n \<Longrightarrow> filter (\<lambda>j. j < c) [0..<n] = [0..<c]"
  by (induction n) (auto simp: le_Suc_eq)

lemma those_map_Some [simp]: "those (map Some xs) = Some xs"
  by (induction xs) auto

section \<open>Results\<close>

text \<open>
  \<open>Result<T, E>\<close> is a sum, the error on the left; \<open>and_then m f\<close> is the operator
  \<open>?\<close> on \<open>m\<close> followed by \<open>f\<close>.
\<close>

definition and_then :: "'e + 'a \<Rightarrow> ('a \<Rightarrow> 'e + 'b) \<Rightarrow> 'e + 'b" where
  "and_then m f = (case m of Inl e \<Rightarrow> Inl e | Inr x \<Rightarrow> f x)"

lemma and_then_simps [simp]: "and_then (Inl e) f = Inl e" "and_then (Inr x) f = f x"
  by (simp_all add: and_then_def)

lemma and_then_Inr: "and_then m f = Inr y \<longleftrightarrow> (\<exists>x. m = Inr x \<and> f x = Inr y)"
  by (cases m) auto

lemma and_then_cong [fundef_cong]:
  "m = m' \<Longrightarrow> (\<And>x. m' = Inr x \<Longrightarrow> f x = g x) \<Longrightarrow> and_then m f = and_then m' g"
  by (cases m') auto

section \<open>Three-way comparison\<close>

text \<open>Rust's \<open>core::cmp::Ordering\<close>, with \<open>then_with\<close> and \<open>reverse\<close>.\<close>

datatype ordering = Less | Equal | Greater

fun then_with :: "ordering \<Rightarrow> ordering \<Rightarrow> ordering" where
  "then_with Equal o2 = o2"
| "then_with o1 o2 = o1"

fun ord_reverse :: "ordering \<Rightarrow> ordering" where
  "ord_reverse Less = Greater"
| "ord_reverse Equal = Equal"
| "ord_reverse Greater = Less"

definition ord_cmp :: "'a::linorder \<Rightarrow> 'a \<Rightarrow> ordering" where
  "ord_cmp a b = (if a < b then Less else if a = b then Equal else Greater)"

lemma then_with_Equal [simp]:
  "then_with a b = Equal \<longleftrightarrow> a = Equal \<and> b = Equal"
  by (cases a) auto

lemma ord_cmp_simps [simp]:
  "ord_cmp a b = Less \<longleftrightarrow> a < b"
  "ord_cmp a b = Equal \<longleftrightarrow> a = b"
  "ord_cmp a b = Greater \<longleftrightarrow> b < a"
  by (auto simp: ord_cmp_def)

text \<open>
  The interface of a total comparison, as \<open>Ord\<close> promises it: comparing both ways gives
  reversed answers, \<open>Equal\<close> is equality, and the order is transitive.
\<close>

locale total_cmp =
  fixes cmp :: "'a \<Rightarrow> 'a \<Rightarrow> ordering"
  assumes cmp_rev: "cmp b a = ord_reverse (cmp a b)"
    and cmp_Equal: "cmp a b = Equal \<longleftrightarrow> a = b"
    and cmp_trans: "cmp a b = Less \<Longrightarrow> cmp b c = Less \<Longrightarrow> cmp a c = Less"
begin

lemma cmp_refl: "cmp a a = Equal"
  by (simp add: cmp_Equal)

lemma cmp_Greater: "cmp a b = Greater \<longleftrightarrow> cmp b a = Less"
  using cmp_rev [of a b] by (cases "cmp b a"; cases "cmp a b") auto

lemma cmp_asym: "cmp a b = Less \<Longrightarrow> cmp b a \<noteq> Less"
  using cmp_rev [of a b] by auto

lemma cmp_cases: "cmp a b = Less \<or> a = b \<or> cmp b a = Less"
  using cmp_Greater [of a b] cmp_Equal [of a b] by (cases "cmp a b") auto

end

interpretation ord_total: total_cmp "ord_cmp :: 'a::linorder \<Rightarrow> 'a \<Rightarrow> ordering"
  by unfold_locales (auto simp: ord_cmp_def split: if_splits)

end
