(* ===== verification/Runtime.thy ===== *)
theory Runtime
  imports Prelude "HOL-Library.Monad_Syntax"
begin

text \<open>
  The shared runtime of the instrumentation library
  (\<open>unsafe_perf_source/src/lib.rs\<close>): the one-time initialisation, the thread-local flag
  that suspends tracking, and \<open>write_output\<close>, through which every tracker appends its
  statistics to a file. The operating system is a parameter (\<open>os_calls\<close>): environment,
  directory creation, opening a file for appending and writing to it, each of which may fail.
  Two interfaces are stated here as locales: the output sink the trackers write to, and the
  run-once statistics dump every tracker promises.
\<close>

section \<open>State\<close>

datatype io_error = Io_error nat

text \<open>
  \<open>global_skip\<close> is the thread-local \<open>GLOBAL_SKIP_TRACKING\<close> of the running thread;
  \<open>rt_fs\<close> is the file system the system calls act on.
\<close>

record 'fs rt =
  runtime_initialized :: bool
  global_skip :: bool
  rt_fs :: 'fs

record 'fs os_calls =
  os_env_var :: "string \<Rightarrow> string option"
  os_create_dir_all :: "string \<Rightarrow> 'fs \<Rightarrow> 'fs"
  os_open_append :: "string \<Rightarrow> 'fs \<Rightarrow> (io_error + unit) \<times> 'fs"
  os_write_all :: "string \<Rightarrow> string \<Rightarrow> 'fs \<Rightarrow> (io_error + unit) \<times> 'fs"

section \<open>Paths\<close>

text \<open>\<open>PathBuf::join\<close> and \<open>Path::parent\<close> on Unix paths without \<open>.\<close> components.\<close>

definition path_join :: "string \<Rightarrow> string \<Rightarrow> string" where
  "path_join dir name =
     (if name \<noteq> [] \<and> hd name = CHR ''/'' then name
      else if dir = [] \<or> last dir = CHR ''/'' then dir @ name
      else dir @ ''/'' @ name)"

definition strip_slashes :: "string \<Rightarrow> string" where
  "strip_slashes p = rev (dropWhile (\<lambda>c. c = CHR ''/'') (rev p))"

definition path_parent :: "string \<Rightarrow> string option" where
  "path_parent p =
     (let q = strip_slashes p in
      if q = [] then None
      else let r = rev (dropWhile (\<lambda>c. c \<noteq> CHR ''/'') (rev q)) in
        if r = [] then Some []
        else let s = strip_slashes r in if s = [] then Some ''/'' else Some s)"

section \<open>Operations\<close>

definition get_output_dir :: "'fs os_calls \<Rightarrow> string" where
  "get_output_dir os =
     (case os_env_var os ''UNSAFE_BENCH_OUTPUT_DIR'' of
        Some val \<Rightarrow> val
      | None \<Rightarrow> ''/tmp'')"

text \<open>
  The closure inside \<open>write_output\<close>: the \<open>?\<close> after opening and the result of
  \<open>writeln!\<close>, which writes the content and then the line end.
\<close>

definition write_file :: "'fs os_calls \<Rightarrow> string \<Rightarrow> string \<Rightarrow> 'fs \<Rightarrow> (io_error + unit) \<times> 'fs" where
  "write_file os content filename f =
     (let dir = get_output_dir os;
          file_path = path_join dir filename;
          f = (case path_parent file_path of
                 Some parent \<Rightarrow> os_create_dir_all os parent f
               | None \<Rightarrow> f)
      in case os_open_append os file_path f of
           (Inl e, f) \<Rightarrow> (Inl e, f)
         | (Inr _, f) \<Rightarrow>
             (case os_write_all os file_path content f of
                (Inl e, f) \<Rightarrow> (Inl e, f)
              | (Inr _, f) \<Rightarrow> os_write_all os file_path ''\<newline>'' f))"

definition write_output ::
  "'fs os_calls \<Rightarrow> string \<Rightarrow> string \<Rightarrow> 'fs rt \<Rightarrow> (io_error + unit) \<times> 'fs rt" where
  "write_output os content filename w =
     (let was_tracking = global_skip w;
          w = w\<lparr>global_skip := True\<rparr>;
          (result, f) = write_file os content filename (rt_fs w)
      in (result, w\<lparr>rt_fs := f, global_skip := was_tracking\<rparr>))"

text \<open>
  \<open>any_feature\<close> is the \<open>cfg(any(feature = ...))\<close> of the build. The exchange of the flag
  fails exactly when the runtime has been initialised before.
\<close>

definition initialize_runtime :: "bool \<Rightarrow> 'fs rt \<Rightarrow> 'fs rt" where
  "initialize_runtime any_feature w =
     (if runtime_initialized w then w
      else let w = w\<lparr>runtime_initialized := True\<rparr>
        in if any_feature then w\<lparr>global_skip := False\<rparr> else w)"

definition is_runtime_initialized :: "'fs rt \<Rightarrow> bool" where
  "is_runtime_initialized w = runtime_initialized w"

section \<open>The output sink\<close>

lemma write_output_skip [frame_simps, simp]:
  "global_skip (snd (write_output os c n w)) = global_skip w"
  by (simp add: write_output_def Let_def split: prod.splits)

lemma write_output_initialized [frame_simps, simp]:
  "runtime_initialized (snd (write_output os c n w)) = runtime_initialized w"
  by (simp add: write_output_def Let_def split: prod.splits)

lemma rt_fs_write_output [simp]:
  "rt_fs (snd (write_output os c n w)) = snd (write_file os c n (rt_fs w))"
  by (simp add: write_output_def Let_def split: prod.splits)

text \<open>
  The trackers rely on a sink that leaves the suspend flag as it found it, whatever the
  system answers; then any sequence of dumps does.
\<close>

locale output_sink =
  fixes sink_write :: "string \<Rightarrow> string \<Rightarrow> 'w \<Rightarrow> (io_error + unit) \<times> 'w"
    and suspended :: "'w \<Rightarrow> bool"
  assumes sink_suspended: "suspended (snd (sink_write c n w)) = suspended w"
begin

lemma sink_writes_suspended:
  "suspended (fold (\<lambda>(c, n) w. snd (sink_write c n w)) outs w) = suspended w"
  by (induction outs arbitrary: w) (auto simp: sink_suspended split: prod.splits)

end

interpretation rt_sink: output_sink "write_output os" global_skip for os
  by unfold_locales simp

section \<open>Run-once dumps\<close>

text \<open>
  A tracker's life is a sequence of recording steps and dump requests (a destructor of the
  instrumented module, and a second one registered as a backup).
\<close>

datatype 'op event = Step 'op | Dump

fun run_events ::
  "('op \<Rightarrow> 't \<Rightarrow> 't option) \<Rightarrow> ('t \<Rightarrow> 'w \<Rightarrow> ('t \<times> 'w) option) \<Rightarrow> 'op event list \<Rightarrow>
   't \<Rightarrow> 'w \<Rightarrow> ('t \<times> 'w) option" where
  "run_events step dump [] t w = Some (t, w)"
| "run_events step dump (Step op # evs) t w =
     do { t' \<leftarrow> step op t; run_events step dump evs t' w }"
| "run_events step dump (Dump # evs) t w =
     do { (t', w') \<leftarrow> dump t w; run_events step dump evs t' w' }"

locale dump_once =
  fixes rec_step :: "'op \<Rightarrow> 't \<Rightarrow> 't option"
    and dump :: "'t \<Rightarrow> 'w \<Rightarrow> ('t \<times> 'w) option"
    and written :: "'t \<Rightarrow> bool"
  assumes dump_writes: "dump t w = Some (t', w') \<Longrightarrow> written t'"
    and dump_written: "written t \<Longrightarrow> dump t w = Some (t, w)"
    and step_written: "rec_step op t = Some t' \<Longrightarrow> written t \<Longrightarrow> written t'"
begin

lemma run_written:
  "written t \<Longrightarrow> run_events rec_step dump evs t w = Some (t', w') \<Longrightarrow> w' = w"
proof (induction evs arbitrary: t)
  case (Cons e evs)
  then show ?case
    by (cases e) (auto simp: dump_written dest: step_written split: bind_splits)
qed simp

text \<open>Whatever happens after the first dump, the outside world stays as that dump left it.\<close>

lemma run_after_dump:
  "run_events rec_step dump (Dump # evs) t w = Some (t2, w2) \<Longrightarrow> \<exists>t1. dump t w = Some (t1, w2)"
  by (auto dest: run_written dump_writes split: bind_splits)

end

section \<open>An in-memory file system\<close>

text \<open>
  A concrete instance of the system parameter, for the witnesses: files by path, every call
  succeeds, appending creates the file. The bad disk refuses to open anything.
\<close>

definition mem_os :: "(string \<rightharpoonup> string) os_calls" where
  "mem_os = \<lparr>os_env_var = (\<lambda>_. None),
     os_create_dir_all = (\<lambda>_ f. f),
     os_open_append = (\<lambda>p f. (Inr (), f(p \<mapsto> (case f p of None \<Rightarrow> [] | Some s \<Rightarrow> s)))),
     os_write_all = (\<lambda>p c f. (Inr (), f(p \<mapsto> (case f p of None \<Rightarrow> c | Some s \<Rightarrow> s @ c))))\<rparr>"

definition bad_disk :: "(string \<rightharpoonup> string) os_calls" where
  "bad_disk = mem_os\<lparr>os_open_append := (\<lambda>_ f. (Inl (Io_error 28), f))\<rparr>"

definition rt_new :: "'fs \<Rightarrow> 'fs rt" where
  "rt_new f = \<lparr>runtime_initialized = False, global_skip = False, rt_fs = f\<rparr>"

end
