(* ===== verification/Unsafe_Counter.thy ===== *)
theory Unsafe_Counter
  imports Runtime
begin

text \<open>
  The unsafe-instruction counter (\<open>unsafe_perf_source/src/unsafe_counter.rs\<close>): the metadata
  table, the bitset of functions seen, the call and instruction counters, and the statistics
  dump. Atomic read-modify-write operations are single steps; the fixed-size arrays are
  functions of the index, and an index outside the array (a panic) or a read of a slot that
  was never written is the result \<open>None\<close>.
\<close>

section \<open>State\<close>

definition MAX_FUNCTIONS :: nat where
  "MAX_FUNCTIONS = 65536"

record function_metadata =
  md_id :: u32
  has_unsafe_inst :: u8
  has_unsafe_regions :: u8
  md_padding :: u16

text \<open>The words of an \<open>AtomicBitset\<close>: \<open>(MAX_FUNCTIONS + 63) / 64\<close> of them.\<close>

type_synonym atomic_bitset = "nat \<Rightarrow> u64"

definition bitset_words :: nat where
  "bitset_words = (MAX_FUNCTIONS + 63) div 64"

definition bitset_new :: atomic_bitset where
  "bitset_new = (\<lambda>_. 0)"

definition bitset_set :: "atomic_bitset \<Rightarrow> nat \<Rightarrow> atomic_bitset option" where
  "bitset_set ws index =
     (let word_idx = index div 64; bit_idx = index mod 64
      in if word_idx < bitset_words
         then Some (ws(word_idx := ws word_idx OR push_bit bit_idx 1))
         else None)"

definition bitset_is_set :: "atomic_bitset \<Rightarrow> nat \<Rightarrow> bool option" where
  "bitset_is_set ws index =
     (let word_idx = index div 64; bit_idx = index mod 64
      in if word_idx < bitset_words
         then Some (ws word_idx AND push_bit bit_idx 1 \<noteq> 0)
         else None)"

record unsafe_tracker =
  metadata :: "nat \<Rightarrow> function_metadata option"
  metadata_count :: u32
  function_calls :: "nat \<Rightarrow> u64"
  functions_seen :: atomic_bitset
  total_instructions :: u64
  total_unsafe_instructions :: u64
  unsafe_loads :: u64
  unsafe_stores :: u64
  unsafe_calls :: u64
  unsafe_casts :: u64
  unsafe_geps :: u64
  unsafe_others :: u64
  uc_stats_written :: bool
  metadata_initialized :: bool

definition tracker_new :: unsafe_tracker where
  "tracker_new = \<lparr>metadata = (\<lambda>_. None), metadata_count = 0, function_calls = (\<lambda>_. 0),
     functions_seen = bitset_new, total_instructions = 0, total_unsafe_instructions = 0,
     unsafe_loads = 0, unsafe_stores = 0, unsafe_calls = 0, unsafe_casts = 0,
     unsafe_geps = 0, unsafe_others = 0, uc_stats_written = False,
     metadata_initialized = False\<rparr>"

section \<open>Operations\<close>

fun write_metadata ::
  "nat \<Rightarrow> function_metadata list \<Rightarrow> (nat \<Rightarrow> function_metadata option) \<Rightarrow>
   nat \<Rightarrow> function_metadata option" where
  "write_metadata i [] arr = arr"
| "write_metadata i (m # ms) arr = write_metadata (Suc i) ms (arr(i := Some m))"

text \<open>
  \<open>table\<close> is the memory behind \<open>metadata_ptr\<close>; reading \<open>count\<close> (here \<open>n\<close>) entries of it is defined
  only when it holds that many.
\<close>

definition init_metadata ::
  "function_metadata list \<Rightarrow> u32 \<Rightarrow> unsafe_tracker \<Rightarrow> unsafe_tracker option" where
  "init_metadata table n t =
     (if metadata_initialized t then Some t
      else let t = t\<lparr>metadata_initialized := True\<rparr> in
        if n > of_nat MAX_FUNCTIONS then Some t
        else if length table < unat n then None
        else Some (t\<lparr>metadata := write_metadata 0 (take (unat n) table) (metadata t),
                     metadata_count := n\<rparr>))"

definition record_function :: "u32 \<Rightarrow> unsafe_tracker \<Rightarrow> unsafe_tracker option" where
  "record_function func_id t =
     (if unat func_id \<ge> MAX_FUNCTIONS then Some t
      else let i = unat func_id;
               t = t\<lparr>function_calls := (function_calls t)(i := function_calls t i + 1)\<rparr>
        in do { seen \<leftarrow> bitset_set (functions_seen t) i;
                Some (t\<lparr>functions_seen := seen\<rparr>) })"

record block_stats =
  blk_total :: u32
  blk_unsafe_total :: u32
  blk_load :: u16
  blk_store :: u16
  blk_call :: u16
  blk_cast :: u16
  blk_gep :: u16
  blk_other :: u16

definition add_if_nonzero :: "u16 \<Rightarrow> u64 \<Rightarrow> u64" where
  "add_if_nonzero n c = (if n > 0 then c + cast n else c)"

definition record_block :: "u32 \<Rightarrow> block_stats \<Rightarrow> unsafe_tracker \<Rightarrow> unsafe_tracker" where
  "record_block func_id b t =
     (let t = t\<lparr>total_instructions := total_instructions t + cast (blk_total b)\<rparr> in
      if blk_unsafe_total b = 0 then t
      else t\<lparr>total_unsafe_instructions :=
               total_unsafe_instructions t + cast (blk_unsafe_total b),
             unsafe_loads := add_if_nonzero (blk_load b) (unsafe_loads t),
             unsafe_stores := add_if_nonzero (blk_store b) (unsafe_stores t),
             unsafe_calls := add_if_nonzero (blk_call b) (unsafe_calls t),
             unsafe_casts := add_if_nonzero (blk_cast b) (unsafe_casts t),
             unsafe_geps := add_if_nonzero (blk_gep b) (unsafe_geps t),
             unsafe_others := add_if_nonzero (blk_other b) (unsafe_others t)\<rparr>)"

section \<open>Statistics\<close>

record uc_stats =
  st_total_insts :: u64
  st_unsafe_insts :: u64
  st_loads :: u64
  st_stores :: u64
  st_calls :: u64
  st_casts :: u64
  st_geps :: u64
  st_others :: u64
  st_unique :: u32
  st_unique_unsafe :: u32
  st_total_calls :: u64
  st_unsafe_calls :: u64

definition is_unsafe_fn :: "function_metadata \<Rightarrow> bool" where
  "is_unsafe_fn m \<longleftrightarrow> has_unsafe_inst m \<noteq> 0 \<or> has_unsafe_regions m \<noteq> 0"

text \<open>
  The loop over the table: unique functions, unique unsafe functions, calls and unsafe calls.
  The accumulators wrap, as the release build's additions do.
\<close>

fun function_stats ::
  "unsafe_tracker \<Rightarrow> nat list \<Rightarrow> u32 \<times> u32 \<times> u64 \<times> u64 \<Rightarrow> (u32 \<times> u32 \<times> u64 \<times> u64) option" where
  "function_stats t [] acc = Some acc"
| "function_stats t (i # is) (uniq, uniq_unsafe, calls, ucalls) =
     do { seen \<leftarrow> bitset_is_set (functions_seen t) i;
          if seen then
            do { meta \<leftarrow> metadata t i;
                 let is_unsafe = is_unsafe_fn meta;
                 let n = function_calls t i;
                 function_stats t is
                   (uniq + 1,
                    if is_unsafe then uniq_unsafe + 1 else uniq_unsafe,
                    calls + n,
                    if is_unsafe then ucalls + n else ucalls) }
          else function_stats t is (uniq, uniq_unsafe, calls, ucalls) }"

definition collect_stats :: "unsafe_tracker \<Rightarrow> uc_stats option" where
  "collect_stats t =
     do { (uniq, uniq_unsafe, calls, ucalls) \<leftarrow>
            function_stats t [0..<unat (metadata_count t)] (0, 0, 0, 0);
          Some \<lparr>st_total_insts = total_instructions t,
            st_unsafe_insts = total_unsafe_instructions t,
            st_loads = unsafe_loads t, st_stores = unsafe_stores t,
            st_calls = unsafe_calls t, st_casts = unsafe_casts t,
            st_geps = unsafe_geps t, st_others = unsafe_others t,
            st_unique = uniq, st_unique_unsafe = uniq_unsafe,
            st_total_calls = calls, st_unsafe_calls = ucalls\<rparr> }"

definition format_uc_stats :: "uc_stats \<Rightarrow> string" where
  "format_uc_stats s =
     ''Total instructions: '' @ show_word (st_total_insts s) @ ''\<newline>'' @
     ''Unsafe instructions: '' @ show_word (st_unsafe_insts s) @ ''\<newline>'' @
     ''Unsafe loads: '' @ show_word (st_loads s) @ ''\<newline>'' @
     ''Unsafe stores: '' @ show_word (st_stores s) @ ''\<newline>'' @
     ''Unsafe calls: '' @ show_word (st_calls s) @ ''\<newline>'' @
     ''Unsafe casts: '' @ show_word (st_casts s) @ ''\<newline>'' @
     ''Unsafe GEPs: '' @ show_word (st_geps s) @ ''\<newline>'' @
     ''Unsafe others: '' @ show_word (st_others s) @ ''\<newline>'' @
     ''Unique functions: '' @ show_word (st_unique s) @ ''\<newline>'' @
     ''Unique unsafe functions: '' @ show_word (st_unique_unsafe s) @ ''\<newline>'' @
     ''Total function calls: '' @ show_word (st_total_calls s) @ ''\<newline>'' @
     ''Unsafe function calls: '' @ show_word (st_unsafe_calls s) @ ''\<newline>''"

definition uc_dump_stats ::
  "'fs os_calls \<Rightarrow> unsafe_tracker \<Rightarrow> 'fs rt \<Rightarrow> (unsafe_tracker \<times> 'fs rt) option" where
  "uc_dump_stats os t w =
     (if uc_stats_written t then Some (t, w)
      else let t = t\<lparr>uc_stats_written := True\<rparr> in
        if \<not> metadata_initialized t then Some (t, w)
        else if unat (metadata_count t) = 0 then Some (t, w)
        else do { st \<leftarrow> collect_stats t;
                  Some (t, snd (write_output os (format_uc_stats st) ''unsafe_counter.stat'' w)) })"

section \<open>The bitset\<close>

text \<open>
  What the tracker relies on: inside the capacity, marking an index succeeds and is seen by
  every later test, and nothing else changes.
\<close>

locale bitset =
  fixes bs_empty :: 'b
    and bs_set :: "'b \<Rightarrow> nat \<Rightarrow> 'b option"
    and bs_is_set :: "'b \<Rightarrow> nat \<Rightarrow> bool option"
    and cap :: nat
  assumes is_set_empty: "i < cap \<Longrightarrow> bs_is_set bs_empty i = Some False"
    and set_Some: "i < cap \<Longrightarrow> \<exists>b'. bs_set b i = Some b'"
    and is_set_set: "bs_set b i = Some b' \<Longrightarrow> j < cap \<Longrightarrow>
          bs_is_set b' j = (if j = i then Some True else bs_is_set b j)"
begin

definition reps :: "'b \<Rightarrow> nat set \<Rightarrow> bool" where
  "reps b S \<longleftrightarrow> (\<forall>j<cap. bs_is_set b j = Some (j \<in> S))"

lemma reps_empty: "reps bs_empty {}"
  by (simp add: reps_def is_set_empty)

lemma reps_set: "reps b S \<Longrightarrow> bs_set b i = Some b' \<Longrightarrow> reps b' (insert i S)"
  by (auto simp: reps_def is_set_set)

lemma reps_outside: "reps b S \<Longrightarrow> cap \<le> i \<Longrightarrow> reps b (insert i S)"
  by (auto simp: reps_def)

lemma reps_is_set: "reps b S \<Longrightarrow> j < cap \<Longrightarrow> bs_is_set b j = Some (j \<in> S)"
  by (simp add: reps_def)

end

lemma word_idx_in_range: "i < MAX_FUNCTIONS \<Longrightarrow> i div 64 < bitset_words"
  by (simp add: MAX_FUNCTIONS_def bitset_words_def)

lemma bitset_is_set_bit:
  "i div 64 < bitset_words \<Longrightarrow> bitset_is_set ws i = Some (bit (ws (i div 64)) (i mod 64))"
  by (simp add: bitset_is_set_def bit_iff_and_push_bit_not_eq_0)

lemma bitset_set_bit:
  assumes "bitset_set ws i = Some ws'"
  shows "bit (ws' k) n \<longleftrightarrow> bit (ws k) n \<or> k = i div 64 \<and> n = i mod 64"
proof -
  from assms have ws': "ws' = ws(i div 64 := ws (i div 64) OR push_bit (i mod 64) 1)"
    by (simp add: bitset_set_def Let_def split: if_splits)
  have "i mod 64 < 64" by simp
  then show ?thesis
    by (auto simp: ws' bit_or_iff bit_exp_iff possible_bit_word)
qed

interpretation seen: bitset bitset_new bitset_set bitset_is_set MAX_FUNCTIONS
proof unfold_locales
  fix i :: nat
  assume "i < MAX_FUNCTIONS"
  then have r: "i div 64 < bitset_words" by (rule word_idx_in_range)
  show "bitset_is_set bitset_new i = Some False"
    using r by (simp add: bitset_is_set_bit bitset_new_def)
  show "\<exists>b'. bitset_set b i = Some b'" for b
    using r by (simp add: bitset_set_def Let_def)
next
  fix b b' i j
  assume s: "bitset_set b i = Some b'" and j: "j < MAX_FUNCTIONS"
  have "j div 64 = i div 64 \<and> j mod 64 = i mod 64 \<longleftrightarrow> j = i"
    by (metis div_mult_mod_eq)
  then show "bitset_is_set b' j = (if j = i then Some True else bitset_is_set b j)"
    using bitset_set_bit [OF s, of "j div 64" "j mod 64"] word_idx_in_range [OF j]
    by (auto simp: bitset_is_set_bit)
qed

section \<open>Traces of recording calls\<close>

text \<open>The calls the instrumented program makes, in order.\<close>

datatype uc_op = Fn u32 | Blk u32 block_stats

fun uc_step :: "uc_op \<Rightarrow> unsafe_tracker \<Rightarrow> unsafe_tracker option" where
  "uc_step (Fn fid) t = record_function fid t"
| "uc_step (Blk fid b) t = Some (record_block fid b t)"

fun uc_run :: "uc_op list \<Rightarrow> unsafe_tracker \<Rightarrow> unsafe_tracker option" where
  "uc_run [] t = Some t"
| "uc_run (op # ops) t = do { t' \<leftarrow> uc_step op t; uc_run ops t' }"

fun fn_ids :: "uc_op list \<Rightarrow> nat list" where
  "fn_ids [] = []"
| "fn_ids (Fn fid # ops) = unat fid # fn_ids ops"
| "fn_ids (Blk fid b # ops) = fn_ids ops"

fun blocks :: "uc_op list \<Rightarrow> block_stats list" where
  "blocks [] = []"
| "blocks (Fn fid # ops) = blocks ops"
| "blocks (Blk fid b # ops) = b # blocks ops"

text \<open>The blocks that contain an unsafe instruction: only they reach the category counters.\<close>

definition unsafe_blocks :: "uc_op list \<Rightarrow> block_stats list" where
  "unsafe_blocks ops = filter (\<lambda>b. blk_unsafe_total b \<noteq> 0) (blocks ops)"

definition sum_of :: "(block_stats \<Rightarrow> 'a::len word) \<Rightarrow> block_stats list \<Rightarrow> u64" where
  "sum_of f bs = (\<Sum>b\<leftarrow>bs. cast (f b))"

text \<open>The statistics a trace ought to produce, from the trace alone.\<close>

definition spec_stats :: "function_metadata list \<Rightarrow> uc_op list \<Rightarrow> uc_stats" where
  "spec_stats md ops =
     (let ids = filter (\<lambda>i. i < length md) (fn_ids ops);
          uids = filter (\<lambda>i. is_unsafe_fn (md ! i)) ids
      in \<lparr>st_total_insts = sum_of blk_total (blocks ops),
          st_unsafe_insts = sum_of blk_unsafe_total (blocks ops),
          st_loads = sum_of blk_load (unsafe_blocks ops),
          st_stores = sum_of blk_store (unsafe_blocks ops),
          st_calls = sum_of blk_call (unsafe_blocks ops),
          st_casts = sum_of blk_cast (unsafe_blocks ops),
          st_geps = sum_of blk_gep (unsafe_blocks ops),
          st_others = sum_of blk_other (unsafe_blocks ops),
          st_unique = of_nat (card (set ids)),
          st_unique_unsafe = of_nat (card (set uids)),
          st_total_calls = of_nat (length ids),
          st_unsafe_calls = of_nat (length uids)\<rparr>)"

section \<open>The recording invariant\<close>

definition instr_totals :: "unsafe_tracker \<Rightarrow> u64 list" where
  "instr_totals t = [total_instructions t, total_unsafe_instructions t, unsafe_loads t,
     unsafe_stores t, unsafe_calls t, unsafe_casts t, unsafe_geps t, unsafe_others t]"

definition spec_totals :: "uc_op list \<Rightarrow> u64 list" where
  "spec_totals ops = [sum_of blk_total (blocks ops), sum_of blk_unsafe_total (blocks ops),
     sum_of blk_load (unsafe_blocks ops), sum_of blk_store (unsafe_blocks ops),
     sum_of blk_call (unsafe_blocks ops), sum_of blk_cast (unsafe_blocks ops),
     sum_of blk_gep (unsafe_blocks ops), sum_of blk_other (unsafe_blocks ops)]"

definition tracks :: "uc_op list \<Rightarrow> unsafe_tracker \<Rightarrow> bool" where
  "tracks ops t \<longleftrightarrow>
     (\<forall>i<MAX_FUNCTIONS. function_calls t i = of_nat (count_list (fn_ids ops) i)) \<and>
     seen.reps (functions_seen t) (set (fn_ids ops)) \<and>
     instr_totals t = spec_totals ops"

lemma add_if_nonzero_eq [simp]: "add_if_nonzero n c = c + cast n"
  by (cases "n = 0") (simp_all add: add_if_nonzero_def word_gt_0)

lemma fn_ids_append [simp]: "fn_ids (xs @ ys) = fn_ids xs @ fn_ids ys"
  by (induction xs rule: fn_ids.induct) auto

lemma blocks_append [simp]: "blocks (xs @ ys) = blocks xs @ blocks ys"
  by (induction xs rule: blocks.induct) auto

lemma sum_of_append [simp]: "sum_of f (xs @ ys) = sum_of f xs + sum_of f ys"
  by (simp add: sum_of_def)

lemma sum_of_single [simp]: "sum_of f [b] = cast (f b)"
  by (simp add: sum_of_def)

lemma sum_of_Nil [simp]: "sum_of f [] = 0"
  by (simp add: sum_of_def)

lemma tracks_new: "tracks [] tracker_new"
  by (simp add: tracks_def tracker_new_def seen.reps_empty instr_totals_def spec_totals_def
      unsafe_blocks_def)

lemma tracks_record_function:
  assumes "tracks ops t" and "record_function fid t = Some t'"
  shows "tracks (ops @ [Fn fid]) t'"
proof (cases "unat fid < MAX_FUNCTIONS")
  case True
  with assms(2) obtain s where s: "bitset_set (functions_seen t) (unat fid) = Some s"
    and t': "t' = t\<lparr>function_calls := (function_calls t)(unat fid := function_calls t (unat fid) + 1),
                   functions_seen := s\<rparr>"
    by (auto simp: record_function_def Let_def split: bind_splits)
  from assms(1) s show ?thesis
    by (auto simp: tracks_def t' instr_totals_def spec_totals_def unsafe_blocks_def
        dest: seen.reps_set)
next
  case False
  with assms show ?thesis
    by (auto simp: tracks_def record_function_def instr_totals_def spec_totals_def
        unsafe_blocks_def intro: seen.reps_outside)
qed

lemma tracks_record_block:
  assumes "tracks ops t"
  shows "tracks (ops @ [Blk fid b]) (record_block fid b t)"
proof (cases "blk_unsafe_total b = 0")
  case True
  with assms show ?thesis
    by (simp add: tracks_def record_block_def instr_totals_def spec_totals_def unsafe_blocks_def)
next
  case False
  with assms show ?thesis
    by (simp add: tracks_def record_block_def instr_totals_def spec_totals_def unsafe_blocks_def)
qed

lemma tracks_step:
  "tracks ops t \<Longrightarrow> uc_step op t = Some t' \<Longrightarrow> tracks (ops @ [op]) t'"
  by (cases op) (auto intro: tracks_record_function tracks_record_block)

lemma record_function_Some: "\<exists>t'. record_function fid t = Some t'"
proof (cases "unat fid < MAX_FUNCTIONS")
  case True
  then show ?thesis
    using seen.set_Some [OF True, of "functions_seen t"]
    by (auto simp: record_function_def Let_def)
qed (simp add: record_function_def)

lemma uc_step_Some: "\<exists>t'. uc_step op t = Some t'"
  by (cases op) (auto intro: record_function_Some)

lemma tracks_run:
  "tracks pre t \<Longrightarrow> \<exists>t'. uc_run ops t = Some t' \<and> tracks (pre @ ops) t'"
proof (induction ops arbitrary: pre t)
  case (Cons op ops)
  obtain u where u: "uc_step op t = Some u" using uc_step_Some by blast
  from Cons.prems u have "tracks (pre @ [op]) u" by (rule tracks_step)
  then obtain t' where "uc_run ops u = Some t' \<and> tracks ((pre @ [op]) @ ops) t'"
    using Cons.IH by blast
  with u show ?case by auto
qed simp

text \<open>Recording touches neither the table nor the control flags.\<close>

lemma record_function_frame [frame_simps]:
  "record_function fid t = Some t' \<Longrightarrow> metadata t' = metadata t \<and>
   metadata_count t' = metadata_count t \<and> metadata_initialized t' = metadata_initialized t \<and>
   uc_stats_written t' = uc_stats_written t"
  by (auto simp: record_function_def Let_def split: if_splits bind_splits)

lemma record_block_frame [frame_simps]:
  "metadata (record_block fid b t) = metadata t"
  "metadata_count (record_block fid b t) = metadata_count t"
  "metadata_initialized (record_block fid b t) = metadata_initialized t"
  "uc_stats_written (record_block fid b t) = uc_stats_written t"
  by (auto simp: record_block_def Let_def)

lemma uc_step_frame:
  "uc_step op t = Some t' \<Longrightarrow> metadata t' = metadata t \<and>
   metadata_count t' = metadata_count t \<and> metadata_initialized t' = metadata_initialized t \<and>
   uc_stats_written t' = uc_stats_written t"
  by (cases op) (auto simp: frame_simps dest: record_function_frame)

lemma uc_run_frame:
  "uc_run ops t = Some t' \<Longrightarrow> metadata t' = metadata t \<and>
   metadata_count t' = metadata_count t \<and> metadata_initialized t' = metadata_initialized t \<and>
   uc_stats_written t' = uc_stats_written t"
proof (induction ops arbitrary: t)
  case (Cons op ops)
  then obtain u where u: "uc_step op t = Some u" "uc_run ops u = Some t'"
    by (auto split: bind_splits)
  with Cons.IH [OF u(2)] uc_step_frame [OF u(1)] show ?case by simp
qed simp

section \<open>The statistics loop\<close>

lemma write_metadata_eq:
  "write_metadata k ms arr i = (if k \<le> i \<and> i < k + length ms then Some (ms ! (i - k)) else arr i)"
proof (induction ms arbitrary: k arr)
  case (Cons m ms)
  then show ?case by (auto simp: nth_Cons' split: if_splits)
qed auto

lemma sum_count_filter:
  "(\<Sum>i\<leftarrow>[0..<n]. if P i then of_nat (count_list ids i) else 0) =
   (of_nat (length (filter (\<lambda>i. i < n \<and> P i) ids)) :: 'a::comm_semiring_1)"
proof (induction ids)
  case Nil
  show ?case by (simp cong: if_cong)
next
  case (Cons x ids)
  have "(\<Sum>i\<leftarrow>[0..<n]. if P i then of_nat (count_list (x # ids) i) else (0::'a)) =
        (\<Sum>i\<leftarrow>[0..<n]. (if P i then of_nat (count_list ids i) else 0) +
           (if i = x \<and> P x then 1 else 0))"
    by (intro arg_cong [where f = sum_list] map_cong) (auto simp: add.commute)
  also have "\<dots> = of_nat (length (filter (\<lambda>i. i < n \<and> P i) ids)) +
        (\<Sum>i\<leftarrow>[0..<n]. if i = x \<and> P x then 1 else 0)"
    by (simp add: sum_list_addf Cons.IH)
  also have "(\<Sum>i\<leftarrow>[0..<n]. if i = x \<and> P x then (1::'a) else 0) = (if x < n \<and> P x then 1 else 0)"
    by (cases "P x") (auto simp: interv_sum_list_conv_sum_set_nat)
  finally show ?case by (simp add: add.commute)
qed

lemma length_filter_upt:
  "length (filter P [0..<n]) = card {i. i < n \<and> P i}"
proof -
  have "length (filter P [0..<n]) = card (set (filter P [0..<n]))"
    by (metis distinct_card distinct_filter distinct_upt)
  then show ?thesis by simp
qed

lemma function_stats_eq:
  assumes "\<forall>i\<in>set is. i < MAX_FUNCTIONS \<and> metadata t i = Some (md ! i)"
    and "seen.reps (functions_seen t) S"
    and "\<forall>i\<in>set is. i \<notin> S \<longrightarrow> function_calls t i = 0"
  shows "function_stats t is (a, b, c, d) =
    Some (a + of_nat (length (filter (\<lambda>i. i \<in> S) is)),
          b + of_nat (length (filter (\<lambda>i. i \<in> S \<and> is_unsafe_fn (md ! i)) is)),
          c + (\<Sum>i\<leftarrow>is. function_calls t i),
          d + (\<Sum>i\<leftarrow>is. if is_unsafe_fn (md ! i) then function_calls t i else 0))"
  using assms
proof (induction "is" arbitrary: a b c d)
  case (Cons i "is")
  then have "bitset_is_set (functions_seen t) i = Some (i \<in> S)"
    by (simp add: seen.reps_is_set)
  with Cons show ?case by (auto simp: add.assoc Let_def)
qed simp

lemma collect_stats_spec:
  assumes tr: "tracks ops t" and n: "length md \<le> MAX_FUNCTIONS"
    and md: "\<forall>i<length md. metadata t i = Some (md ! i)"
    and c: "unat (metadata_count t) = length md"
  shows "collect_stats t = Some (spec_stats md ops)"
proof -
  let ?ids = "fn_ids ops" and ?n = "length md"
  have calls: "\<forall>i<MAX_FUNCTIONS. function_calls t i = of_nat (count_list ?ids i)"
    and reps: "seen.reps (functions_seen t) (set ?ids)"
    and tot: "instr_totals t = spec_totals ops"
    using tr by (auto simp: tracks_def)
  have sums: "(\<Sum>i\<leftarrow>[0..<?n]. if P i then function_calls t i else 0) =
      of_nat (length (filter (\<lambda>i. i < ?n \<and> P i) ?ids))" for P
  proof -
    have "(\<Sum>i\<leftarrow>[0..<?n]. if P i then function_calls t i else 0) =
        (\<Sum>i\<leftarrow>[0..<?n]. if P i then of_nat (count_list ?ids i) else 0)"
      using calls n by (intro arg_cong [where f = sum_list] map_cong) auto
    then show ?thesis by (simp add: sum_count_filter)
  qed
  have cards: "length (filter (\<lambda>i. i \<in> set ?ids \<and> P i) [0..<?n]) =
      card (set (filter P (filter (\<lambda>i. i < ?n) ?ids)))" for P
    by (simp only: length_filter_upt) (rule arg_cong [where f = card], auto)
  have "function_stats t [0..<?n] (0, 0, 0, 0) =
    Some (of_nat (length (filter (\<lambda>i. i \<in> set ?ids) [0..<?n])),
          of_nat (length (filter (\<lambda>i. i \<in> set ?ids \<and> is_unsafe_fn (md ! i)) [0..<?n])),
          (\<Sum>i\<leftarrow>[0..<?n]. function_calls t i),
          (\<Sum>i\<leftarrow>[0..<?n]. if is_unsafe_fn (md ! i) then function_calls t i else 0))"
    using md n calls reps by (subst function_stats_eq [where S = "set ?ids" and md = md]) auto
  then show ?thesis
    using tot sums [of "\<lambda>_. True"] sums [of "\<lambda>i. is_unsafe_fn (md ! i)"]
      cards [of "\<lambda>_. True"] cards [of "\<lambda>i. is_unsafe_fn (md ! i)"]
    by (simp add: collect_stats_def c spec_stats_def Let_def instr_totals_def spec_totals_def
        filter_filter conj_ac)
qed

section \<open>Atomic steps and interleavings\<close>

text \<open>
  Recording is lock-free: each call is a few atomic read-modify-write operations, and the
  operations of several threads interleave. \<open>rmws_of\<close> lists the operations of one call.
\<close>

datatype uc_counter =
  C_total | C_unsafe | C_load | C_store | C_call | C_cast | C_gep | C_other

datatype rmw = Add_calls nat | Or_seen nat | Add_counter uc_counter u64

fun apply_rmw :: "rmw \<Rightarrow> unsafe_tracker \<Rightarrow> unsafe_tracker" where
  "apply_rmw (Add_calls i) t =
     t\<lparr>function_calls := (function_calls t)(i := function_calls t i + 1)\<rparr>"
| "apply_rmw (Or_seen i) t =
     t\<lparr>functions_seen := (functions_seen t)
        (i div 64 := functions_seen t (i div 64) OR push_bit (i mod 64) 1)\<rparr>"
| "apply_rmw (Add_counter C_total n) t = t\<lparr>total_instructions := total_instructions t + n\<rparr>"
| "apply_rmw (Add_counter C_unsafe n) t =
     t\<lparr>total_unsafe_instructions := total_unsafe_instructions t + n\<rparr>"
| "apply_rmw (Add_counter C_load n) t = t\<lparr>unsafe_loads := unsafe_loads t + n\<rparr>"
| "apply_rmw (Add_counter C_store n) t = t\<lparr>unsafe_stores := unsafe_stores t + n\<rparr>"
| "apply_rmw (Add_counter C_call n) t = t\<lparr>unsafe_calls := unsafe_calls t + n\<rparr>"
| "apply_rmw (Add_counter C_cast n) t = t\<lparr>unsafe_casts := unsafe_casts t + n\<rparr>"
| "apply_rmw (Add_counter C_gep n) t = t\<lparr>unsafe_geps := unsafe_geps t + n\<rparr>"
| "apply_rmw (Add_counter C_other n) t = t\<lparr>unsafe_others := unsafe_others t + n\<rparr>"

definition add_rmw :: "uc_counter \<Rightarrow> u16 \<Rightarrow> rmw list" where
  "add_rmw c n = (if n > 0 then [Add_counter c (cast n)] else [])"

fun rmws_of :: "uc_op \<Rightarrow> rmw list" where
  "rmws_of (Fn fid) =
     (if unat fid \<ge> MAX_FUNCTIONS then [] else [Add_calls (unat fid), Or_seen (unat fid)])"
| "rmws_of (Blk fid b) =
     Add_counter C_total (cast (blk_total b)) #
     (if blk_unsafe_total b = 0 then []
      else Add_counter C_unsafe (cast (blk_unsafe_total b)) #
        add_rmw C_load (blk_load b) @ add_rmw C_store (blk_store b) @
        add_rmw C_call (blk_call b) @ add_rmw C_cast (blk_cast b) @
        add_rmw C_gep (blk_gep b) @ add_rmw C_other (blk_other b))"

lemma fold_add_rmw [simp]:
  "fold apply_rmw (add_rmw c n) t = apply_rmw (Add_counter c (cast n)) t"
  by (cases "n = 0"; cases c) (simp_all add: add_rmw_def word_gt_0)

lemma uc_step_rmws: "uc_step op t = Some (fold apply_rmw (rmws_of op) t)"
proof (cases op)
  case (Fn fid)
  then show ?thesis
    using word_idx_in_range [of "unat fid"]
    by (simp add: record_function_def Let_def bitset_set_def)
next
  case (Blk fid b)
  then show ?thesis by (simp add: record_block_def Let_def)
qed

lemma apply_rmw_counter_commute:
  "apply_rmw (Add_counter c n) (apply_rmw (Add_counter c' n') t) =
   apply_rmw (Add_counter c' n') (apply_rmw (Add_counter c n) t)"
  by (cases c; cases c') (simp_all add: ac_simps)

lemma or_word_twist:
  fixes ws :: "nat \<Rightarrow> u64"
  shows "(ws(i := ws i OR a))(j := (ws(i := ws i OR a)) j OR b) =
    (ws(j := ws j OR b))(i := (ws(j := ws j OR b)) i OR a)"
  by (auto simp: fun_eq_iff or.commute or.left_commute)

lemma apply_rmw_counter_array:
  "apply_rmw (Add_counter c n) (apply_rmw (Add_calls i) t) =
   apply_rmw (Add_calls i) (apply_rmw (Add_counter c n) t)"
  "apply_rmw (Add_counter c n) (apply_rmw (Or_seen i) t) =
   apply_rmw (Or_seen i) (apply_rmw (Add_counter c n) t)"
  by (cases c; simp)+

lemma apply_rmw_array:
  "apply_rmw (Add_calls i) (apply_rmw (Add_calls j) t) =
   apply_rmw (Add_calls j) (apply_rmw (Add_calls i) t)"
  "apply_rmw (Or_seen i) (apply_rmw (Or_seen j) t) =
   apply_rmw (Or_seen j) (apply_rmw (Or_seen i) t)"
  "apply_rmw (Add_calls i) (apply_rmw (Or_seen j) t) =
   apply_rmw (Or_seen j) (apply_rmw (Add_calls i) t)"
    apply (cases "i = j"; simp add: fun_upd_twist)
   apply (auto simp: fun_upd_twist or.assoc or.commute [of "2 ^ (j mod 64)"])[1]
  apply simp
  done

lemma apply_rmw_commute: "apply_rmw r \<circ> apply_rmw r' = apply_rmw r' \<circ> apply_rmw r"
  by (cases r; cases r')
    (simp_all add: fun_eq_iff apply_rmw_counter_commute apply_rmw_counter_array
      apply_rmw_array del: apply_rmw.simps)

lemma uc_run_rmws: "uc_run ops t = Some (fold apply_rmw (concat (map rmws_of ops)) t)"
  by (induction ops arbitrary: t) (simp_all add: uc_step_rmws)

interpretation uc_once: dump_once uc_step "uc_dump_stats os" uc_stats_written for os
  by unfold_locales
    (auto simp: uc_dump_stats_def Let_def dest: uc_step_frame split: if_splits bind_splits)

section \<open>Properties\<close>

text \<open>
  C1. For any metadata table that fits, the empty one included, and any sequence of recorded
  calls, recording never panics. With a non-empty table the dump writes exactly the statistics of
  the trace: instruction totals, category totals over the unsafe blocks, the number of distinct
  (unsafe) functions of the table that were entered, and the number of recorded calls to them.
  With the empty table it writes nothing. In both cases it is marked as written.
\<close>

theorem dump_reports_trace:
  assumes "length md \<le> MAX_FUNCTIONS"
  shows "\<exists>t. init_metadata md (of_nat (length md)) tracker_new \<bind> uc_run ops = Some t \<and>
    uc_dump_stats os t w = Some (t\<lparr>uc_stats_written := True\<rparr>,
      (if md = [] then w
       else snd (write_output os (format_uc_stats (spec_stats md ops)) ''unsafe_counter.stat'' w)))"
proof -
  let ?n = "of_nat (length md) :: u32"
  have n: "unat ?n = length md"
    using assms by (simp add: of_nat_checked MAX_FUNCTIONS_def)
  then have le: "?n \<le> of_nat MAX_FUNCTIONS"
    using assms by (simp add: word_le_nat_alt MAX_FUNCTIONS_def)
  define t0 where "t0 = tracker_new\<lparr>metadata_initialized := True,
      metadata := write_metadata 0 md (\<lambda>_. None), metadata_count := ?n\<rparr>"
  have init: "init_metadata md ?n tracker_new = Some t0"
    using leD [OF le] n by (simp add: init_metadata_def t0_def tracker_new_def Let_def)
  have "tracks [] t0"
    using tracks_new by (simp add: t0_def tracks_def instr_totals_def)
  then obtain t where t: "uc_run ops t0 = Some t" "tracks ops t"
    using tracks_run [of "[]" t0 ops] by auto
  from uc_run_frame [OF t(1)] have f: "metadata t = metadata t0" "metadata_count t = ?n"
      "metadata_initialized t" "\<not> uc_stats_written t"
    by (simp_all add: t0_def tracker_new_def)
  have "tracks ops (t\<lparr>uc_stats_written := True\<rparr>)"
    using t(2) by (simp add: tracks_def instr_totals_def)
  then have "collect_stats (t\<lparr>uc_stats_written := True\<rparr>) = Some (spec_stats md ops)"
    using assms by (rule collect_stats_spec) (simp_all add: f n t0_def write_metadata_eq)
  then show ?thesis
    using init t(1) f n by (auto simp: uc_dump_stats_def Let_def)
qed

theorem dump_reports_trace_witness:
  "(\<exists>t. init_metadata [] 0 tracker_new \<bind> uc_run [Fn 0] = Some t \<and>
    uc_dump_stats mem_os t (rt_new Map.empty) =
      Some (t\<lparr>uc_stats_written := True\<rparr>, rt_new Map.empty)) \<and>
   (\<exists>t. init_metadata [\<lparr>md_id = 0, has_unsafe_inst = 1, has_unsafe_regions = 0, md_padding = 0\<rparr>]
      1 tracker_new \<bind> uc_run [Fn 0, Fn 7, Fn 0] = Some t \<and>
    uc_dump_stats mem_os t (rt_new Map.empty) = Some (t\<lparr>uc_stats_written := True\<rparr>,
      snd (write_output mem_os
        (format_uc_stats \<lparr>st_total_insts = 0, st_unsafe_insts = 0, st_loads = 0, st_stores = 0,
           st_calls = 0, st_casts = 0, st_geps = 0, st_others = 0, st_unique = 1,
           st_unique_unsafe = 1, st_total_calls = 2, st_unsafe_calls = 2\<rparr>)
        ''unsafe_counter.stat'' (rt_new Map.empty))))"
  using dump_reports_trace [of "[]" "[Fn 0]" mem_os "rt_new Map.empty"]
    dump_reports_trace [of "[\<lparr>md_id = 0, has_unsafe_inst = 1, has_unsafe_regions = 0, md_padding = 0\<rparr>]"
      "[Fn 0, Fn 7, Fn 0]" mem_os "rt_new Map.empty"]
  by (simp add: MAX_FUNCTIONS_def spec_stats_def unsafe_blocks_def is_unsafe_fn_def Let_def
      del: set_filter)

text \<open>
  C16. Interleaving: whatever order the atomic operations of the recorded calls are executed
  in, by however many threads, the tracker ends in the state of the sequential run.
\<close>

theorem interleaving_invariant:
  assumes "mset trace = mset (concat (map rmws_of ops))"
  shows "uc_run ops t = Some (fold apply_rmw trace t)"
proof -
  have "fold apply_rmw trace = fold apply_rmw (concat (map rmws_of ops))"
    using assms by (intro fold_multiset_equiv) (auto simp: apply_rmw_commute)
  then show ?thesis by (simp add: uc_run_rmws)
qed

theorem interleaving_invariant_witness:
  "uc_run [Fn 3, Fn 5] tracker_new =
     Some (fold apply_rmw [Or_seen 5, Add_calls 3, Add_calls 5, Or_seen 3] tracker_new)"
  by (rule interleaving_invariant) (simp add: MAX_FUNCTIONS_def)

text \<open>
  The statistics file is written at most once: in any run of recording calls and dumps
  (the module destructor and the backup one), the file system after the run is the one the
  first dump left.
\<close>

theorem counter_written_once:
  assumes "run_events uc_step (uc_dump_stats os) (Dump # evs) t w = Some (t2, w2)"
  shows "\<exists>t1. uc_dump_stats os t w = Some (t1, w2)"
  using assms by (rule uc_once.run_after_dump)

theorem counter_written_once_witness:
  "\<exists>t1. uc_dump_stats mem_os tracker_new (rt_new Map.empty) = Some (t1, rt_new Map.empty)"
  by (rule counter_written_once [where evs = "[Step (Blk 0 \<lparr>blk_total = 4, blk_unsafe_total = 0,
        blk_load = 0, blk_store = 0, blk_call = 0, blk_cast = 0, blk_gep = 0, blk_other = 0\<rparr>), Dump]"
        and ?t2.0 = "tracker_new\<lparr>uc_stats_written := True, total_instructions := 4\<rparr>"])
    (simp add: uc_dump_stats_def tracker_new_def record_block_def)

text \<open>
  C38. A table with more entries than the tracker holds is rejected after the initialised flag
  is set: no later initialisation takes effect and the dump never writes anything.
\<close>

theorem oversized_table_silences:
  assumes "n > of_nat MAX_FUNCTIONS" and "\<not> metadata_initialized t" and "metadata_count t = 0"
  shows "\<exists>t'. init_metadata table n t = Some t' \<and> init_metadata table' n' t' = Some t' \<and>
    (\<forall>ops u. uc_run ops t' = Some u \<longrightarrow> (\<exists>u'. uc_dump_stats os u w = Some (u', w)))"
proof -
  have "\<exists>u'. uc_dump_stats os u w = Some (u', w)"
    if "uc_run ops (t\<lparr>metadata_initialized := True\<rparr>) = Some u" for ops u
    using uc_run_frame [OF that] assms by (auto simp: uc_dump_stats_def Let_def)
  then show ?thesis
    using assms by (auto simp: init_metadata_def)
qed

theorem oversized_table_silences_witness:
  "\<exists>t'. init_metadata [] 65537 tracker_new = Some t' \<and> init_metadata [] 0 t' = Some t' \<and>
    (\<forall>ops u. uc_run ops t' = Some u \<longrightarrow> (\<exists>u'. uc_dump_stats mem_os u (rt_new Map.empty) = Some (u', rt_new Map.empty)))"
  by (rule oversized_table_silences) (simp_all add: MAX_FUNCTIONS_def tracker_new_def)

end
