(* ===== verification/Ordered_Map.thy ===== *)
theory Ordered_Map
  imports Prelude
begin

text \<open>
  \<open>BTreeMap\<close> as the trackers use it: insertion (replacing the value of a present key),
  removal, and the last entry of the range \<open>..=k\<close>. The map is its entries in key order. The
  interface \<open>ordered_map\<close> says what a client sees through lookups, and proves once what the
  heap tracker needs of it: over disjoint blocks, the greatest base below an address decides
  which block holds the address.
\<close>

type_synonym ('k, 'v) btree_map = "('k \<times> 'v) list"

fun bt_insert :: "'k::linorder \<Rightarrow> 'v \<Rightarrow> ('k, 'v) btree_map \<Rightarrow> ('k, 'v) btree_map" where
  "bt_insert k v [] = [(k, v)]"
| "bt_insert k v ((k', v') # m) =
     (if k < k' then (k, v) # (k', v') # m
      else if k = k' then (k, v) # m
      else (k', v') # bt_insert k v m)"

fun bt_remove :: "'k::linorder \<Rightarrow> ('k, 'v) btree_map \<Rightarrow> ('k, 'v) btree_map" where
  "bt_remove k [] = []"
| "bt_remove k ((k', v') # m) = (if k = k' then m else (k', v') # bt_remove k m)"

text \<open>\<open>range(..=k).last()\<close>\<close>

definition bt_range_last :: "'k::linorder \<Rightarrow> ('k, 'v) btree_map \<Rightarrow> ('k \<times> 'v) option" where
  "bt_range_last k m =
     (let r = filter (\<lambda>(k', _). k' \<le> k) m in if r = [] then None else Some (last r))"

definition bt_sorted :: "('k::linorder, 'v) btree_map \<Rightarrow> bool" where
  "bt_sorted m \<longleftrightarrow> sorted_wrt (<) (map fst m)"

locale ordered_map =
  fixes om_empty :: 'm
    and om_insert :: "'k::linorder \<Rightarrow> 'v \<Rightarrow> 'm \<Rightarrow> 'm"
    and om_remove :: "'k \<Rightarrow> 'm \<Rightarrow> 'm"
    and om_range_last :: "'k \<Rightarrow> 'm \<Rightarrow> ('k \<times> 'v) option"
    and om_lookup :: "'m \<Rightarrow> 'k \<Rightarrow> 'v option"
    and om_inv :: "'m \<Rightarrow> bool"
  assumes inv_empty: "om_inv om_empty"
    and inv_insert: "om_inv m \<Longrightarrow> om_inv (om_insert k v m)"
    and inv_remove: "om_inv m \<Longrightarrow> om_inv (om_remove k m)"
    and lookup_empty: "om_lookup om_empty = Map.empty"
    and lookup_insert: "om_inv m \<Longrightarrow> om_lookup (om_insert k v m) = (om_lookup m)(k \<mapsto> v)"
    and lookup_remove: "om_inv m \<Longrightarrow> om_lookup (om_remove k m) = (om_lookup m)(k := None)"
    and range_last_Some: "om_inv m \<Longrightarrow> om_range_last k m = Some (a, v) \<longleftrightarrow>
          om_lookup m a = Some v \<and> a \<le> k \<and> (\<forall>b. om_lookup m b \<noteq> None \<longrightarrow> b \<le> k \<longrightarrow> b \<le> a)"
begin

text \<open>
  \<open>lo\<close> and \<open>hi\<close> give the ends of the block stored at a key. When blocks do not overlap,
  only the greatest key below \<open>k\<close> can hold \<open>k\<close>.
\<close>

lemma range_last_block:
  fixes lo hi :: "'k \<Rightarrow> nat"
  assumes inv: "om_inv m"
    and mono: "\<And>a b. a \<le> b \<longleftrightarrow> lo a \<le> lo b"
    and apart: "\<And>a b v. om_lookup m a = Some v \<Longrightarrow> om_lookup m b \<noteq> None \<Longrightarrow> a < b \<Longrightarrow>
      lo a + len v \<le> lo b"
  shows "(\<exists>v. om_range_last k m = Some (a, v) \<and> lo k < lo a + len v \<and> v = s) \<longleftrightarrow>
    om_lookup m a = Some s \<and> lo a \<le> lo k \<and> lo k < lo a + len s"
proof
  assume "om_lookup m a = Some s \<and> lo a \<le> lo k \<and> lo k < lo a + len s"
  then have a: "om_lookup m a = Some s" "a \<le> k" "lo k < lo a + len s"
    by (auto simp: mono)
  have "b \<le> a" if "om_lookup m b \<noteq> None" "b \<le> k" for b
  proof (rule ccontr)
    assume "\<not> b \<le> a"
    then have "lo a + len s \<le> lo b" using apart [OF a(1) that(1)] by simp
    moreover from that(2) have "lo b \<le> lo k" by (simp add: mono [symmetric])
    ultimately show False using a(3) by simp
  qed
  with a show "\<exists>v. om_range_last k m = Some (a, v) \<and> lo k < lo a + len v \<and> v = s"
    using range_last_Some [OF inv, of k a s] by blast
qed (use range_last_Some [OF inv] in \<open>auto simp: mono\<close>)

end

lemma bt_sorted_Nil: "bt_sorted []"
  by (simp add: bt_sorted_def)

lemma map_of_bt_insert: "bt_sorted m \<Longrightarrow> map_of (bt_insert k v m) = (map_of m)(k \<mapsto> v)"
  by (induction m rule: bt_insert.induct) (auto simp: bt_sorted_def fun_eq_iff)

lemma fst_bt_insert: "fst ` set (bt_insert k v m) = insert k (fst ` set m)"
  by (induction k v m rule: bt_insert.induct) auto

lemma bt_sorted_insert: "bt_sorted m \<Longrightarrow> bt_sorted (bt_insert k v m)"
proof (induction k v m rule: bt_insert.induct)
  case (2 k v k' v' m)
  then show ?case
    by (auto simp: bt_sorted_def fst_bt_insert simp flip: set_map)
      (auto simp: fst_bt_insert)
qed (simp add: bt_sorted_def)

lemma map_of_below: "\<forall>x\<in>set m. (k::'k::linorder) < fst x \<Longrightarrow> map_of m k = None"
  by (induction m) auto

lemma map_of_bt_remove: "bt_sorted m \<Longrightarrow> map_of (bt_remove k m) = (map_of m)(k := None)"
  by (induction k m rule: bt_remove.induct)
    (auto simp: bt_sorted_def fun_eq_iff map_of_below)

lemma set_bt_remove: "set (bt_remove k m) \<subseteq> set m"
  by (induction k m rule: bt_remove.induct) auto

lemma bt_sorted_remove: "bt_sorted m \<Longrightarrow> bt_sorted (bt_remove k m)"
  by (induction k m rule: bt_remove.induct)
    (use set_bt_remove in \<open>fastforce simp: bt_sorted_def\<close>)+

lemma map_of_sorted_mem: "bt_sorted m \<Longrightarrow> map_of m a = Some v \<longleftrightarrow> (a, v) \<in> set m"
  by (rule map_of_eq_Some_iff) (auto simp: bt_sorted_def strict_sorted_iff)

lemma last_sorted_max:
  "bt_sorted r \<Longrightarrow> r \<noteq> [] \<Longrightarrow> x \<in> set r \<Longrightarrow> fst x \<le> fst (last r)"
  by (induction r) (auto simp: bt_sorted_def intro: less_imp_le)

lemma bt_sorted_filter: "bt_sorted m \<Longrightarrow> bt_sorted (filter P m)"
  by (induction m) (auto simp: bt_sorted_def)

lemma bt_range_last_Some:
  assumes "bt_sorted m"
  shows "bt_range_last k m = Some (a, v) \<longleftrightarrow>
    map_of m a = Some v \<and> a \<le> k \<and> (\<forall>b. map_of m b \<noteq> None \<longrightarrow> b \<le> k \<longrightarrow> b \<le> a)"
proof -
  let ?r = "filter (\<lambda>(k', _). k' \<le> k) m"
  have sr: "bt_sorted ?r" using assms by (rule bt_sorted_filter)
  have mem: "x \<in> set ?r \<longleftrightarrow> x \<in> set m \<and> fst x \<le> k" for x by (cases x) auto
  show ?thesis
  proof
    assume "bt_range_last k m = Some (a, v)"
    then have l: "?r \<noteq> []" "last ?r = (a, v)" by (auto simp: bt_range_last_def Let_def split: if_splits)
    then have "(a, v) \<in> set ?r" by (metis last_in_set)
    moreover have "b \<le> a" if "map_of m b \<noteq> None" "b \<le> k" for b
    proof -
      from that(1) obtain y where "(b, y) \<in> set m" by (auto dest: map_of_SomeD)
      with that(2) have "(b, y) \<in> set ?r" by (simp add: mem)
      with last_sorted_max [OF sr l(1) this] l(2) show ?thesis by simp
    qed
    ultimately show "map_of m a = Some v \<and> a \<le> k \<and> (\<forall>b. map_of m b \<noteq> None \<longrightarrow> b \<le> k \<longrightarrow> b \<le> a)"
      using assms by (auto simp: mem map_of_sorted_mem)
  next
    assume r: "map_of m a = Some v \<and> a \<le> k \<and> (\<forall>b. map_of m b \<noteq> None \<longrightarrow> b \<le> k \<longrightarrow> b \<le> a)"
    then have av: "(a, v) \<in> set ?r" using assms by (auto simp: mem map_of_sorted_mem)
    then have ne: "?r \<noteq> []" by (metis empty_iff empty_set)
    obtain b y where l: "last ?r = (b, y)" by force
    with ne have by': "(b, y) \<in> set ?r" by (metis last_in_set)
    then have bm: "map_of m b = Some y" "b \<le> k" using assms by (auto simp: mem map_of_sorted_mem)
    have "a \<le> b" using last_sorted_max [OF sr ne av] l by simp
    moreover have "b \<le> a" using r bm by auto
    ultimately have "b = a" by simp
    with bm r have "(b, y) = (a, v)" by simp
    with ne l show "bt_range_last k m = Some (a, v)" by (simp add: bt_range_last_def Let_def)
  qed
qed

interpretation bt: ordered_map "[]" bt_insert bt_remove bt_range_last map_of bt_sorted
  by unfold_locales
    (simp_all add: bt_sorted_insert bt_sorted_remove map_of_bt_insert map_of_bt_remove
      bt_range_last_Some bt_sorted_Nil)

end
