(* ===== verification/Heap_Tracker.thy ===== *)
theory Heap_Tracker
  imports Runtime Ordered_Map
begin

text \<open>
  The heap tracker (\<open>unsafe_perf_source/src/heap_tracker.rs\<close>): a global allocator that
  forwards to the system allocator and keeps the live blocks, the blocks touched by unsafe
  code, size histograms and counters. The pointer the system allocator answers is an argument
  of the operation (null is 0). The state is the tracker and the thread-local
  \<open>SKIP_TRACKING\<close> flag of the running thread; counters are \<open>usize\<close> words and wrap as
  \<open>fetch_add\<close> and \<open>fetch_sub\<close> do.
\<close>

section \<open>State\<close>

definition OBJ_SIZE_NUM :: nat where
  "OBJ_SIZE_NUM = 14"

record heap_tracker =
  total_usage :: usize
  total_alloc :: usize
  total_realloc :: usize
  total_dealloc :: usize
  live_objs :: "(usize, usize) btree_map"
  total_unsafe_objs :: usize
  unsafe_mem :: usize
  live_unsafe_objs :: "usize set"
  total_mem_insts :: usize
  unsafe_load :: usize
  unsafe_store :: usize
  size_histogram :: "usize list"
  unsafe_size_histogram :: "usize list"
  skip_tracking :: bool

definition heap_tracker_new :: heap_tracker where
  "heap_tracker_new = \<lparr>total_usage = 0, total_alloc = 0, total_realloc = 0, total_dealloc = 0,
     live_objs = [], total_unsafe_objs = 0, unsafe_mem = 0, live_unsafe_objs = {},
     total_mem_insts = 0, unsafe_load = 0, unsafe_store = 0,
     size_histogram = replicate OBJ_SIZE_NUM 0,
     unsafe_size_histogram = replicate OBJ_SIZE_NUM 0, skip_tracking = False\<rparr>"

section \<open>Operations\<close>

definition insert_obj :: "usize \<Rightarrow> usize \<Rightarrow> heap_tracker \<Rightarrow> heap_tracker" where
  "insert_obj ptr sz s =
     (if skip_tracking s then s
      else let s = s\<lparr>skip_tracking := True\<rparr>;
               s = s\<lparr>live_objs := bt_insert ptr sz (live_objs s)\<rparr>
        in s\<lparr>skip_tracking := False\<rparr>)"

definition remove_obj :: "usize \<Rightarrow> heap_tracker \<Rightarrow> heap_tracker" where
  "remove_obj ptr s =
     (if skip_tracking s then s
      else let s = s\<lparr>skip_tracking := True\<rparr>;
               s = s\<lparr>live_objs := bt_remove ptr (live_objs s)\<rparr>;
               s = s\<lparr>live_unsafe_objs := live_unsafe_objs s - {ptr}\<rparr>
        in s\<lparr>skip_tracking := False\<rparr>)"

definition find_heap_obj :: "usize \<Rightarrow> heap_tracker \<Rightarrow> (usize \<times> usize) option \<times> heap_tracker" where
  "find_heap_obj ptr s =
     (if skip_tracking s then (None, s)
      else let s = s\<lparr>skip_tracking := True\<rparr>;
               addr = ptr;
               obj = (case bt_range_last addr (live_objs s) of
                        None \<Rightarrow> None
                      | Some (base_addr, sz) \<Rightarrow>
                          if addr < base_addr + sz then Some (base_addr, sz) else None)
        in (obj, s\<lparr>skip_tracking := False\<rparr>))"

text \<open>The loop over the size classes: the first \<open>i\<close> with \<open>sz <= (1 << i) * (1 << 10)\<close>.\<close>

function size_class :: "nat \<Rightarrow> usize \<Rightarrow> nat" where
  "size_class i sz =
     (if i < OBJ_SIZE_NUM - 1
      then if sz \<le> push_bit i 1 * push_bit 10 1 then i else size_class (Suc i) sz
      else OBJ_SIZE_NUM - 1)"
  by pat_completeness auto
termination
  by (relation "measure (\<lambda>(i, _). OBJ_SIZE_NUM - i)") auto

declare size_class.simps [simp del]

definition classify_obj_by_size :: "usize \<Rightarrow> bool \<Rightarrow> heap_tracker \<Rightarrow> heap_tracker" where
  "classify_obj_by_size sz is_unsafe s =
     (let i = size_class 0 sz in
      if is_unsafe
      then s\<lparr>unsafe_size_histogram := (unsafe_size_histogram s)[i := unsafe_size_histogram s ! i + 1]\<rparr>
      else s\<lparr>size_histogram := (size_histogram s)[i := size_histogram s ! i + 1]\<rparr>)"

definition access_heap_obj :: "usize \<Rightarrow> heap_tracker \<Rightarrow> heap_tracker" where
  "access_heap_obj ptr s =
     (case find_heap_obj ptr s of
        (None, s) \<Rightarrow> s
      | (Some _, s) \<Rightarrow> s\<lparr>total_mem_insts := total_mem_insts s + 1\<rparr>)"

definition access_unsafe_heap_obj :: "usize \<Rightarrow> bool \<Rightarrow> heap_tracker \<Rightarrow> heap_tracker" where
  "access_unsafe_heap_obj ptr is_load s =
     (case find_heap_obj ptr s of
        (None, s) \<Rightarrow> s
      | (Some (base_addr, sz), s) \<Rightarrow>
          if skip_tracking s then s
          else let s = s\<lparr>skip_tracking := True\<rparr>;
                   s = (if base_addr \<notin> live_unsafe_objs s
                        then classify_obj_by_size sz True
                          (s\<lparr>live_unsafe_objs := insert base_addr (live_unsafe_objs s),
                             unsafe_mem := unsafe_mem s + sz,
                             total_unsafe_objs := total_unsafe_objs s + 1\<rparr>)
                        else s);
                   s = (if is_load then s\<lparr>unsafe_load := unsafe_load s + 1\<rparr>
                        else s\<lparr>unsafe_store := unsafe_store s + 1\<rparr>)
            in s\<lparr>skip_tracking := False\<rparr>)"

text \<open>
  The \<open>GlobalAlloc\<close> methods. \<open>ptr\<close> (for \<open>alloc\<close>) and \<open>new_ptr\<close> (for \<open>realloc\<close>) are
  the answers of the system allocator; the result is the pointer handed to the program.
\<close>

definition ht_alloc :: "usize \<Rightarrow> usize \<Rightarrow> heap_tracker \<Rightarrow> usize \<times> heap_tracker" where
  "ht_alloc ptr sz s =
     (ptr,
      if ptr \<noteq> 0 \<and> \<not> skip_tracking s
      then insert_obj ptr sz
             (classify_obj_by_size sz False
               (s\<lparr>total_usage := total_usage s + sz, total_alloc := total_alloc s + 1\<rparr>))
      else s)"

definition ht_alloc_zeroed :: "usize \<Rightarrow> usize \<Rightarrow> heap_tracker \<Rightarrow> usize \<times> heap_tracker" where
  "ht_alloc_zeroed ptr sz s =
     (ptr,
      if ptr \<noteq> 0 \<and> \<not> skip_tracking s
      then insert_obj ptr sz
             (classify_obj_by_size sz False
               (s\<lparr>total_usage := total_usage s + sz, total_alloc := total_alloc s + 1\<rparr>))
      else s)"

definition ht_dealloc :: "usize \<Rightarrow> heap_tracker \<Rightarrow> heap_tracker" where
  "ht_dealloc ptr s =
     (if \<not> skip_tracking s
      then remove_obj ptr (s\<lparr>total_dealloc := total_dealloc s + 1\<rparr>)
      else s)"

definition ht_realloc ::
  "usize \<Rightarrow> usize \<Rightarrow> usize \<Rightarrow> usize \<Rightarrow> heap_tracker \<Rightarrow> usize \<times> heap_tracker" where
  "ht_realloc ptr old_size new_ptr new_size s =
     (if new_ptr = 0 then (new_ptr, s)
      else let s = (if \<not> skip_tracking s
                    then let s = (if new_ptr \<noteq> ptr
                                  then let s = remove_obj ptr s;
                                           s = s\<lparr>total_realloc := total_realloc s + 1\<rparr>
                                    in classify_obj_by_size new_size False s
                                  else s)
                      in insert_obj new_ptr new_size s
                    else s);
               s = (if new_size > old_size
                    then s\<lparr>total_usage := total_usage s + (new_size - old_size)\<rparr>
                    else s\<lparr>total_usage := total_usage s - (old_size - new_size)\<rparr>)
        in (new_ptr, s))"

section \<open>Output\<close>

fun join_semi :: "string list \<Rightarrow> string" where
  "join_semi [] = []"
| "join_semi [x] = x"
| "join_semi (x # y # xs) = x @ ''; '' @ join_semi (y # xs)"

definition size_hisogram_to_str :: "usize list \<Rightarrow> string" where
  "size_hisogram_to_str h = join_semi (map show_word h)"

definition format_heap_stats :: "heap_tracker \<Rightarrow> string" where
  "format_heap_stats s =
     ''\<newline>===== Heap Usage Statistics =====\<newline>'' @
     ''Total heap usage: '' @ show_word (total_usage s) @ '' bytes\<newline>'' @
     ''Total heap allocations: '' @ show_word (total_alloc s) @ ''\<newline>'' @
     ''Total heap re-allocations: '' @ show_word (total_realloc s) @ ''\<newline>'' @
     ''Total heap deallocations: '' @ show_word (total_dealloc s) @ ''\<newline>'' @
     ''Unsafe heap memory: '' @ show_word (unsafe_mem s) @ ''\<newline>'' @
     ''Unsafe heap objects: '' @ show_word (total_unsafe_objs s) @ ''\<newline>'' @
     ''Unsafe memory instructions: '' @ show_word (total_mem_insts s) @ ''\<newline>'' @
     ''Unsafe load: '' @ show_word (unsafe_load s) @ ''\<newline>'' @
     ''Unsafe store: '' @ show_word (unsafe_store s) @ ''\<newline>'' @
     ''Size histogram: '' @ size_hisogram_to_str (size_histogram s) @ ''\<newline>'' @
     ''Unsafe size histogram: '' @ size_hisogram_to_str (unsafe_size_histogram s) @ ''\<newline>''"

text \<open>The dump sets the flag and leaves it set.\<close>

definition ht_dump_stats ::
  "'fs os_calls \<Rightarrow> heap_tracker \<Rightarrow> 'fs rt \<Rightarrow> heap_tracker \<times> 'fs rt" where
  "ht_dump_stats os s w =
     (s\<lparr>skip_tracking := True\<rparr>,
      snd (write_output os (format_heap_stats s) ''heap_stat.stat'' w))"

section \<open>Size classes\<close>

lemma size_limit: "i < 13 \<Longrightarrow> unat (2 ^ i * 1024 :: usize) = 2 ^ i * 1024"
proof -
  assume "i < 13"
  then have "i \<in> set [0..<13]" by simp
  then show ?thesis by (simp add: upt_rec) (elim disjE; simp)
qed

lemma size_class_le: "i \<le> 13 \<Longrightarrow> i \<le> size_class i sz \<and> size_class i sz \<le> 13"
proof (induction i sz rule: size_class.induct)
  case (1 i sz)
  then show ?case
    by (subst size_class.simps, subst size_class.simps) (auto simp: OBJ_SIZE_NUM_def)
qed

lemma size_class_upper:
  "i \<le> 13 \<Longrightarrow> size_class i sz < 13 \<Longrightarrow> unat sz \<le> 2 ^ size_class i sz * 1024"
proof (induction i sz rule: size_class.induct)
  case (1 i sz)
  then show ?case
    by (subst size_class.simps, subst (asm) (2) size_class.simps)
      (auto simp: OBJ_SIZE_NUM_def word_le_nat_alt size_limit split: if_splits)
qed

lemma size_class_lower:
  "i \<le> 13 \<Longrightarrow> i \<le> j \<Longrightarrow> j < size_class i sz \<Longrightarrow> 2 ^ j * 1024 < unat sz"
proof (induction i sz rule: size_class.induct)
  case (1 i sz)
  show ?case
  proof (cases "i < 13 \<and> \<not> sz \<le> push_bit i 1 * push_bit 10 1")
    case True
    then have c: "size_class i sz = size_class (Suc i) sz" and g: "2 ^ i * 1024 < unat sz"
      by (auto simp: size_class.simps [of i sz] OBJ_SIZE_NUM_def word_le_nat_alt size_limit)
    show ?thesis
    proof (cases "j = i")
      case False
      with 1 True c show ?thesis by (simp add: OBJ_SIZE_NUM_def)
    qed (use g in simp)
  next
    case False
    with 1 show ?thesis
      by (auto simp: size_class.simps [of i sz] OBJ_SIZE_NUM_def split: if_splits)
  qed
qed

section \<open>Traces under the allocator's contract\<close>

text \<open>
  The calls of a thread that is not itself tracking, with the system allocator's answers, and
  the blocks that are live after them. The contract of the system allocator: a new block does
  not wrap around the address space and overlaps no live block; only live blocks are freed or
  resized.
\<close>

datatype heap_ev =
  Alloc usize usize
| Alloc_zeroed usize usize
| Dealloc usize
| Realloc usize usize usize usize
| Access usize
| Unsafe_access usize bool

fun ht_step :: "heap_ev \<Rightarrow> heap_tracker \<Rightarrow> heap_tracker" where
  "ht_step (Alloc p sz) s = snd (ht_alloc p sz s)"
| "ht_step (Alloc_zeroed p sz) s = snd (ht_alloc_zeroed p sz s)"
| "ht_step (Dealloc p) s = ht_dealloc p s"
| "ht_step (Realloc p old q new) s = snd (ht_realloc p old q new s)"
| "ht_step (Access p) s = access_heap_obj p s"
| "ht_step (Unsafe_access p is_load) s = access_unsafe_heap_obj p is_load s"

fun live_step :: "heap_ev \<Rightarrow> (usize \<rightharpoonup> usize) \<Rightarrow> (usize \<rightharpoonup> usize)" where
  "live_step (Alloc p sz) m = (if p = 0 then m else m(p \<mapsto> sz))"
| "live_step (Alloc_zeroed p sz) m = (if p = 0 then m else m(p \<mapsto> sz))"
| "live_step (Dealloc p) m = m(p := None)"
| "live_step (Realloc p old q new) m = (if q = 0 then m else m(p := None, q \<mapsto> new))"
| "live_step _ m = m"

definition block_free :: "(usize \<rightharpoonup> usize) \<Rightarrow> usize \<Rightarrow> usize \<Rightarrow> bool" where
  "block_free m p sz \<longleftrightarrow> unat p + unat sz < 2 ^ 64 \<and>
     (\<forall>a v. m a = Some v \<longrightarrow> a \<noteq> p \<and>
        (unat p + unat sz \<le> unat a \<or> unat a + unat v \<le> unat p))"

fun ev_ok :: "heap_ev \<Rightarrow> (usize \<rightharpoonup> usize) \<Rightarrow> bool" where
  "ev_ok (Alloc p sz) m \<longleftrightarrow> p = 0 \<or> block_free m p sz"
| "ev_ok (Alloc_zeroed p sz) m \<longleftrightarrow> p = 0 \<or> block_free m p sz"
| "ev_ok (Dealloc p) m \<longleftrightarrow> m p \<noteq> None"
| "ev_ok (Realloc p old q new) m \<longleftrightarrow> m p = Some old \<and> (q = 0 \<or> block_free (m(p := None)) q new)"
| "ev_ok _ m \<longleftrightarrow> True"

fun trace_ok :: "heap_ev list \<Rightarrow> (usize \<rightharpoonup> usize) \<Rightarrow> bool" where
  "trace_ok [] m \<longleftrightarrow> True"
| "trace_ok (e # evs) m \<longleftrightarrow> ev_ok e m \<and> trace_ok evs (live_step e m)"

definition blocks_ok :: "(usize \<rightharpoonup> usize) \<Rightarrow> bool" where
  "blocks_ok m \<longleftrightarrow> (\<forall>a v. m a = Some v \<longrightarrow> unat a + unat v < 2 ^ 64 \<and>
     (\<forall>b. m b \<noteq> None \<longrightarrow> a < b \<longrightarrow> unat a + unat v \<le> unat b))"

definition holds_addr :: "(usize \<rightharpoonup> usize) \<Rightarrow> usize \<Rightarrow> usize \<Rightarrow> usize \<Rightarrow> bool" where
  "holds_addr m addr a sz \<longleftrightarrow> m a = Some sz \<and> unat a \<le> unat addr \<and> unat addr < unat a + unat sz"

section \<open>The tracker's invariant\<close>

definition heap_inv :: "(usize \<rightharpoonup> usize) \<Rightarrow> heap_tracker \<Rightarrow> bool" where
  "heap_inv m s \<longleftrightarrow> \<not> skip_tracking s \<and> bt_sorted (live_objs s) \<and> map_of (live_objs s) = m \<and>
     blocks_ok m \<and> live_unsafe_objs s \<subseteq> dom m \<and>
     length (size_histogram s) = OBJ_SIZE_NUM \<and> length (unsafe_size_histogram s) = OBJ_SIZE_NUM \<and>
     sum_list (size_histogram s) = total_alloc s + total_realloc s \<and>
     sum_list (unsafe_size_histogram s) = total_unsafe_objs s"

lemma sum_list_bump:
  "i < length xs \<Longrightarrow> sum_list (xs[i := xs ! i + d]) = sum_list xs + (d :: 'a::comm_ring_1)"
  by (induction xs arbitrary: i) (auto simp: algebra_simps split: nat.split)

lemma skip_reset [simp]: "\<not> skip_tracking s \<Longrightarrow> s\<lparr>skip_tracking := False\<rparr> = s"
  by (cases s) simp

lemma size_class_index [simp]: "size_class 0 sz < OBJ_SIZE_NUM"
  using size_class_le [of 0 sz] by (simp add: OBJ_SIZE_NUM_def)

lemma insert_obj_eq:
  "\<not> skip_tracking s \<Longrightarrow> insert_obj p sz s = s\<lparr>live_objs := bt_insert p sz (live_objs s)\<rparr>"
  by (cases s) (simp add: insert_obj_def)

lemma remove_obj_eq:
  "\<not> skip_tracking s \<Longrightarrow> remove_obj p s = s\<lparr>live_objs := bt_remove p (live_objs s),
     live_unsafe_objs := live_unsafe_objs s - {p}\<rparr>"
  by (cases s) (simp add: remove_obj_def)

lemma find_heap_obj_state [simp]: "snd (find_heap_obj p s) = s"
  by (cases s) (simp add: find_heap_obj_def Let_def)

lemma find_heap_obj_map:
  assumes sk: "\<not> skip_tracking s" and inv: "bt_sorted (live_objs s)"
    and m: "map_of (live_objs s) = m" and ok: "blocks_ok m"
  shows "fst (find_heap_obj p s) = Some (a, sz) \<longleftrightarrow> holds_addr m p a sz"
proof -
  have nowrap: "p < b + v \<longleftrightarrow> unat p < unat b + unat v"
    if "bt_range_last p (live_objs s) = Some (b, v)" for b v
  proof -
    have "m b = Some v" using that bt.range_last_Some [OF inv] m by auto
    with ok have "unat b + unat v < 2 ^ 64" by (auto simp: blocks_ok_def)
    then show ?thesis by (simp add: word_less_nat_alt unat_add_exact)
  qed
  have "fst (find_heap_obj p s) = Some (a, sz) \<longleftrightarrow>
      (\<exists>v. bt_range_last p (live_objs s) = Some (a, v) \<and> unat p < unat a + unat v \<and> v = sz)"
    using sk by (auto simp: find_heap_obj_def Let_def nowrap split: option.splits if_splits)
  also have "\<dots> \<longleftrightarrow> map_of (live_objs s) a = Some sz \<and> unat a \<le> unat p \<and> unat p < unat a + unat sz"
    using ok m by (intro bt.range_last_block [OF inv]) (auto simp: word_le_nat_alt blocks_ok_def)
  finally show ?thesis by (simp add: m holds_addr_def)
qed

lemma find_heap_obj_iff:
  "heap_inv m s \<Longrightarrow> fst (find_heap_obj p s) = Some (a, sz) \<longleftrightarrow> holds_addr m p a sz"
  by (rule find_heap_obj_map) (simp_all add: heap_inv_def)

lemma find_heap_obj_cases:
  assumes "heap_inv m s"
  obtains (miss) "find_heap_obj p s = (None, s)" "\<nexists>a sz. holds_addr m p a sz"
  | (hit) a sz where "find_heap_obj p s = (Some (a, sz), s)" "holds_addr m p a sz"
  using find_heap_obj_iff [OF assms] find_heap_obj_state [of p s]
  by (metis option.exhaust prod.collapse prod.exhaust)

lemma blocks_ok_insert:
  assumes "blocks_ok m" and "block_free m p sz"
  shows "blocks_ok (m(p \<mapsto> sz))"
proof -
  have "unat a + unat v \<le> unat b"
    if "(m(p \<mapsto> sz)) a = Some v" "(m(p \<mapsto> sz)) b \<noteq> None" "a < b" for a b v
  proof -
    have lt: "unat a < unat b" using that(3) by (simp add: word_less_nat_alt)
    consider "a = p" | "b = p" "a \<noteq> p" | "a \<noteq> p" "b \<noteq> p" by blast
    then show ?thesis
    proof cases
      case 1
      with that obtain y where "m b = Some y" by (auto split: if_splits)
      with assms(2) 1 that(1) lt show ?thesis by (fastforce simp: block_free_def)
    next
      case 2
      with that assms(2) lt show ?thesis by (fastforce simp: block_free_def)
    next
      case 3
      with that assms(1) show ?thesis by (auto simp: blocks_ok_def)
    qed
  qed
  with assms show ?thesis by (auto simp: blocks_ok_def block_free_def)
qed

lemma blocks_ok_delete: "blocks_ok m \<Longrightarrow> blocks_ok (m(p := None))"
  by (auto simp: blocks_ok_def)

lemma heap_inv_new: "heap_inv Map.empty heap_tracker_new"
  by (simp add: heap_inv_def heap_tracker_new_def bt_sorted_Nil blocks_ok_def sum_list_replicate)

lemma heap_inv_classify [simp]:
  "skip_tracking (classify_obj_by_size sz u s) = skip_tracking s"
  "live_objs (classify_obj_by_size sz u s) = live_objs s"
  "live_unsafe_objs (classify_obj_by_size sz u s) = live_unsafe_objs s"
  "total_alloc (classify_obj_by_size sz u s) = total_alloc s"
  "total_realloc (classify_obj_by_size sz u s) = total_realloc s"
  "total_dealloc (classify_obj_by_size sz u s) = total_dealloc s"
  "total_usage (classify_obj_by_size sz u s) = total_usage s"
  "total_unsafe_objs (classify_obj_by_size sz u s) = total_unsafe_objs s"
  "unsafe_load (classify_obj_by_size sz u s) = unsafe_load s"
  "unsafe_store (classify_obj_by_size sz u s) = unsafe_store s"
  "total_mem_insts (classify_obj_by_size sz u s) = total_mem_insts s"
  by (simp_all add: classify_obj_by_size_def Let_def)

lemma classify_lengths [simp]:
  "length (size_histogram (classify_obj_by_size sz u s)) = length (size_histogram s)"
  "length (unsafe_size_histogram (classify_obj_by_size sz u s)) = length (unsafe_size_histogram s)"
  by (simp_all add: classify_obj_by_size_def Let_def)

lemma classify_sums [simp]:
  "length (size_histogram s) = OBJ_SIZE_NUM \<Longrightarrow>
   sum_list (size_histogram (classify_obj_by_size sz u s)) =
     sum_list (size_histogram s) + (if u then 0 else 1)"
  "length (unsafe_size_histogram s) = OBJ_SIZE_NUM \<Longrightarrow>
   sum_list (unsafe_size_histogram (classify_obj_by_size sz u s)) =
     sum_list (unsafe_size_histogram s) + (if u then 1 else 0)"
  by (simp_all add: classify_obj_by_size_def Let_def sum_list_bump)

lemma heap_inv_step:
  assumes "heap_inv m s" and "ev_ok e m"
  shows "heap_inv (live_step e m) (ht_step e s)"
proof (cases e)
  case (Alloc p sz)
  with assms show ?thesis
    by (auto simp: ht_alloc_def heap_inv_def insert_obj_eq bt.inv_insert bt.lookup_insert
        blocks_ok_insert algebra_simps)
next
  case (Alloc_zeroed p sz)
  with assms show ?thesis
    by (auto simp: ht_alloc_zeroed_def heap_inv_def insert_obj_eq bt.inv_insert bt.lookup_insert
        blocks_ok_insert algebra_simps)
next
  case (Dealloc p)
  with assms show ?thesis
    by (auto simp: ht_dealloc_def heap_inv_def remove_obj_eq bt.inv_remove bt.lookup_remove
        blocks_ok_delete)
next
  case (Realloc p old q new)
  have "blocks_ok (m(p := None, q \<mapsto> new))" if "q \<noteq> 0"
    using assms Realloc that by (auto simp: heap_inv_def blocks_ok_insert blocks_ok_delete)
  with assms Realloc show ?thesis
    by (auto simp: ht_realloc_def heap_inv_def Let_def insert_obj_eq remove_obj_eq bt.inv_insert
        bt.lookup_insert bt.inv_remove bt.lookup_remove algebra_simps)
next
  case (Access p)
  from assms(1) show ?thesis
    by (cases rule: find_heap_obj_cases [where p = p])
      (use assms(1) Access in \<open>auto simp: access_heap_obj_def heap_inv_def\<close>)
next
  case (Unsafe_access p l)
  from assms(1) show ?thesis
  proof (cases rule: find_heap_obj_cases [where p = p])
    case miss
    with assms(1) Unsafe_access show ?thesis by (simp add: access_unsafe_heap_obj_def)
  next
    case (hit a sz)
    then have "a \<in> dom m" by (auto simp: holds_addr_def)
    with assms(1) Unsafe_access hit show ?thesis
      by (auto simp: access_unsafe_heap_obj_def heap_inv_def Let_def)
  qed
qed

lemma heap_inv_run:
  "heap_inv m s \<Longrightarrow> trace_ok evs m \<Longrightarrow>
   heap_inv (fold live_step evs m) (fold ht_step evs s)"
  by (induction evs arbitrary: m s) (auto intro: heap_inv_step)

section \<open>What the counters count\<close>

fun ev_usage :: "heap_ev \<Rightarrow> usize" where
  "ev_usage (Alloc p sz) = (if p = 0 then 0 else sz)"
| "ev_usage (Alloc_zeroed p sz) = (if p = 0 then 0 else sz)"
| "ev_usage (Realloc p old q new) = (if q = 0 then 0 else new - old)"
| "ev_usage _ = 0"

fun is_alloc :: "heap_ev \<Rightarrow> bool" where
  "is_alloc (Alloc p sz) \<longleftrightarrow> p \<noteq> 0"
| "is_alloc (Alloc_zeroed p sz) \<longleftrightarrow> p \<noteq> 0"
| "is_alloc _ \<longleftrightarrow> False"

fun is_dealloc :: "heap_ev \<Rightarrow> bool" where
  "is_dealloc (Dealloc p) \<longleftrightarrow> True"
| "is_dealloc _ \<longleftrightarrow> False"

fun is_moving_realloc :: "heap_ev \<Rightarrow> bool" where
  "is_moving_realloc (Realloc p old q new) \<longleftrightarrow> q \<noteq> 0 \<and> q \<noteq> p"
| "is_moving_realloc _ \<longleftrightarrow> False"

definition heap_counts :: "heap_tracker \<Rightarrow> usize list" where
  "heap_counts s = [total_usage s, total_alloc s, total_dealloc s, total_realloc s]"

definition spec_counts :: "heap_ev list \<Rightarrow> usize list" where
  "spec_counts evs = [(\<Sum>e\<leftarrow>evs. ev_usage e), of_nat (length (filter is_alloc evs)),
     of_nat (length (filter is_dealloc evs)), of_nat (length (filter is_moving_realloc evs))]"

lemma heap_counts_eq: "heap_counts s = [a, b, c, d] \<longleftrightarrow>
    total_usage s = a \<and> total_alloc s = b \<and> total_dealloc s = c \<and> total_realloc s = d"
  by (simp add: heap_counts_def)

lemma insert_remove_counts [simp]:
  "heap_counts (insert_obj p sz s) = heap_counts s"
  "heap_counts (remove_obj p s) = heap_counts s"
  by (simp_all add: heap_counts_def insert_obj_def remove_obj_def Let_def)

lemma insert_remove_skip [simp]:
  "skip_tracking (insert_obj p sz s) = skip_tracking s"
  "skip_tracking (remove_obj p s) = skip_tracking s"
  by (simp_all add: insert_obj_def remove_obj_def Let_def)

lemma insert_remove_fields [simp]:
  "total_usage (insert_obj p sz s) = total_usage s" "total_alloc (insert_obj p sz s) = total_alloc s"
  "total_dealloc (insert_obj p sz s) = total_dealloc s"
  "total_realloc (insert_obj p sz s) = total_realloc s"
  "total_usage (remove_obj p s) = total_usage s" "total_alloc (remove_obj p s) = total_alloc s"
  "total_dealloc (remove_obj p s) = total_dealloc s"
  "total_realloc (remove_obj p s) = total_realloc s"
  by (simp_all add: insert_obj_def remove_obj_def Let_def)

lemma access_fields [simp]:
  "heap_counts (access_heap_obj p s) = heap_counts s"
  "heap_counts (access_unsafe_heap_obj p l s) = heap_counts s"
  by (simp_all add: access_heap_obj_def access_unsafe_heap_obj_def heap_counts_def
      find_heap_obj_def Let_def split: prod.splits option.splits)

lemma ht_step_counts:
  assumes "\<not> skip_tracking s" and "heap_counts s = spec_counts pre"
  shows "heap_counts (ht_step e s) = spec_counts (pre @ [e])"
proof (cases e)
  case (Access p)
  with assms show ?thesis by (simp add: spec_counts_def)
next
  case (Unsafe_access p l)
  with assms show ?thesis by (simp add: spec_counts_def)
qed (use assms in \<open>auto simp: spec_counts_def heap_counts_eq ht_alloc_def ht_alloc_zeroed_def
       ht_dealloc_def ht_realloc_def Let_def\<close>)

lemma heap_counts_run:
  "heap_inv m s \<Longrightarrow> trace_ok evs m \<Longrightarrow> heap_counts s = spec_counts pre \<Longrightarrow>
   heap_counts (fold ht_step evs s) = spec_counts (pre @ evs)"
proof (induction evs arbitrary: m s pre)
  case (Cons e evs)
  then have "heap_inv (live_step e m) (ht_step e s)"
    by (auto intro: heap_inv_step)
  moreover from Cons.prems(1) have "\<not> skip_tracking s" by (simp add: heap_inv_def)
  ultimately show ?case
    using Cons.IH [of "live_step e m" "ht_step e s" "pre @ [e]"] Cons.prems
    by (auto simp: ht_step_counts)
qed simp

section \<open>Properties\<close>

text \<open>
  C6. Under the system allocator's contract the tracker's map is the live heap: looking an
  address up returns a block exactly when that block is live and holds the address.
\<close>

theorem live_blocks_exact:
  assumes "trace_ok evs Map.empty"
  shows "fst (find_heap_obj addr (fold ht_step evs heap_tracker_new)) = Some (a, sz) \<longleftrightarrow>
    holds_addr (fold live_step evs Map.empty) addr a sz"
  using heap_inv_run [OF heap_inv_new assms] by (rule find_heap_obj_iff)

theorem live_blocks_exact_witness:
  "fst (find_heap_obj 4100 (fold ht_step [Alloc 4096 64, Alloc 8192 16, Realloc 4096 64 12288 128,
      Alloc 4096 8] heap_tracker_new)) = Some (4096, 8) \<longleftrightarrow>
   holds_addr (fold live_step [Alloc 4096 64, Alloc 8192 16, Realloc 4096 64 12288 128,
      Alloc 4096 8] Map.empty) 4100 4096 8"
  by (rule live_blocks_exact) (auto simp: block_free_def split: if_splits)

text \<open>
  C20. The histograms balance the counters: every counted allocation and every moving
  reallocation is in one size class, every unsafe object is in one class of the unsafe
  histogram, and the objects marked unsafe are live.
\<close>

theorem histograms_balance:
  assumes "trace_ok evs Map.empty"
  shows "let s = fold ht_step evs heap_tracker_new in
    sum_list (size_histogram s) = total_alloc s + total_realloc s \<and>
    sum_list (unsafe_size_histogram s) = total_unsafe_objs s \<and>
    live_unsafe_objs s \<subseteq> dom (fold live_step evs Map.empty)"
  using heap_inv_run [OF heap_inv_new assms] by (simp add: heap_inv_def Let_def)

theorem histograms_balance_witness:
  "let s = fold ht_step [Alloc 4096 64, Unsafe_access 4100 True, Dealloc 4096] heap_tracker_new in
    sum_list (size_histogram s) = total_alloc s + total_realloc s \<and>
    sum_list (unsafe_size_histogram s) = total_unsafe_objs s \<and>
    live_unsafe_objs s \<subseteq> dom (fold live_step [Alloc 4096 64, Unsafe_access 4100 True, Dealloc 4096] Map.empty)"
  by (rule histograms_balance) (simp add: block_free_def)

text \<open>
  The size classes are the documented ones: the class of a size is the number of limits
  1 KB, 2 KB, ..., 4 MB that it exceeds.
\<close>

theorem size_class_counts_limits:
  "size_class 0 sz = length (filter (\<lambda>j. 2 ^ j * 1024 < unat sz) [0..<13])"
proof -
  let ?c = "size_class 0 sz"
  have c: "?c \<le> 13" using size_class_le [of 0 sz] by simp
  have "(2 ^ j * 1024 < unat sz) = (j < ?c)" if "j < 13" for j
  proof (cases "j < ?c")
    case True
    then show ?thesis using size_class_lower [of 0 j sz] by simp
  next
    case False
    then have "?c < 13" using that by simp
    then have "unat sz \<le> 2 ^ ?c * 1024" using size_class_upper [of 0 sz] by simp
    also have "\<dots> \<le> 2 ^ j * 1024" using False by simp
    finally show ?thesis using False by simp
  qed
  then have "filter (\<lambda>j. 2 ^ j * 1024 < unat sz) [0..<13] = filter (\<lambda>j. j < ?c) [0..<13]"
    by (intro filter_cong) auto
  also have "\<dots> = [0..<?c]"
    using c by (simp add: filter_upt_less)
  finally show ?thesis by simp
qed

text \<open>
  C29. The counters of a run: usage is the sum of the sizes allocated and of the differences
  reallocated (freeing subtracts nothing), allocations count the successful calls of \<open>alloc\<close> and of
  \<open>alloc_zeroed\<close> and no reallocation, deallocations count the calls of \<open>dealloc\<close>, and
  reallocations count the successful moving ones only.
\<close>

theorem counters_of_trace:
  assumes "trace_ok evs Map.empty"
  shows "heap_counts (fold ht_step evs heap_tracker_new) = spec_counts evs"
  using heap_counts_run [OF heap_inv_new assms, of "[]"]
  by (simp add: heap_counts_def spec_counts_def heap_tracker_new_def)

theorem counters_of_trace_witness:
  "heap_counts (fold ht_step [Alloc 4096 64, Realloc 4096 64 4096 32, Realloc 4096 32 8192 100,
      Dealloc 8192] heap_tracker_new) = [100, 1, 1, 1]"
  using counters_of_trace [of "[Alloc 4096 64, Realloc 4096 64 4096 32, Realloc 4096 32 8192 100,
      Dealloc 8192]"]
  by (simp add: block_free_def spec_counts_def)

text \<open>
  C39. While tracking is suspended, \<open>alloc\<close>, \<open>alloc_zeroed\<close>, \<open>dealloc\<close>, a failed \<open>realloc\<close> and both
  access hooks leave the whole tracker as it is. A successful \<open>realloc\<close> changes exactly one thing,
  which it should not: the difference of the sizes is added to the total usage, so that bytes
  enter (or leave) the total for blocks whose allocation was never counted.
\<close>

theorem suspended_realloc_counts:
  assumes "skip_tracking s"
  shows "ht_alloc p sz s = (p, s) \<and> ht_alloc_zeroed p sz s = (p, s) \<and> ht_dealloc p s = s \<and>
    access_heap_obj p s = s \<and> access_unsafe_heap_obj p l s = s \<and> ht_realloc p old 0 new s = (0, s) \<and>
    (q \<noteq> 0 \<longrightarrow>
      ht_realloc p old q new s = (q, s\<lparr>total_usage := total_usage s + new - old\<rparr>))"
  using assms
  by (auto simp: ht_alloc_def ht_alloc_zeroed_def ht_dealloc_def access_heap_obj_def
      access_unsafe_heap_obj_def find_heap_obj_def ht_realloc_def Let_def)

theorem suspended_realloc_counts_witness:
  "total_usage (snd (ht_realloc 4096 64 8192 16 (heap_tracker_new\<lparr>skip_tracking := True\<rparr>))) =
    18446744073709551568"
  using suspended_realloc_counts [of "heap_tracker_new\<lparr>skip_tracking := True\<rparr>" 4096 0 True 64 16 8192]
  by (simp add: heap_tracker_new_def)

end
