(* ===== verification/Heap_Threads.thy ===== *)
theory Heap_Threads
  imports Heap_Tracker
begin

text \<open>
  The heap tracker under several threads (\<open>heap_tracker.rs\<close>). A method of the allocator is not
  one step: the call of the system allocator, and each update of the map under its mutex, are
  steps of their own, and other threads run in between. \<open>alloc\<close> asks the system first and
  records then, \<open>dealloc\<close> erases first and frees then, \<open>realloc\<close> asks the system first, then
  erases the old address, then records the new one. The counters are atomics that no step reads
  back, so they are updated with the step next to them; \<open>SKIP_TRACKING\<close> is thread-local and
  unset between the steps. Accesses do not change the map and are left out here.
\<close>

section \<open>The steps of \<open>realloc\<close>\<close>

definition realloc_forget :: "usize \<Rightarrow> usize \<Rightarrow> heap_tracker \<Rightarrow> heap_tracker" where
  "realloc_forget ptr new_size s =
     classify_obj_by_size new_size False
       (let s = remove_obj ptr s in s\<lparr>total_realloc := total_realloc s + 1\<rparr>)"

definition realloc_record :: "usize \<Rightarrow> usize \<Rightarrow> usize \<Rightarrow> heap_tracker \<Rightarrow> heap_tracker" where
  "realloc_record old_size new_ptr new_size s =
     (let s = insert_obj new_ptr new_size s in
      if new_size > old_size then s\<lparr>total_usage := total_usage s + (new_size - old_size)\<rparr>
      else s\<lparr>total_usage := total_usage s - (old_size - new_size)\<rparr>)"

lemma realloc_in_steps:
  "\<not> skip_tracking s \<Longrightarrow> q \<noteq> 0 \<Longrightarrow> snd (ht_realloc p old q new s) =
     realloc_record old q new (if q \<noteq> p then realloc_forget p new s else s)"
  by (simp add: ht_realloc_def realloc_record_def realloc_forget_def Let_def)

section \<open>The interleaved system\<close>

text \<open>
  Where a thread is inside a method: an allocated block waits to be recorded, an erased one to
  be freed, a moved one has its old address still in the map, then only its new one to record; a
  block resized in place waits for its new size.
\<close>

datatype heap_pc =
  Idle
| Recording usize usize
| Freeing usize
| Moving usize usize usize usize
| Moved usize usize usize
| Resizing usize usize usize

record heap_process =
  hp_tracker :: heap_tracker
  hp_live :: "usize \<rightharpoonup> usize"
  hp_pc :: "nat \<Rightarrow> heap_pc"

definition heap_process_new :: heap_process where
  "heap_process_new = \<lparr>hp_tracker = heap_tracker_new, hp_live = Map.empty, hp_pc = (\<lambda>_. Idle)\<rparr>"

text \<open>
  The block a thread is working on, which nobody else has a pointer to or may free; and the old
  address of a block the system has moved while the map still has it.
\<close>

fun busy :: "heap_pc \<Rightarrow> usize option" where
  "busy Idle = None"
| "busy (Recording p sz) = Some p"
| "busy (Freeing p) = Some p"
| "busy (Moving p old q new) = Some q"
| "busy (Moved old q new) = Some q"
| "busy (Resizing p old new) = Some p"

fun stale :: "heap_pc \<Rightarrow> usize option" where
  "stale (Moving p old q new) = Some p"
| "stale _ = None"

definition busy_any :: "heap_process \<Rightarrow> usize \<Rightarrow> bool" where
  "busy_any s p \<longleftrightarrow> (\<exists>t. busy (hp_pc s t) = Some p)"

definition stale_any :: "heap_process \<Rightarrow> usize \<Rightarrow> bool" where
  "stale_any s p \<longleftrightarrow> (\<exists>t. stale (hp_pc s t) = Some p)"

definition put_heap ::
  "nat \<Rightarrow> heap_tracker \<Rightarrow> (usize \<rightharpoonup> usize) \<Rightarrow> heap_pc \<Rightarrow> heap_process \<Rightarrow> heap_process" where
  "put_heap t tr m pc s = \<lparr>hp_tracker = tr, hp_live = m, hp_pc = (hp_pc s)(t := pc)\<rparr>"

text \<open>
  One step of a thread \<open>t\<close>. The system allocator hands out free blocks; with \<open>reuse\<close> unset it
  does not hand out again an address whose move the tracker has yet to see. The program frees
  and resizes blocks it owns.
\<close>

inductive heap_thread_step :: "bool \<Rightarrow> heap_process \<Rightarrow> heap_process \<Rightarrow> bool" for reuse where
  alloc_system: "hp_pc s t = Idle \<Longrightarrow> p \<noteq> 0 \<Longrightarrow> block_free (hp_live s) p sz \<Longrightarrow>
    reuse \<or> \<not> stale_any s p \<Longrightarrow>
    heap_thread_step reuse s (put_heap t (hp_tracker s) ((hp_live s)(p \<mapsto> sz)) (Recording p sz) s)"
| alloc_record: "hp_pc s t = Recording p sz \<Longrightarrow>
    heap_thread_step reuse s (put_heap t (snd (ht_alloc p sz (hp_tracker s))) (hp_live s) Idle s)"
| dealloc_erase: "hp_pc s t = Idle \<Longrightarrow> hp_live s p \<noteq> None \<Longrightarrow> \<not> busy_any s p \<Longrightarrow>
    heap_thread_step reuse s (put_heap t (ht_dealloc p (hp_tracker s)) (hp_live s) (Freeing p) s)"
| dealloc_system: "hp_pc s t = Freeing p \<Longrightarrow>
    heap_thread_step reuse s (put_heap t (hp_tracker s) ((hp_live s)(p := None)) Idle s)"
| realloc_system: "hp_pc s t = Idle \<Longrightarrow> hp_live s p = Some old \<Longrightarrow> \<not> busy_any s p \<Longrightarrow> q \<noteq> 0 \<Longrightarrow>
    block_free ((hp_live s)(p := None)) q new \<Longrightarrow> reuse \<or> \<not> stale_any s q \<Longrightarrow>
    heap_thread_step reuse s (put_heap t (hp_tracker s) ((hp_live s)(p := None, q \<mapsto> new))
      (if q \<noteq> p then Moving p old q new else Resizing p old new) s)"
| realloc_forget: "hp_pc s t = Moving p old q new \<Longrightarrow>
    heap_thread_step reuse s
      (put_heap t (realloc_forget p new (hp_tracker s)) (hp_live s) (Moved old q new) s)"
| realloc_record: "hp_pc s t = Moved old q new \<or> hp_pc s t = Resizing q old new \<Longrightarrow>
    heap_thread_step reuse s
      (put_heap t (realloc_record old q new (hp_tracker s)) (hp_live s) Idle s)"

inductive heap_reachable :: "bool \<Rightarrow> heap_process \<Rightarrow> bool" for reuse where
  heap_start: "heap_reachable reuse heap_process_new"
| heap_step: "heap_reachable reuse s \<Longrightarrow> heap_thread_step reuse s s' \<Longrightarrow> heap_reachable reuse s'"

definition quiescent :: "heap_process \<Rightarrow> bool" where
  "quiescent s \<longleftrightarrow> (\<forall>t. hp_pc s t = Idle)"

section \<open>The invariant\<close>

fun claims :: "heap_pc \<Rightarrow> usize set" where
  "claims Idle = {}"
| "claims (Recording p sz) = {p}"
| "claims (Freeing p) = {p}"
| "claims (Moving p old q new) = {p, q}"
| "claims (Moved old q new) = {q}"
| "claims (Resizing p old new) = {p}"

lemma claims_iff: "a \<in> claims c \<longleftrightarrow> busy c = Some a \<or> stale c = Some a"
  by (cases c) auto

fun pc_ok :: "(usize \<rightharpoonup> usize) \<Rightarrow> (usize \<rightharpoonup> usize) \<Rightarrow> heap_pc \<Rightarrow> bool" where
  "pc_ok m tm Idle \<longleftrightarrow> True"
| "pc_ok m tm (Recording p sz) \<longleftrightarrow> p \<noteq> 0 \<and> m p = Some sz"
| "pc_ok m tm (Freeing p) \<longleftrightarrow> m p \<noteq> None \<and> tm p = None"
| "pc_ok m tm (Moving p old q new) \<longleftrightarrow> p \<noteq> q \<and> m p = None \<and> m q = Some new"
| "pc_ok m tm (Moved old q new) \<longleftrightarrow> m q = Some new"
| "pc_ok m tm (Resizing p old new) \<longleftrightarrow> m p = Some new"

lemma pc_ok_cong:
  "\<forall>a\<in>claims c. m a = m' a \<and> tm a = tm' a \<Longrightarrow> pc_ok m tm c \<longleftrightarrow> pc_ok m' tm' c"
  by (cases c) auto

lemma pc_ok_live: "pc_ok m tm c \<Longrightarrow> busy c = Some a \<Longrightarrow> m a \<noteq> None"
  "pc_ok m tm c \<Longrightarrow> stale c = Some a \<Longrightarrow> m a = None"
  by (cases c; auto)+

definition tracked :: "heap_process \<Rightarrow> usize \<rightharpoonup> usize" where
  "tracked s = map_of (live_objs (hp_tracker s))"

definition tracker_idle :: "heap_tracker \<Rightarrow> bool" where
  "tracker_idle tr \<longleftrightarrow> \<not> skip_tracking tr \<and> bt_sorted (live_objs tr)"

definition threads_inv :: "heap_process \<Rightarrow> bool" where
  "threads_inv s \<longleftrightarrow> tracker_idle (hp_tracker s) \<and> blocks_ok (hp_live s) \<and>
     (\<forall>t u. t \<noteq> u \<longrightarrow> claims (hp_pc s t) \<inter> claims (hp_pc s u) = {}) \<and>
     (\<forall>t. pc_ok (hp_live s) (tracked s) (hp_pc s t)) \<and>
     (\<forall>a. (\<forall>t. a \<notin> claims (hp_pc s t)) \<longrightarrow> tracked s a = hp_live s a)"

text \<open>
  A step that changes the maps only where its thread has or takes a claim, takes claims nobody
  has, and leaves the maps equal where it gives one up, keeps the invariant.
\<close>

lemma threads_inv_put:
  assumes inv: "threads_inv s" and tr: "tracker_idle tr" and ok: "blocks_ok m"
    and frame: "\<And>a. a \<notin> claims (hp_pc s t) \<Longrightarrow> a \<notin> claims c \<Longrightarrow>
      m a = hp_live s a \<and> map_of (live_objs tr) a = tracked s a"
    and new: "\<And>u a. u \<noteq> t \<Longrightarrow> a \<in> claims c \<Longrightarrow> a \<notin> claims (hp_pc s u)"
    and pc: "pc_ok m (map_of (live_objs tr)) c"
    and old: "\<And>a. a \<in> claims (hp_pc s t) \<Longrightarrow> a \<notin> claims c \<Longrightarrow> map_of (live_objs tr) a = m a"
  shows "threads_inv (put_heap t tr m c s)"
proof -
  let ?s = "put_heap t tr m c s"
  have tracked: "tracked ?s = map_of (live_objs tr)" by (simp add: tracked_def put_heap_def)
  have sep: "claims (hp_pc s u) \<inter> claims (hp_pc s v) = {}" if "u \<noteq> v" for u v
    using inv that by (simp add: threads_inv_def)
  have "claims (hp_pc ?s u) \<inter> claims (hp_pc ?s v) = {}" if "u \<noteq> v" for u v
    using that sep [OF that] new by (auto simp: put_heap_def)
  moreover have "pc_ok m (map_of (live_objs tr)) (hp_pc ?s u)" for u
  proof (cases "u = t")
    case False
    then have "\<forall>a\<in>claims (hp_pc s u). m a = hp_live s a \<and> map_of (live_objs tr) a = tracked s a"
      using frame new sep [of u t] by blast
    from pc_ok_cong [OF this] inv False show ?thesis by (simp add: threads_inv_def put_heap_def)
  qed (use pc in \<open>simp add: put_heap_def\<close>)
  moreover have "map_of (live_objs tr) a = m a" if "\<forall>u. a \<notin> claims (hp_pc ?s u)" for a
  proof -
    from that have c: "a \<notin> claims c" and others: "\<And>u. u \<noteq> t \<Longrightarrow> a \<notin> claims (hp_pc s u)"
      by (auto simp: put_heap_def split: if_splits)
    show ?thesis
    proof (cases "a \<in> claims (hp_pc s t)")
      case False
      with others have "\<forall>u. a \<notin> claims (hp_pc s u)" by metis
      with inv have "tracked s a = hp_live s a" by (simp add: threads_inv_def)
      with frame [OF False c] show ?thesis by simp
    qed (use old c in simp)
  qed
  ultimately show ?thesis
    using tr ok by (simp add: threads_inv_def tracked) (simp add: put_heap_def)
qed

lemma tracker_steps:
  assumes "tracker_idle tr"
  shows "p \<noteq> 0 \<Longrightarrow> tracker_idle (snd (ht_alloc p sz tr)) \<and>
      map_of (live_objs (snd (ht_alloc p sz tr))) = (map_of (live_objs tr))(p \<mapsto> sz)"
    and "tracker_idle (ht_dealloc p tr) \<and>
      map_of (live_objs (ht_dealloc p tr)) = (map_of (live_objs tr))(p := None)"
    and "tracker_idle (realloc_forget p new tr) \<and>
      map_of (live_objs (realloc_forget p new tr)) = (map_of (live_objs tr))(p := None)"
    and "tracker_idle (realloc_record old q new tr) \<and>
      map_of (live_objs (realloc_record old q new tr)) = (map_of (live_objs tr))(q \<mapsto> new)"
  using assms
  by (auto simp: tracker_idle_def ht_alloc_def ht_dealloc_def realloc_forget_def realloc_record_def
      Let_def insert_obj_eq remove_obj_eq bt.inv_insert bt.inv_remove bt.lookup_insert bt.lookup_remove)

lemma threads_inv_new: "threads_inv heap_process_new"
  by (simp add: threads_inv_def heap_process_new_def tracker_idle_def heap_tracker_new_def
      blocks_ok_def tracked_def bt_sorted_Nil)

text \<open>Who can claim an address: nobody claims a free one that is not stale, nor an owned one.\<close>

lemma unclaimed_free:
  "threads_inv s \<Longrightarrow> hp_live s p = None \<Longrightarrow> \<not> stale_any s p \<Longrightarrow> p \<notin> claims (hp_pc s u)"
  unfolding threads_inv_def claims_iff stale_any_def using pc_ok_live(1) by metis

lemma unclaimed_owned:
  "threads_inv s \<Longrightarrow> hp_live s p \<noteq> None \<Longrightarrow> \<not> busy_any s p \<Longrightarrow> p \<notin> claims (hp_pc s u)"
  unfolding threads_inv_def claims_iff busy_any_def using pc_ok_live(2) by metis

lemma unclaimed_eq:
  "threads_inv s \<Longrightarrow> (\<And>u. p \<notin> claims (hp_pc s u)) \<Longrightarrow> tracked s p = hp_live s p"
  by (simp add: threads_inv_def)

lemma block_free_None: "block_free m p sz \<Longrightarrow> m p = None"
  by (cases "m p") (auto simp: block_free_def)

lemma threads_inv_step:
  assumes "heap_thread_step False s s'" and inv: "threads_inv s"
  shows "threads_inv s'"
  using assms(1)
proof cases
  case (alloc_system t p sz)
  from inv have i: "tracker_idle (hp_tracker s)" "blocks_ok (hp_live s)" by (simp_all add: threads_inv_def)
  have "p \<notin> claims (hp_pc s u)" for u
    using unclaimed_free [OF inv block_free_None [OF alloc_system(4)]] alloc_system(5) by simp
  then show ?thesis unfolding alloc_system(1)
    by (intro threads_inv_put [OF inv i(1)])
      (use alloc_system i blocks_ok_insert in \<open>auto simp: tracked_def\<close>)
next
  case (alloc_record t p sz)
  from inv have i: "tracker_idle (hp_tracker s)" "blocks_ok (hp_live s)"
    and "pc_ok (hp_live s) (tracked s) (hp_pc s t)" by (simp_all add: threads_inv_def)
  with alloc_record tracker_steps(1) [OF i(1), of p sz] show ?thesis unfolding alloc_record(1)
    by (intro threads_inv_put [OF inv]) (auto simp: tracked_def)
next
  case (dealloc_erase t p)
  from inv have i: "tracker_idle (hp_tracker s)" "blocks_ok (hp_live s)" by (simp_all add: threads_inv_def)
  have "p \<notin> claims (hp_pc s u)" for u
    using unclaimed_owned [OF inv] dealloc_erase by blast
  with dealloc_erase tracker_steps(2) [OF i(1), of p] i show ?thesis unfolding dealloc_erase(1)
    by (intro threads_inv_put [OF inv]) (auto simp: tracked_def)
next
  case (dealloc_system t p)
  from inv have i: "tracker_idle (hp_tracker s)" "blocks_ok (hp_live s)"
    and "pc_ok (hp_live s) (tracked s) (hp_pc s t)" by (simp_all add: threads_inv_def)
  with dealloc_system show ?thesis unfolding dealloc_system(1)
    by (intro threads_inv_put [OF inv i(1)]) (auto simp: tracked_def blocks_ok_delete)
next
  case (realloc_system t p old q new)
  from inv have i: "tracker_idle (hp_tracker s)" "blocks_ok (hp_live s)" by (simp_all add: threads_inv_def)
  have p: "p \<notin> claims (hp_pc s u)" for u
    using unclaimed_owned [OF inv] realloc_system by blast
  have q: "q \<notin> claims (hp_pc s u)" if "q \<noteq> p" for u
    using unclaimed_free [OF inv] block_free_None [OF realloc_system(6)] realloc_system that by auto
  have "blocks_ok ((hp_live s)(p := None, q \<mapsto> new))"
    using realloc_system(6) i by (intro blocks_ok_insert blocks_ok_delete)
  then show ?thesis unfolding realloc_system(1)
    by (intro threads_inv_put [OF inv i(1)])
      (use realloc_system p q in \<open>auto simp: tracked_def split: if_splits\<close>)
next
  case (realloc_forget t p old q new)
  from inv have i: "tracker_idle (hp_tracker s)" "blocks_ok (hp_live s)"
    and ok: "pc_ok (hp_live s) (tracked s) (hp_pc s t)"
    and sep: "\<forall>u. t \<noteq> u \<longrightarrow> claims (hp_pc s t) \<inter> claims (hp_pc s u) = {}"
    by (simp_all add: threads_inv_def)
  with realloc_forget tracker_steps(3) [OF i(1), of p new] show ?thesis unfolding realloc_forget(1)
    by (intro threads_inv_put [OF inv]) (auto simp: tracked_def)
next
  case (realloc_record t old q new)
  from inv have i: "tracker_idle (hp_tracker s)" "blocks_ok (hp_live s)"
    and ok: "pc_ok (hp_live s) (tracked s) (hp_pc s t)"
    by (simp_all add: threads_inv_def)
  from realloc_record(2) have "claims (hp_pc s t) = {q}" "hp_live s q = Some new" using ok by auto
  with tracker_steps(4) [OF i(1), of old q new] i show ?thesis unfolding realloc_record(1)
    by (intro threads_inv_put [OF inv]) (auto simp: tracked_def)
qed

lemma threads_inv_reachable: "heap_reachable False s \<Longrightarrow> threads_inv s"
  by (induction rule: heap_reachable.induct) (auto intro: threads_inv_new threads_inv_step)

section \<open>Properties\<close>

text \<open>
  C4. The tracker under threads: when every address that \<open>realloc\<close> gives up stays unused until
  the tracker has erased it, then in every state that any interleaving of allocations,
  deallocations and reallocations reaches, a block no thread is working on is in the map exactly
  when it is live, with its size; and when all calls have returned, looking an address up answers
  the live block that holds it.
\<close>

theorem interleaved_map_exact:
  assumes "heap_reachable False s"
  shows "(\<forall>a. \<not> busy_any s a \<longrightarrow> \<not> stale_any s a \<longrightarrow> map_of (live_objs (hp_tracker s)) a = hp_live s a) \<and>
    (quiescent s \<longrightarrow>
       (fst (find_heap_obj addr (hp_tracker s)) = Some (a, sz) \<longleftrightarrow> holds_addr (hp_live s) addr a sz))"
proof -
  have inv: "threads_inv s" using assms by (rule threads_inv_reachable)
  then have eq: "tracked s b = hp_live s b" if "\<not> busy_any s b" "\<not> stale_any s b" for b
    using that by (auto simp: threads_inv_def claims_iff busy_any_def stale_any_def)
  have "map_of (live_objs (hp_tracker s)) = hp_live s" if "quiescent s"
    using that eq by (auto simp: tracked_def quiescent_def busy_any_def stale_any_def fun_eq_iff)
  with inv eq find_heap_obj_map [of "hp_tracker s" "hp_live s"] show ?thesis
    by (auto simp: tracked_def threads_inv_def tracker_idle_def)
qed

text \<open>Two threads: a schedule, as a list of steps given by thread and kind.\<close>

datatype sched =
  Do_alloc nat usize usize
| Do_record nat
| Do_erase nat usize
| Do_free nat
| Do_realloc nat usize usize usize
| Do_forget nat
| Do_insert nat

fun sched_step :: "sched \<Rightarrow> heap_process \<Rightarrow> heap_process" where
  "sched_step (Do_alloc t p sz) s =
     put_heap t (hp_tracker s) ((hp_live s)(p \<mapsto> sz)) (Recording p sz) s"
| "sched_step (Do_record t) s =
     (case hp_pc s t of Recording p sz \<Rightarrow>
        put_heap t (snd (ht_alloc p sz (hp_tracker s))) (hp_live s) Idle s | _ \<Rightarrow> s)"
| "sched_step (Do_erase t p) s = put_heap t (ht_dealloc p (hp_tracker s)) (hp_live s) (Freeing p) s"
| "sched_step (Do_free t) s =
     (case hp_pc s t of Freeing p \<Rightarrow>
        put_heap t (hp_tracker s) ((hp_live s)(p := None)) Idle s | _ \<Rightarrow> s)"
| "sched_step (Do_realloc t p q new) s =
     put_heap t (hp_tracker s) ((hp_live s)(p := None, q \<mapsto> new))
       (if q \<noteq> p then Moving p (the (hp_live s p)) q new else Resizing p (the (hp_live s p)) new) s"
| "sched_step (Do_forget t) s =
     (case hp_pc s t of Moving p old q new \<Rightarrow>
        put_heap t (realloc_forget p new (hp_tracker s)) (hp_live s) (Moved old q new) s | _ \<Rightarrow> s)"
| "sched_step (Do_insert t) s =
     (case hp_pc s t of
        Moved old q new \<Rightarrow> put_heap t (realloc_record old q new (hp_tracker s)) (hp_live s) Idle s
      | Resizing q old new \<Rightarrow> put_heap t (realloc_record old q new (hp_tracker s)) (hp_live s) Idle s
      | _ \<Rightarrow> s)"

fun sched_ok :: "bool \<Rightarrow> sched \<Rightarrow> heap_process \<Rightarrow> bool" where
  "sched_ok reuse (Do_alloc t p sz) s \<longleftrightarrow> hp_pc s t = Idle \<and> p \<noteq> 0 \<and> block_free (hp_live s) p sz \<and>
     (reuse \<or> \<not> stale_any s p)"
| "sched_ok reuse (Do_record t) s \<longleftrightarrow> (case hp_pc s t of Recording p sz \<Rightarrow> True | _ \<Rightarrow> False)"
| "sched_ok reuse (Do_erase t p) s \<longleftrightarrow> hp_pc s t = Idle \<and> hp_live s p \<noteq> None \<and> \<not> busy_any s p"
| "sched_ok reuse (Do_free t) s \<longleftrightarrow> (case hp_pc s t of Freeing p \<Rightarrow> True | _ \<Rightarrow> False)"
| "sched_ok reuse (Do_realloc t p q new) s \<longleftrightarrow> hp_pc s t = Idle \<and> hp_live s p \<noteq> None \<and>
     \<not> busy_any s p \<and> q \<noteq> 0 \<and> block_free ((hp_live s)(p := None)) q new \<and> (reuse \<or> \<not> stale_any s q)"
| "sched_ok reuse (Do_forget t) s \<longleftrightarrow> (case hp_pc s t of Moving p old q new \<Rightarrow> True | _ \<Rightarrow> False)"
| "sched_ok reuse (Do_insert t) s \<longleftrightarrow>
     (case hp_pc s t of Moved old q new \<Rightarrow> True | Resizing q old new \<Rightarrow> True | _ \<Rightarrow> False)"

lemma sched_step_reaches:
  assumes "heap_reachable reuse s" "sched_ok reuse e s"
  shows "heap_reachable reuse (sched_step e s)"
proof (rule heap_step [OF assms(1)], cases e)
  case (Do_realloc t p q new)
  with assms(2) obtain old where "hp_live s p = Some old" by auto
  with assms(2) Do_realloc show "heap_thread_step reuse s (sched_step e s)"
    by (simp del: fun_upd_apply add: heap_thread_step.realloc_system)
qed (use assms(2) in \<open>auto split: heap_pc.splits intro: heap_thread_step.intros\<close>)

fun sched_run_ok :: "bool \<Rightarrow> sched list \<Rightarrow> heap_process \<Rightarrow> bool" where
  "sched_run_ok reuse [] s \<longleftrightarrow> True"
| "sched_run_ok reuse (e # es) s \<longleftrightarrow> sched_ok reuse e s \<and> sched_run_ok reuse es (sched_step e s)"

lemma sched_run_reaches:
  "heap_reachable reuse s \<Longrightarrow> sched_run_ok reuse es s \<Longrightarrow> heap_reachable reuse (fold sched_step es s)"
  by (induction es arbitrary: s) (auto intro: sched_step_reaches)

text \<open>
  The schedule of the race: while thread 0 is between the system's move of its block from
  \<open>p\<close> to \<open>q\<close> and the update of the map, thread 1 is given \<open>p\<close> and records it.
\<close>

definition realloc_race :: "usize \<Rightarrow> usize \<Rightarrow> usize \<Rightarrow> usize \<Rightarrow> usize \<Rightarrow> sched list" where
  "realloc_race p q old new sz = [Do_alloc 0 p old, Do_record 0, Do_realloc 0 p q new,
     Do_alloc 1 p sz, Do_record 1, Do_forget 0, Do_insert 0]"

lemma realloc_race_run:
  assumes "p \<noteq> 0" "q \<noteq> 0" "block_free Map.empty p old" "block_free Map.empty q new"
    "block_free [q \<mapsto> new] p sz"
  shows "sched_run_ok True (realloc_race p q old new sz) heap_process_new"
    and "fold sched_step (realloc_race p q old new sz) heap_process_new = s \<Longrightarrow>
      quiescent s \<and> hp_live s = [q \<mapsto> new, p \<mapsto> sz] \<and> tracker_idle (hp_tracker s) \<and>
      tracked s = [q \<mapsto> new]"
proof -
  have pq: "q \<noteq> p" using assms(5) by (auto simp: block_free_def)
  have m2: "Map.empty(p \<mapsto> old, p := None, q \<mapsto> new) = [q \<mapsto> new]" using pq by auto
  show "sched_run_ok True (realloc_race p q old new sz) heap_process_new"
    using assms pq
    by (auto simp: realloc_race_def heap_process_new_def put_heap_def busy_any_def block_free_def
        split: if_splits)
  let ?t0 = heap_tracker_new
  let ?t1 = "snd (ht_alloc p old ?t0)" let ?t2 = "snd (ht_alloc p sz ?t1)"
  let ?t3 = "realloc_forget p new ?t2" let ?t4 = "realloc_record old q new ?t3"
  have i0: "tracker_idle ?t0" "map_of (live_objs ?t0) = Map.empty"
    by (simp_all add: tracker_idle_def heap_tracker_new_def bt_sorted_Nil)
  note i1 = tracker_steps(1) [OF i0(1) assms(1), of old]
  note i2 = tracker_steps(1) [OF conjunct1 [OF i1] assms(1), of sz]
  note i3 = tracker_steps(3) [OF conjunct1 [OF i2], of p new]
  note i4 = tracker_steps(4) [OF conjunct1 [OF i3], of old q new]
  show "fold sched_step (realloc_race p q old new sz) heap_process_new = s \<Longrightarrow>
      quiescent s \<and> hp_live s = [q \<mapsto> new, p \<mapsto> sz] \<and> tracker_idle (hp_tracker s) \<and>
      tracked s = [q \<mapsto> new]"
    using pq m2 i0 i1 i2 i3 i4
    by (auto simp: realloc_race_def heap_process_new_def put_heap_def tracked_def quiescent_def)
qed

text \<open>
  C32. Without that guarantee the map loses live blocks: a moving reallocation erases the old
  address only after the system has given it up, so when another thread is handed that address
  in between and records it, the erasure removes the new block. Everything has returned, the
  block is live, and the tracker knows nothing of it.
\<close>

theorem realloc_race_loses_block:
  assumes "p \<noteq> 0" "q \<noteq> 0" "block_free Map.empty p old" "block_free Map.empty q new"
    "block_free [q \<mapsto> new] p sz"
  shows "let s = fold sched_step (realloc_race p q old new sz) heap_process_new in
    heap_reachable True s \<and> quiescent s \<and> hp_live s p = Some sz \<and>
    fst (find_heap_obj p (hp_tracker s)) = None"
proof -
  let ?s = "fold sched_step (realloc_race p q old new sz) heap_process_new"
  note run = realloc_race_run [OF assms]
  have "blocks_ok [q \<mapsto> new]" using assms(4) by (auto simp: blocks_ok_def block_free_def)
  moreover have "\<not> holds_addr [q \<mapsto> new] p a z" for a z
    using assms(5) by (auto simp: holds_addr_def block_free_def split: if_splits)
      (metis antisym_conv le_add1 le_trans unsigned_word_eqI)
  ultimately have "fst (find_heap_obj p (hp_tracker ?s)) \<noteq> Some (a, z)" for a z
    using run(2) [OF refl] find_heap_obj_map [of "hp_tracker ?s" "[q \<mapsto> new]" p a z]
    by (simp add: tracker_idle_def tracked_def)
  then have "fst (find_heap_obj p (hp_tracker ?s)) = None"
    by (metis not_Some_eq surj_pair)
  moreover have "hp_live ?s p = Some sz" using run(2) [OF refl] by simp
  ultimately show ?thesis
    using run sched_run_reaches [OF heap_start run(1)] by (simp only: Let_def)
qed

theorem realloc_race_loses_block_witness:
  "let s = fold sched_step (realloc_race 4096 8192 64 128 32) heap_process_new in
    heap_reachable True s \<and> quiescent s \<and> hp_live s 4096 = Some 32 \<and>
    fst (find_heap_obj 4096 (hp_tracker s)) = None"
  by (rule realloc_race_loses_block) (auto simp: block_free_def split: if_splits)

text \<open>A run of two threads that interleave an allocation, a move and a deallocation.\<close>

definition two_threads :: "sched list" where
  "two_threads = [Do_alloc 0 4096 64, Do_alloc 1 8192 16, Do_record 0, Do_realloc 0 4096 12288 128,
     Do_record 1, Do_erase 1 8192, Do_forget 0, Do_free 1, Do_insert 0]"

lemma two_threads_run: "sched_run_ok False two_threads heap_process_new"
  by (auto simp: two_threads_def heap_process_new_def put_heap_def busy_any_def stale_any_def
      block_free_def split: if_splits)

theorem interleaved_map_exact_witness:
  "\<exists>s. heap_reachable False s \<and> quiescent s \<and> hp_live s 12288 = Some 128 \<and>
    fst (find_heap_obj 12300 (hp_tracker s)) = Some (12288, 128)"
proof -
  let ?s = "fold sched_step two_threads heap_process_new"
  have r: "heap_reachable False ?s" by (rule sched_run_reaches [OF heap_start two_threads_run])
  moreover have q: "quiescent ?s" and l: "hp_live ?s 12288 = Some 128"
    by (simp_all add: two_threads_def heap_process_new_def put_heap_def quiescent_def)
  moreover from l have "holds_addr (hp_live ?s) 12300 12288 128" by (simp add: holds_addr_def)
  with interleaved_map_exact [OF r] q have "fst (find_heap_obj 12300 (hp_tracker ?s)) = Some (12288, 128)"
    by blast
  ultimately show ?thesis by blast
qed

end
