(* ===== verification/Float64.thy ===== *)
theory Float64
  imports Prelude Complex_Main "HOL-Library.Log_Nat"
begin

text \<open>
  The part of \<open>f64\<close> arithmetic the statistics use: non-negative finite values as
  rationals, conversion from \<open>u64\<close>, division and multiplication rounded to nearest (ties
  to even, 53 significant bits), and the \<open>{:.2}\<close> format. All values here lie between
  2^-64 and 2^71, so neither subnormals nor overflow occur.
\<close>

definition rne :: "rat \<Rightarrow> int" where
  "rne x = (let f = \<lfloor>x\<rfloor>; d = x - of_int f in
     if d < 1 / 2 then f else if d > 1 / 2 then f + 1 else if even f then f else f + 1)"

definition pow2 :: "int \<Rightarrow> rat" where
  "pow2 e = (if e \<ge> 0 then 2 ^ nat e else 1 / 2 ^ nat (- e))"

text \<open>The exponent of the leading bit of a positive rational.\<close>

definition f64_exp :: "rat \<Rightarrow> int" where
  "f64_exp x =
     (let (p, q) = quotient_of x;
          e = int (floorlog 2 (nat p)) - int (floorlog 2 (nat q))
      in if x < pow2 e then e - 1 else e)"

definition f64_round :: "rat \<Rightarrow> rat" where
  "f64_round x =
     (if x = 0 then 0
      else let ulp = pow2 (f64_exp x - 52) in of_int (rne (x / ulp)) * ulp)"

definition f64_of_u64 :: "u64 \<Rightarrow> rat" where
  "f64_of_u64 w = f64_round (of_nat (unat w))"

definition f64_of_nat :: "nat \<Rightarrow> rat" where
  "f64_of_nat n = f64_round (of_nat n)"

definition f64_div :: "rat \<Rightarrow> rat \<Rightarrow> rat" where
  "f64_div a b = f64_round (a / b)"

definition f64_mul :: "rat \<Rightarrow> rat \<Rightarrow> rat" where
  "f64_mul a b = f64_round (a * b)"

text \<open>\<open>format!("{:.2}", x)\<close>\<close>

definition fmt2 :: "rat \<Rightarrow> string" where
  "fmt2 x =
     (let n = nat (rne (x * 100))
      in show_nat (n div 100) @ ''.'' @
         [digit_char (n div 10 mod 10), digit_char (n mod 10)])"

section \<open>Rounding\<close>

lemma rne_of_int [simp]: "rne (of_int k) = k"
  by (simp add: rne_def)

lemma rne_floor: "rne x = \<lfloor>x\<rfloor> \<or> rne x = \<lfloor>x\<rfloor> + 1 \<and> 1 / 2 \<le> x - of_int \<lfloor>x\<rfloor>"
  by (auto simp: rne_def Let_def)

lemma rne_le: "x \<le> of_int k \<Longrightarrow> rne x \<le> k"
proof -
  assume x: "x \<le> of_int k"
  show ?thesis
  proof (cases "\<lfloor>x\<rfloor> = k")
    case True
    with x have "x = of_int k" using of_int_floor_le [of x] by simp
    then show ?thesis by simp
  next
    case False
    from x have "\<lfloor>x\<rfloor> \<le> k" by (metis floor_mono floor_of_int)
    with False have "\<lfloor>x\<rfloor> + 1 \<le> k" by simp
    then show ?thesis using rne_floor [of x] by auto
  qed
qed

lemma rne_ge: "of_int k \<le> x \<Longrightarrow> k \<le> rne x"
  using rne_floor [of x] le_floor_iff [of k x] by linarith

lemma pow2_pos [simp]: "0 < pow2 e"
  by (simp add: pow2_def)

lemma pow2_diff_nat: "pow2 (int a - int b) = 2 ^ a / 2 ^ b"
proof (cases "b \<le> a")
  case True
  then have "nat (int a - int b) = a - b" by simp
  with True show ?thesis by (simp add: pow2_def power_diff)
next
  case False
  then have "nat (- (int a - int b)) = b - a" by simp
  with False show ?thesis by (simp add: pow2_def power_diff)
qed

lemma floorlog2_bounds:
  "0 < n \<Longrightarrow> 2 ^ (floorlog 2 n - 1) \<le> n \<and> n < 2 ^ floorlog 2 n \<and> 0 < floorlog 2 n"
  using floorlog_bounds [of n 2] by (auto simp: floorlog_def)

lemma pow2_exp_le: "0 < x \<Longrightarrow> pow2 (f64_exp x) \<le> x"
proof -
  assume pos: "0 < x"
  obtain p q where pq: "quotient_of x = (p, q)" by force
  then have q: "q > 0" and x: "x = of_int p / of_int q"
    by (auto simp: quotient_of_denom_pos quotient_of_div)
  with pos have p: "p > 0" by (simp add: zero_less_divide_iff)
  define a b where "a = floorlog 2 (nat p)" and "b = floorlog 2 (nat q)"
  have a: "2 ^ (a - 1) \<le> nat p" "0 < a" using floorlog2_bounds [of "nat p"] p by (auto simp: a_def)
  have b: "nat q < 2 ^ b" using floorlog2_bounds [of "nat q"] q by (auto simp: b_def)
  have "pow2 (int a - int b - 1) \<le> x"
  proof -
    have "pow2 (int a - int b - 1) = 2 ^ (a - 1) / 2 ^ b"
      using pow2_diff_nat [of "a - 1" b] a(2) by (simp add: of_nat_diff algebra_simps)
    also have "\<dots> \<le> of_nat (nat p) / of_nat (nat q)"
    proof (rule frac_le)
      show "(2 :: rat) ^ (a - 1) \<le> of_nat (nat p)" using a(1) by (simp add: numeral_power_le_of_nat_cancel_iff)
      show "of_nat (nat q) \<le> (2 :: rat) ^ b" using b by (simp add: of_nat_le_numeral_power_cancel_iff)
    qed (use p q in auto)
    also have "\<dots> = x" using p q x by simp
    finally show ?thesis .
  qed
  then show ?thesis
    by (auto simp: f64_exp_def pq a_def b_def Let_def not_less algebra_simps)
qed

lemma pow2_mono: "a < b \<Longrightarrow> 2 * pow2 a \<le> pow2 b"
proof -
  assume "a < b"
  define k where "k = nat (max (- a) 0)"
  have "pow2 a = 2 ^ nat (a + int k) / 2 ^ k" "pow2 b = 2 ^ nat (b + int k) / 2 ^ k"
    using pow2_diff_nat [of "nat (a + int k)" k] pow2_diff_nat [of "nat (b + int k)" k] \<open>a < b\<close>
    by (auto simp: k_def max_def)
  moreover have "2 * 2 ^ nat (a + int k) \<le> (2 :: rat) ^ nat (b + int k)"
  proof -
    have "Suc (nat (a + int k)) \<le> nat (b + int k)" using \<open>a < b\<close> by (auto simp: k_def)
    then have "(2 :: rat) ^ Suc (nat (a + int k)) \<le> 2 ^ nat (b + int k)"
      by (rule power_increasing) simp
    then show ?thesis by simp
  qed
  ultimately show ?thesis by (simp add: divide_right_mono)
qed

lemma f64_exp_small: "0 < x \<Longrightarrow> x < 2 ^ 53 \<Longrightarrow> f64_exp x \<le> 52"
proof (rule ccontr)
  assume x: "0 < x" "x < 2 ^ 53" and "\<not> f64_exp x \<le> 52"
  then have "2 * pow2 52 \<le> pow2 (f64_exp x)" by (intro pow2_mono) simp
  with pow2_exp_le [OF x(1)] x(2) show False by (simp add: pow2_def)
qed

text \<open>Below 2^53 every integer is representable, and rounding does not cross one.\<close>

lemma int_over_ulp: "f64_exp x \<le> 52 \<Longrightarrow> of_nat n / pow2 (f64_exp x - 52) = of_int (int n * 2 ^ nat (52 - f64_exp x))"
  by (auto simp: pow2_def)

lemma f64_round_le_nat:
  assumes "x \<le> of_nat n" "0 \<le> x" "x < 2 ^ 53"
  shows "f64_round x \<le> of_nat n"
proof (cases "x = 0")
  case False
  let ?u = "pow2 (f64_exp x - 52)"
  have "f64_exp x \<le> 52" using False assms by (intro f64_exp_small) auto
  then have k: "of_nat n / ?u = of_int (int n * 2 ^ nat (52 - f64_exp x))" by (rule int_over_ulp)
  have "x / ?u \<le> of_nat n / ?u" using assms by (simp add: divide_right_mono less_imp_le)
  then have "rne (x / ?u) \<le> int n * 2 ^ nat (52 - f64_exp x)" unfolding k by (rule rne_le)
  then have "of_int (rne (x / ?u)) \<le> of_nat n / ?u" unfolding k by (simp only: of_int_le_iff)
  then show ?thesis using False by (simp add: f64_round_def Let_def pos_le_divide_eq)
qed (simp add: f64_round_def)

lemma f64_round_ge_nat:
  assumes "of_nat n \<le> x" "0 \<le> x" "x < 2 ^ 53"
  shows "of_nat n \<le> f64_round x"
proof (cases "x = 0")
  case False
  let ?u = "pow2 (f64_exp x - 52)"
  have "f64_exp x \<le> 52" using False assms by (intro f64_exp_small) auto
  then have k: "of_nat n / ?u = of_int (int n * 2 ^ nat (52 - f64_exp x))" by (rule int_over_ulp)
  have "of_nat n / ?u \<le> x / ?u" using assms by (simp add: divide_right_mono less_imp_le)
  then have "int n * 2 ^ nat (52 - f64_exp x) \<le> rne (x / ?u)" unfolding k by (rule rne_ge)
  then have "of_nat n / ?u \<le> of_int (rne (x / ?u))" unfolding k by (simp only: of_int_le_iff)
  then show ?thesis using False by (simp add: f64_round_def Let_def pos_divide_le_eq)
qed (use assms in \<open>simp add: f64_round_def\<close>)

lemma f64_round_nat: "n < 2 ^ 53 \<Longrightarrow> f64_round (of_nat n) = of_nat n"
proof -
  assume "n < 2 ^ 53"
  then have "(of_nat n :: rat) < 2 ^ 53" by (metis of_nat_less_iff of_nat_numeral of_nat_power)
  then show ?thesis by (intro antisym f64_round_le_nat f64_round_ge_nat) auto
qed

lemma f64_round_nonneg: "0 \<le> x \<Longrightarrow> 0 \<le> f64_round x"
proof -
  assume "0 \<le> x"
  then have "0 \<le> rne (x / pow2 (f64_exp x - 52))"
    by (intro rne_ge) (simp add: less_imp_le)
  then show ?thesis by (simp add: f64_round_def Let_def less_imp_le)
qed

text \<open>A percentage of counts below 2^53: between 0 and 100, and 100 when the counts agree.\<close>

definition f64_percent :: "rat \<Rightarrow> rat \<Rightarrow> rat" where
  "f64_percent a b = f64_mul (f64_div a b) 100"

lemma f64_percent_bounds:
  assumes "a \<le> b" "b < 2 ^ 53"
  shows "0 \<le> f64_percent (f64_of_nat a) (f64_of_nat b)"
    and "f64_percent (f64_of_nat a) (f64_of_nat b) \<le> 100"
proof -
  have ab: "f64_of_nat a = of_nat a" "f64_of_nat b = of_nat b"
    using assms by (simp_all add: f64_of_nat_def f64_round_nat)
  have q: "0 \<le> (of_nat a / of_nat b :: rat)" "(of_nat a / of_nat b :: rat) \<le> 1"
    using assms(1) by (auto simp: divide_le_eq_1)
  then have r: "0 \<le> f64_round (of_nat a / of_nat b)" "f64_round (of_nat a / of_nat b) \<le> 1"
    using f64_round_le_nat [of "of_nat a / of_nat b" 1] by (auto intro: f64_round_nonneg)
  then show "0 \<le> f64_percent (f64_of_nat a) (f64_of_nat b)"
    by (simp add: f64_percent_def f64_mul_def f64_div_def ab f64_round_nonneg)
  show "f64_percent (f64_of_nat a) (f64_of_nat b) \<le> 100"
    using r f64_round_le_nat [of "f64_round (of_nat a / of_nat b) * 100" 100]
    by (simp add: f64_percent_def f64_mul_def f64_div_def ab)
qed

lemma f64_percent_full:
  assumes "0 < a" "a < 2 ^ 53"
  shows "f64_percent (f64_of_nat a) (f64_of_nat a) = 100"
  using assms f64_round_nat [of 1] f64_round_nat [of 100]
  by (simp add: f64_percent_def f64_mul_def f64_div_def f64_of_nat_def f64_round_nat)

end
