(* ===== verification/Cpu_Cycles.thy ===== *)
theory Cpu_Cycles
  imports Runtime Float64
begin

text \<open>
  The CPU cycle counter (\<open>unsafe_perf_source/src/cpu_cycle_counter.rs\<close>): the registry of
  per-thread statistics, the thread-local context stack that attributes time to one of four
  states, the entry points the instrumentation calls, the thread lifecycle and the totals. The
  time-stamp counter is a parameter: the \<open>n\<close>-th reading of it is \<open>tsc n\<close>. Each entry
  point is one step of its thread.
\<close>

section \<open>The registry\<close>

definition MAX_THREADS :: nat where
  "MAX_THREADS = 4096"

datatype thread_state = Uninitialized | Active | Terminated

record thread_stats =
  thread_id :: u64
  ts_state :: thread_state
  start_tsc :: u64
  last_known_tsc :: u64
  normal_cycles :: u64
  unsafe_cycles :: u64
  external_safe_cycles :: u64
  external_unsafe_cycles :: u64
  unsafe_blocks_count :: u64
  external_calls_count :: u64

definition thread_stats_new :: thread_stats where
  "thread_stats_new = \<lparr>thread_id = 0, ts_state = Uninitialized, start_tsc = 0,
     last_known_tsc = 0, normal_cycles = 0, unsafe_cycles = 0, external_safe_cycles = 0,
     external_unsafe_cycles = 0, unsafe_blocks_count = 0, external_calls_count = 0\<rparr>"

record thread_registry =
  threads :: "nat \<Rightarrow> thread_stats"
  next_slot :: nat
  reg_stats_written :: bool

definition registry_new :: thread_registry where
  "registry_new = \<lparr>threads = (\<lambda>_. thread_stats_new), next_slot = 0, reg_stats_written = False\<rparr>"

definition upd_thread ::
  "nat \<Rightarrow> (thread_stats \<Rightarrow> thread_stats) \<Rightarrow> thread_registry \<Rightarrow> thread_registry" where
  "upd_thread slot f r = r\<lparr>threads := (threads r)(slot := f (threads r slot))\<rparr>"

text \<open>Claiming a terminated slot: the state goes back and every statistic is reset.\<close>

definition reset_slot :: "thread_stats \<Rightarrow> thread_stats" where
  "reset_slot st = st\<lparr>ts_state := Uninitialized, thread_id := 0, start_tsc := 0,
     last_known_tsc := 0, normal_cycles := 0, unsafe_cycles := 0, external_safe_cycles := 0,
     external_unsafe_cycles := 0, unsafe_blocks_count := 0, external_calls_count := 0\<rparr>"

fun reuse_slot :: "nat list \<Rightarrow> thread_registry \<Rightarrow> (nat \<times> thread_registry) option" where
  "reuse_slot [] r = None"
| "reuse_slot (slot # slots) r =
     (if ts_state (threads r slot) = Terminated
      then Some (slot, upd_thread slot reset_slot r)
      else reuse_slot slots r)"

definition allocate_slot :: "thread_registry \<Rightarrow> nat option \<times> thread_registry" where
  "allocate_slot r =
     (let current_slots = next_slot r in
      case reuse_slot [0..<min current_slots MAX_THREADS] r of
        Some (slot, r) \<Rightarrow> (Some slot, r)
      | None \<Rightarrow>
          let slot = next_slot r;
              r = r\<lparr>next_slot := next_slot r + 1\<rparr>
          in if slot < MAX_THREADS then (Some slot, r)
             else (None, r\<lparr>next_slot := next_slot r - 1\<rparr>))"

section \<open>The running thread\<close>

definition MAX_CONTEXT_DEPTH :: nat where
  "MAX_CONTEXT_DEPTH = 32"

datatype execution_state = Normal | Unsafe | ExternalSafe | ExternalUnsafe

record context_frame =
  cf_state :: execution_state
  cf_start_tsc :: u64

text \<open>The thread-local cells.\<close>

record thread_locals =
  thread_slot :: "nat option"
  context_stack :: "context_frame list"
  stack_depth :: nat

definition thread_locals_new :: thread_locals where
  "thread_locals_new = \<lparr>thread_slot = None,
     context_stack = replicate MAX_CONTEXT_DEPTH \<lparr>cf_state = Normal, cf_start_tsc = 0\<rparr>,
     stack_depth = 0\<rparr>"

text \<open>What the running thread sees: the registry, its own cells, and the clock.\<close>

record cpu =
  reg :: thread_registry
  loc :: thread_locals
  now :: nat
  tsc :: "nat \<Rightarrow> u64"
  self_id :: u64

definition read_tsc :: "cpu \<Rightarrow> u64 \<times> cpu" where
  "read_tsc c = (tsc c (now c), c\<lparr>now := now c + 1\<rparr>)"

definition upd_stats :: "nat \<Rightarrow> (thread_stats \<Rightarrow> thread_stats) \<Rightarrow> cpu \<Rightarrow> cpu" where
  "upd_stats slot f c = c\<lparr>reg := upd_thread slot f (reg c)\<rparr>"

definition initialize_thread :: "cpu \<Rightarrow> nat option \<times> cpu" where
  "initialize_thread c =
     (case thread_slot (loc c) of
        Some slot \<Rightarrow> (Some slot, c)
      | None \<Rightarrow>
          (case allocate_slot (reg c) of
             (Some slot, r) \<Rightarrow>
               let (t, c) = read_tsc (c\<lparr>reg := r\<rparr>);
                   c = upd_stats slot (\<lambda>st. st\<lparr>thread_id := self_id c, start_tsc := t,
                         last_known_tsc := t, ts_state := Active\<rparr>) c;
                   l = (loc c)\<lparr>context_stack := (context_stack (loc c))
                           [0 := \<lparr>cf_state = Normal, cf_start_tsc = t\<rparr>],
                         stack_depth := 1, thread_slot := Some slot\<rparr>
               in (Some slot, c\<lparr>loc := l\<rparr>)
           | (None, r) \<Rightarrow> (None, c\<lparr>reg := r\<rparr>)))"

text \<open>\<open>THREAD_SLOT.with(|s| s.get()).or_else(initialize_thread)\<close>\<close>

definition slot_or_init :: "cpu \<Rightarrow> nat option \<times> cpu" where
  "slot_or_init c =
     (case thread_slot (loc c) of
        Some slot \<Rightarrow> (Some slot, c)
      | None \<Rightarrow> initialize_thread c)"

text \<open>The accounting step the transitions share: elapsed time goes to the frame's state.\<close>

definition account :: "context_frame \<Rightarrow> u64 \<Rightarrow> thread_stats \<Rightarrow> thread_stats" where
  "account fr current_tsc st =
     (if cf_start_tsc fr > 0 \<and> current_tsc > cf_start_tsc fr
      then let duration = current_tsc - cf_start_tsc fr in
        case cf_state fr of
          Normal \<Rightarrow> st\<lparr>normal_cycles := normal_cycles st + duration\<rparr>
        | Unsafe \<Rightarrow> st\<lparr>unsafe_cycles := unsafe_cycles st + duration\<rparr>
        | ExternalSafe \<Rightarrow> st\<lparr>external_safe_cycles := external_safe_cycles st + duration\<rparr>
        | ExternalUnsafe \<Rightarrow> st\<lparr>external_unsafe_cycles := external_unsafe_cycles st + duration\<rparr>
      else st)"

definition transition_state :: "execution_state \<Rightarrow> cpu \<Rightarrow> (string + unit) \<times> cpu" where
  "transition_state new_state c =
     (case slot_or_init c of
        (None, c) \<Rightarrow> (Inl ''Thread not initialized'', c)
      | (Some slot, c) \<Rightarrow>
          let (current_tsc, c) = read_tsc c;
              depth = stack_depth (loc c)
          in if depth = 0 \<or> depth > MAX_CONTEXT_DEPTH then (Inl ''Invalid stack depth'', c)
             else let stack = context_stack (loc c);
                      c = upd_stats slot (account (stack ! (depth - 1)) current_tsc) c;
                      stack = stack[depth - 1 := \<lparr>cf_state = new_state, cf_start_tsc = current_tsc\<rparr>]
               in (Inr (), c\<lparr>loc := (loc c)\<lparr>context_stack := stack\<rparr>\<rparr>))"

definition push_context :: "execution_state \<Rightarrow> cpu \<Rightarrow> (string + unit) \<times> cpu" where
  "push_context new_state c =
     (case slot_or_init c of
        (None, c) \<Rightarrow> (Inl ''Thread not initialized'', c)
      | (Some slot, c) \<Rightarrow>
          let (current_tsc, c) = read_tsc c;
              depth = stack_depth (loc c)
          in if depth \<ge> MAX_CONTEXT_DEPTH then (Inl ''Context stack overflow'', c)
             else let stack = context_stack (loc c);
                      c = (if depth > 0
                           then upd_stats slot (account (stack ! (depth - 1)) current_tsc) c
                           else c);
                      stack = stack[depth := \<lparr>cf_state = new_state, cf_start_tsc = current_tsc\<rparr>]
               in (Inr (), c\<lparr>loc := (loc c)\<lparr>context_stack := stack, stack_depth := depth + 1\<rparr>\<rparr>))"

definition pop_context :: "cpu \<Rightarrow> (string + unit) \<times> cpu" where
  "pop_context c =
     (case thread_slot (loc c) of
        None \<Rightarrow> (Inl ''Thread not initialized'', c)
      | Some slot \<Rightarrow>
          let (current_tsc, c) = read_tsc c;
              depth = stack_depth (loc c)
          in if depth \<le> 1 then (Inl ''Cannot pop from empty context stack'', c)
             else let stack = context_stack (loc c);
                      c = upd_stats slot (account (stack ! (depth - 1)) current_tsc) c;
                      stack = stack[depth - 2 := (stack ! (depth - 2))\<lparr>cf_start_tsc := current_tsc\<rparr>]
               in (Inr (), c\<lparr>loc := (loc c)\<lparr>context_stack := stack, stack_depth := depth - 1\<rparr>\<rparr>))"

definition thread_cleanup :: "cpu \<Rightarrow> cpu" where
  "thread_cleanup c =
     (case thread_slot (loc c) of
        None \<Rightarrow> c
      | Some slot \<Rightarrow>
          if slot < MAX_THREADS
          then let (final_tsc, c) = read_tsc c;
                   depth = stack_depth (loc c);
                   c = (if depth > 0
                        then upd_stats slot (account (context_stack (loc c) ! (depth - 1)) final_tsc) c
                        else c)
            in upd_stats slot (\<lambda>st. st\<lparr>last_known_tsc := final_tsc, ts_state := Terminated\<rparr>) c
          else c)"

section \<open>The entry points of the instrumentation\<close>

definition record_program_start :: "cpu \<Rightarrow> cpu" where
  "record_program_start c = snd (initialize_thread c)"

definition current_state :: "cpu \<Rightarrow> execution_state" where
  "current_state c =
     (let depth = stack_depth (loc c)
      in if depth > 0 then cf_state (context_stack (loc c) ! (depth - 1)) else Normal)"

fun enter_unsafe :: "execution_state \<Rightarrow> execution_state" where
  "enter_unsafe Normal = Unsafe"
| "enter_unsafe ExternalSafe = ExternalUnsafe"
| "enter_unsafe s = s"

fun leave_unsafe :: "execution_state \<Rightarrow> execution_state" where
  "leave_unsafe Unsafe = Normal"
| "leave_unsafe ExternalUnsafe = ExternalSafe"
| "leave_unsafe s = s"

definition cpu_cycle_start_measurement :: "cpu \<Rightarrow> u64 \<times> cpu" where
  "cpu_cycle_start_measurement c =
     (case slot_or_init c of
        (None, c) \<Rightarrow> (0, c)
      | (Some slot, c) \<Rightarrow>
          let new_state = enter_unsafe (current_state c);
              c = (case transition_state new_state c of
                     (Inr _, c) \<Rightarrow>
                       upd_stats slot (\<lambda>st. st\<lparr>unsafe_blocks_count := unsafe_blocks_count st + 1\<rparr>) c
                   | (Inl _, c) \<Rightarrow> c)
          in read_tsc c)"

definition cpu_cycle_end_measurement :: "u64 \<Rightarrow> cpu \<Rightarrow> cpu" where
  "cpu_cycle_end_measurement t0 c =
     (let new_state = leave_unsafe (current_state c)
      in snd (transition_state new_state c))"

text \<open>The state of an external call, from the state it is made in (the last case is the default).\<close>

fun enter_external :: "execution_state \<Rightarrow> execution_state" where
  "enter_external Normal = ExternalSafe"
| "enter_external Unsafe = ExternalUnsafe"
| "enter_external s = ExternalSafe"

definition external_call_start :: "cpu \<Rightarrow> u64 \<times> cpu" where
  "external_call_start c =
     (case slot_or_init c of
        (None, c) \<Rightarrow> (0, c)
      | (Some slot, c) \<Rightarrow>
          let new_state = (if stack_depth (loc c) > 0 then enter_external (current_state c)
                           else ExternalSafe);
              c = (case push_context new_state c of
                     (Inr _, c) \<Rightarrow>
                       upd_stats slot (\<lambda>st. st\<lparr>external_calls_count := external_calls_count st + 1\<rparr>) c
                   | (Inl _, c) \<Rightarrow> c)
          in read_tsc c)"

definition external_call_end :: "u64 \<Rightarrow> cpu \<Rightarrow> cpu" where
  "external_call_end t0 c = snd (pop_context c)"

text \<open>
  The start routine every interposed thread runs: initialise, run the program's routine,
  clean up.
\<close>

definition thread_start_wrapper :: "(cpu \<Rightarrow> 'r \<times> cpu) \<Rightarrow> cpu \<Rightarrow> 'r \<times> cpu" where
  "thread_start_wrapper routine c =
     (let c = snd (initialize_thread c);
          (result, c) = routine c
      in (result, thread_cleanup c))"

section \<open>Totals and output\<close>

record cycle_totals =
  tot_cycles :: u64
  tot_normal :: u64
  tot_unsafe :: u64
  tot_external_safe :: u64
  tot_external_unsafe :: u64
  tot_unsafe_blocks :: u64
  tot_external_calls :: u64

fun add_slots :: "thread_registry \<Rightarrow> nat list \<Rightarrow> cycle_totals \<Rightarrow> cycle_totals" where
  "add_slots r [] a = a"
| "add_slots r (slot # slots) a =
     (let st = threads r slot in
      if ts_state st = Uninitialized then add_slots r slots a
      else add_slots r slots (a\<lparr>
        tot_normal := tot_normal a + normal_cycles st,
        tot_unsafe := tot_unsafe a + unsafe_cycles st,
        tot_external_safe := tot_external_safe a + external_safe_cycles st,
        tot_external_unsafe := tot_external_unsafe a + external_unsafe_cycles st,
        tot_unsafe_blocks := tot_unsafe_blocks a + unsafe_blocks_count st,
        tot_external_calls := tot_external_calls a + external_calls_count st\<rparr>))"

definition calculate_total_stats :: "thread_registry \<Rightarrow> cycle_totals" where
  "calculate_total_stats r =
     (let a = add_slots r [0..<min (next_slot r) MAX_THREADS]
                \<lparr>tot_cycles = 0, tot_normal = 0, tot_unsafe = 0, tot_external_safe = 0,
                 tot_external_unsafe = 0, tot_unsafe_blocks = 0, tot_external_calls = 0\<rparr>
      in a\<lparr>tot_cycles := tot_normal a + tot_unsafe a + tot_external_safe a + tot_external_unsafe a\<rparr>)"

definition format_cpu_stats :: "cycle_totals \<Rightarrow> string" where
  "format_cpu_stats a =
     (let internal_cycles = tot_normal a + tot_unsafe a;
          external_cycles = tot_external_safe a + tot_external_unsafe a;
          unsafe_percentage =
            (if internal_cycles > 0
             then f64_percent (f64_of_u64 (tot_unsafe a)) (f64_of_u64 internal_cycles)
             else 0)
      in ''\<newline>===== CPU Cycle Statistics =====\<newline>'' @
         ''Total cycles: '' @ show_word (tot_cycles a) @ ''\<newline>'' @
         ''Unsafe cycles: '' @ show_word (tot_unsafe a) @ ''\<newline>'' @
         ''External cycles: '' @ show_word external_cycles @ ''\<newline>'' @
         ''Internal cycles: '' @ show_word internal_cycles @ ''\<newline>'' @
         ''Unsafe percentage: '' @ fmt2 unsafe_percentage @ ''\<newline>'')"

definition cpu_dump_stats :: "'fs os_calls \<Rightarrow> thread_registry \<Rightarrow> 'fs rt \<Rightarrow> 'fs rt" where
  "cpu_dump_stats os r w =
     snd (write_output os (format_cpu_stats (calculate_total_stats r)) ''cpu_cycle.stat'' w)"

definition print_cpu_cycle_stats ::
  "'fs os_calls \<Rightarrow> thread_registry \<Rightarrow> 'fs rt \<Rightarrow> thread_registry \<times> 'fs rt" where
  "print_cpu_cycle_stats os r w =
     (if reg_stats_written r then (r, w)
      else let r = r\<lparr>reg_stats_written := True\<rparr> in (r, cpu_dump_stats os r w))"

section \<open>Frame lemmas\<close>

lemma upd_thread_simps [simp]:
  "threads (upd_thread s f r) k = (if k = s then f (threads r s) else threads r k)"
  "next_slot (upd_thread s f r) = next_slot r"
  "reg_stats_written (upd_thread s f r) = reg_stats_written r"
  by (simp_all add: upd_thread_def)

lemma upd_stats_simps [simp]:
  "reg (upd_stats s f c) = upd_thread s f (reg c)"
  "loc (upd_stats s f c) = loc c" "now (upd_stats s f c) = now c"
  "tsc (upd_stats s f c) = tsc c" "self_id (upd_stats s f c) = self_id c"
  by (simp_all add: upd_stats_def)

lemma account_frame [simp]:
  "ts_state (account fr t st) = ts_state st" "start_tsc (account fr t st) = start_tsc st"
  by (auto simp: account_def Let_def split: execution_state.splits)

definition thread_total :: "thread_stats \<Rightarrow> u64" where
  "thread_total st =
     normal_cycles st + unsafe_cycles st + external_safe_cycles st + external_unsafe_cycles st"

lemma thread_total_simps [simp]:
  "thread_total (st\<lparr>ts_state := x\<rparr>) = thread_total st"
  "thread_total (st\<lparr>last_known_tsc := t\<rparr>) = thread_total st"
  "thread_total (st\<lparr>unsafe_blocks_count := n\<rparr>) = thread_total st"
  "thread_total (st\<lparr>external_calls_count := n\<rparr>) = thread_total st"
  by (simp_all add: thread_total_def)

text \<open>Each elapsed interval is charged once, to one of the four states.\<close>

lemma thread_total_account:
  assumes "0 < cf_start_tsc fr" and "cf_start_tsc fr \<le> t"
  shows "thread_total (account fr t st) = thread_total st + (t - cf_start_tsc fr)"
proof (cases "cf_start_tsc fr = t")
  case False
  with assms have "cf_start_tsc fr < t" by simp
  with assms(1) show ?thesis
    by (cases "cf_state fr") (simp_all add: account_def thread_total_def)
qed (simp add: account_def)

section \<open>Calls of one thread\<close>

datatype cyc_op = Program_start | Unsafe_start | Unsafe_end u64 | Ext_start | Ext_end u64

fun cyc_step :: "cyc_op \<Rightarrow> cpu \<Rightarrow> cpu" where
  "cyc_step Program_start c = record_program_start c"
| "cyc_step Unsafe_start c = snd (cpu_cycle_start_measurement c)"
| "cyc_step (Unsafe_end t) c = cpu_cycle_end_measurement t c"
| "cyc_step Ext_start c = snd (external_call_start c)"
| "cyc_step (Ext_end t) c = external_call_end t c"

text \<open>An initialised thread: it owns a slot and its stack has between 1 and 32 frames.\<close>

definition ready :: "nat \<Rightarrow> cpu \<Rightarrow> bool" where
  "ready s c \<longleftrightarrow> thread_slot (loc c) = Some s \<and>
     length (context_stack (loc c)) = MAX_CONTEXT_DEPTH \<and>
     1 \<le> stack_depth (loc c) \<and> stack_depth (loc c) \<le> MAX_CONTEXT_DEPTH"

definition top_frame :: "cpu \<Rightarrow> context_frame" where
  "top_frame c = context_stack (loc c) ! (stack_depth (loc c) - 1)"

text \<open>The contexts of a thread, innermost first, and what the calls do to them.\<close>

definition contexts :: "cpu \<Rightarrow> execution_state list" where
  "contexts c = rev (map cf_state (take (stack_depth (loc c)) (context_stack (loc c))))"

fun ctx_step :: "cyc_op \<Rightarrow> execution_state list \<Rightarrow> execution_state list" where
  "ctx_step Unsafe_start (s # ss) = enter_unsafe s # ss"
| "ctx_step (Unsafe_end t) (s # ss) = leave_unsafe s # ss"
| "ctx_step Ext_start (s # ss) =
     (if length (s # ss) < MAX_CONTEXT_DEPTH then enter_external s # s # ss else s # ss)"
| "ctx_step (Ext_end t) (s # s' # ss) = s' # ss"
| "ctx_step _ ss = ss"

lemma ready_slot_or_init: "ready s c \<Longrightarrow> slot_or_init c = (Some s, c)"
  by (simp add: ready_def slot_or_init_def)

lemma ready_depth: "ready s c \<Longrightarrow> 0 < stack_depth (loc c)"
  by (simp add: ready_def)

lemma transition_ready:
  assumes "ready s c"
  shows "transition_state ns c = (Inr (), c\<lparr>now := now c + 1,
    reg := upd_thread s (account (top_frame c) (tsc c (now c))) (reg c),
    loc := (loc c)\<lparr>context_stack := (context_stack (loc c))
      [stack_depth (loc c) - 1 := \<lparr>cf_state = ns, cf_start_tsc = tsc c (now c)\<rparr>]\<rparr>\<rparr>)"
  using assms
  by (auto simp: transition_state_def ready_slot_or_init read_tsc_def Let_def upd_stats_def
      top_frame_def ready_def)

lemma push_ready:
  assumes "ready s c"
  shows "push_context ns c =
    (if stack_depth (loc c) < MAX_CONTEXT_DEPTH
     then (Inr (), c\<lparr>now := now c + 1,
       reg := upd_thread s (account (top_frame c) (tsc c (now c))) (reg c),
       loc := (loc c)\<lparr>context_stack := (context_stack (loc c))
         [stack_depth (loc c) := \<lparr>cf_state = ns, cf_start_tsc = tsc c (now c)\<rparr>],
         stack_depth := stack_depth (loc c) + 1\<rparr>\<rparr>)
     else (Inl ''Context stack overflow'', c\<lparr>now := now c + 1\<rparr>))"
  using assms
  by (auto simp: push_context_def ready_slot_or_init read_tsc_def Let_def upd_stats_def
      top_frame_def ready_def)

lemma pop_ready:
  assumes "ready s c"
  shows "pop_context c =
    (if stack_depth (loc c) > 1
     then (Inr (), c\<lparr>now := now c + 1,
       reg := upd_thread s (account (top_frame c) (tsc c (now c))) (reg c),
       loc := (loc c)\<lparr>context_stack := (context_stack (loc c))
         [stack_depth (loc c) - 2 :=
            (context_stack (loc c) ! (stack_depth (loc c) - 2))\<lparr>cf_start_tsc := tsc c (now c)\<rparr>],
         stack_depth := stack_depth (loc c) - 1\<rparr>\<rparr>)
     else (Inl ''Cannot pop from empty context stack'', c\<lparr>now := now c + 1\<rparr>))"
  using assms
  by (auto simp: pop_context_def read_tsc_def Let_def upd_stats_def top_frame_def ready_def)

lemmas ready_ops = transition_ready push_ready pop_ready ready_slot_or_init

lemma initialize_ready: "ready s c \<Longrightarrow> initialize_thread c = (Some s, c)"
  by (simp add: initialize_thread_def ready_def)

text \<open>The effect of each call on an initialised thread, as one state change.\<close>

definition bump_blocks :: "thread_stats \<Rightarrow> thread_stats" where
  "bump_blocks st = st\<lparr>unsafe_blocks_count := unsafe_blocks_count st + 1\<rparr>"

definition bump_calls :: "thread_stats \<Rightarrow> thread_stats" where
  "bump_calls st = st\<lparr>external_calls_count := external_calls_count st + 1\<rparr>"

lemma bump_frame [simp]:
  "ts_state (bump_blocks st) = ts_state st" "ts_state (bump_calls st) = ts_state st"
  "start_tsc (bump_blocks st) = start_tsc st" "start_tsc (bump_calls st) = start_tsc st"
  "thread_total (bump_blocks st) = thread_total st" "thread_total (bump_calls st) = thread_total st"
  by (simp_all add: bump_blocks_def bump_calls_def thread_total_def)

lemma start_ready:
  assumes "ready s c"
  shows "snd (cpu_cycle_start_measurement c) =
    (upd_stats s bump_blocks (snd (transition_state (enter_unsafe (current_state c)) c)))
      \<lparr>now := now c + 2\<rparr>"
  using assms
  by (simp add: cpu_cycle_start_measurement_def ready_ops read_tsc_def upd_stats_def
      bump_blocks_def [abs_def] Let_def)

lemma ext_start_ready:
  assumes "ready s c"
  shows "snd (external_call_start c) =
    ((if stack_depth (loc c) < MAX_CONTEXT_DEPTH then upd_stats s bump_calls else id)
       (snd (push_context (enter_external (current_state c)) c)))\<lparr>now := now c + 2\<rparr>"
  using assms ready_depth [OF assms]
  by (simp add: external_call_start_def ready_ops read_tsc_def upd_stats_def
      bump_calls_def [abs_def] Let_def)

lemma ready_step: "ready s c \<Longrightarrow> ready s (cyc_step op c)"
proof (cases op)
  case Program_start
  then show "ready s c \<Longrightarrow> ready s (cyc_step op c)"
    by (simp add: record_program_start_def initialize_ready)
next
  case Unsafe_start
  then show "ready s c \<Longrightarrow> ready s (cyc_step op c)"
    by (simp add: start_ready transition_ready) (simp add: ready_def)
next
  case (Unsafe_end t)
  then show "ready s c \<Longrightarrow> ready s (cyc_step op c)"
    by (simp add: cpu_cycle_end_measurement_def transition_ready) (simp add: ready_def)
next
  case Ext_start
  then show "ready s c \<Longrightarrow> ready s (cyc_step op c)"
    by (simp add: ext_start_ready push_ready) (auto simp: ready_def)
next
  case (Ext_end t)
  then show "ready s c \<Longrightarrow> ready s (cyc_step op c)"
    by (simp add: external_call_end_def pop_ready) (auto simp: ready_def)
qed

section \<open>The contexts a thread is in\<close>

lemma contexts_split:
  assumes "ready s c"
  shows "contexts c = current_state c # rev (map cf_state (take (stack_depth (loc c) - 1) (context_stack (loc c))))"
    (is "_ = _ # ?rest")
proof -
  from assms obtain d where d: "stack_depth (loc c) = Suc d" "d < length (context_stack (loc c))"
    by (cases "stack_depth (loc c)") (auto simp: ready_def)
  then show ?thesis
    by (simp add: contexts_def current_state_def take_Suc_conv_app_nth)
qed

lemma length_contexts: "ready s c \<Longrightarrow> length (contexts c) = stack_depth (loc c)"
  by (simp add: contexts_def ready_def)

lemma contexts_depth:
  assumes "ready s c"
  obtains d where "stack_depth (loc c) = Suc d" "d < length (context_stack (loc c))"
  using assms by (cases "stack_depth (loc c)") (auto simp: ready_def)

lemma contexts_set_top:
  assumes "ready s c" and "stack_depth (loc c') = stack_depth (loc c)"
    and "context_stack (loc c') = (context_stack (loc c))[stack_depth (loc c) - 1 := fr]"
  shows "contexts c' = cf_state fr # tl (contexts c)"
proof -
  from assms(1) obtain d where d: "stack_depth (loc c) = Suc d" "d < length (context_stack (loc c))"
    by (rule contexts_depth)
  with assms show ?thesis
    by (simp add: contexts_def take_Suc_conv_app_nth)
qed

lemma ctx_step_refines:
  assumes r: "ready s c"
  shows "contexts (cyc_step op c) = ctx_step op (contexts c)"
proof -
  obtain ss where ss: "contexts c = current_state c # ss"
    using contexts_split [OF r] by blast
  show ?thesis
  proof (cases op)
    case Program_start
    then show ?thesis
      using r by (simp add: record_program_start_def initialize_ready ss)
  next
    case Unsafe_start
    have "contexts (cyc_step op c) = enter_unsafe (current_state c) # tl (contexts c)"
      using r by (subst contexts_set_top [OF r]) (auto simp: Unsafe_start start_ready transition_ready)
    then show ?thesis by (simp add: ss Unsafe_start)
  next
    case (Unsafe_end t)
    have "contexts (cyc_step op c) = leave_unsafe (current_state c) # tl (contexts c)"
      using r by (subst contexts_set_top [OF r])
        (auto simp: Unsafe_end cpu_cycle_end_measurement_def transition_ready)
    then show ?thesis by (simp add: ss Unsafe_end)
  next
    case Ext_start
    show ?thesis
    proof (cases "stack_depth (loc c) < MAX_CONTEXT_DEPTH")
      case True
      have "contexts (cyc_step op c) = enter_external (current_state c) # contexts c"
        using r True
        by (simp add: Ext_start ext_start_ready push_ready contexts_def ready_def
            take_Suc_conv_app_nth)
      then show ?thesis
        using True length_contexts [OF r] by (simp add: ss Ext_start)
    next
      case False
      then have "contexts (cyc_step op c) = contexts c"
        using r by (simp add: Ext_start ext_start_ready push_ready contexts_def)
      then show ?thesis
        using False length_contexts [OF r] by (simp add: ss Ext_start)
    qed
  next
    case (Ext_end t)
    show ?thesis
    proof (cases "stack_depth (loc c) > 1")
      case True
      define st where "st = context_stack (loc c)"
      obtain d where d: "stack_depth (loc c) = Suc (Suc d)"
        using less_imp_Suc_add [OF True] by auto
      have len: "Suc d < length st" using r d by (simp add: ready_def st_def)
      have "contexts (cyc_step op c) = rev (map cf_state (take (Suc d)
          (st[d := (st ! d)\<lparr>cf_start_tsc := tsc c (now c)\<rparr>])))"
        using r d by (simp add: Ext_end external_call_end_def pop_ready contexts_def st_def)
      also have "\<dots> = rev (map cf_state (take (Suc d) st))"
        using len by (simp add: take_Suc_conv_app_nth)
      also have "\<dots> = tl (contexts c)"
        using len by (simp add: contexts_def d st_def [symmetric] take_Suc_conv_app_nth)
      finally have "contexts (cyc_step op c) = ss" by (simp add: ss)
      moreover have "ss \<noteq> []"
        using length_contexts [OF r] d by (auto simp: ss)
      ultimately show ?thesis by (cases ss) (simp_all add: ss Ext_end)
    next
      case False
      then have "contexts (cyc_step op c) = contexts c"
        using r by (simp add: Ext_end external_call_end_def pop_ready contexts_def)
      moreover have "ss = []"
        using length_contexts [OF r] False by (cases ss) (simp_all add: ss)
      ultimately show ?thesis by (simp add: ss Ext_end)
    qed
  qed
qed

lemma ready_run: "ready s c \<Longrightarrow> ready s (fold cyc_step ops c)"
  by (induction ops arbitrary: c) (auto intro: ready_step)

lemma ctx_run_refines:
  "ready s c \<Longrightarrow> contexts (fold cyc_step ops c) = fold ctx_step ops (contexts c)"
  by (induction ops arbitrary: c) (auto simp: ready_step ctx_step_refines)

section \<open>Conservation of cycles\<close>

text \<open>A time-stamp counter that never goes back and has left zero.\<close>

definition clock_ok :: "(nat \<Rightarrow> u64) \<Rightarrow> bool" where
  "clock_ok f \<longleftrightarrow> mono f \<and> 0 < f 0"

text \<open>
  Between two calls, the cycles charged so far reach from the thread's start to the start of
  its innermost frame, and that frame started at a reading of the clock already made.
\<close>

definition cyc_inv :: "nat \<Rightarrow> cpu \<Rightarrow> bool" where
  "cyc_inv s c \<longleftrightarrow> ready s c \<and> clock_ok (tsc c) \<and> 0 < now c \<and>
     0 < cf_start_tsc (top_frame c) \<and> cf_start_tsc (top_frame c) \<le> tsc c (now c - 1) \<and>
     start_tsc (threads (reg c) s) \<le> cf_start_tsc (top_frame c) \<and>
     start_tsc (threads (reg c) s) + thread_total (threads (reg c) s) = cf_start_tsc (top_frame c)"

lemma clock_pos: "clock_ok f \<Longrightarrow> 0 < f n"
  by (metis clock_ok_def monoD order_less_le_trans zero_le)

lemma clock_mono: "clock_ok f \<Longrightarrow> m \<le> n \<Longrightarrow> f m \<le> f n"
  by (simp add: clock_ok_def monoD)

text \<open>
  What a transition, a push and a pop have in common: the innermost frame is charged up to a
  new reading, and the frame that is innermost afterwards starts there.
\<close>

lemma cyc_inv_charge:
  assumes "cyc_inv s c" and "ready s c'" and "tsc c' = tsc c" and "now c < now c'"
    and "cf_start_tsc (top_frame c') = tsc c (now c)"
    and "start_tsc (threads (reg c') s) = start_tsc (threads (reg c) s)"
    and "thread_total (threads (reg c') s) =
      thread_total (account (top_frame c) (tsc c (now c)) (threads (reg c) s))"
  shows "cyc_inv s c'"
proof -
  let ?t = "tsc c (now c)" and ?top = "cf_start_tsc (top_frame c)"
  from assms(1) have ok: "clock_ok (tsc c)" and pos: "0 < ?top" and le: "?top \<le> tsc c (now c - 1)"
    and st: "start_tsc (threads (reg c) s) \<le> ?top"
    and sum: "start_tsc (threads (reg c) s) + thread_total (threads (reg c) s) = ?top"
    by (simp_all add: cyc_inv_def)
  have "?top \<le> ?t" using le clock_mono [OF ok, of "now c - 1" "now c"] by simp
  with pos have "thread_total (threads (reg c') s) = thread_total (threads (reg c) s) + (?t - ?top)"
    by (simp add: assms(7) thread_total_account)
  then have "start_tsc (threads (reg c') s) + thread_total (threads (reg c') s) =
      start_tsc (threads (reg c) s) + thread_total (threads (reg c) s) + (?t - ?top)"
    by (simp only: assms(6) add.assoc)
  then have "start_tsc (threads (reg c') s) + thread_total (threads (reg c') s) = ?t"
    by (simp add: sum)
  moreover have "?t \<le> tsc c (now c' - 1)"
    using assms(4) by (intro clock_mono [OF ok]) simp
  ultimately show ?thesis
    using assms st \<open>?top \<le> ?t\<close> ok clock_pos [OF ok, of "now c"]
    by (simp add: cyc_inv_def order_trans [OF st])
qed

lemma cyc_inv_later:
  assumes "cyc_inv s c" and "loc c' = loc c" "tsc c' = tsc c" "now c \<le> now c'"
    and "threads (reg c') s = threads (reg c) s"
  shows "cyc_inv s c'"
proof -
  have "tsc c (now c - 1) \<le> tsc c (now c' - 1)"
    using assms(1,4) by (intro clock_mono) (auto simp: cyc_inv_def)
  with assms show ?thesis
    by (auto simp: cyc_inv_def ready_def top_frame_def intro: order_trans)
qed

lemma cyc_inv_step:
  assumes inv: "cyc_inv s c"
  shows "cyc_inv s (cyc_step op c)"
proof -
  from inv have r: "ready s c" by (simp add: cyc_inv_def)
  note r' = ready_step [OF r, of op]
  from r have len: "stack_depth (loc c) - 1 < length (context_stack (loc c))"
    by (auto simp: ready_def)
  show ?thesis
  proof (cases op)
    case Program_start
    then show ?thesis using inv r by (simp add: record_program_start_def initialize_ready)
  next
    case Unsafe_start
    show ?thesis
      by (rule cyc_inv_charge [OF inv r'])
        (use r len in \<open>simp_all add: Unsafe_start start_ready transition_ready top_frame_def\<close>)
  next
    case (Unsafe_end t)
    show ?thesis
      by (rule cyc_inv_charge [OF inv r'])
        (use r len in \<open>simp_all add: Unsafe_end cpu_cycle_end_measurement_def transition_ready
           top_frame_def\<close>)
  next
    case Ext_start
    show ?thesis
    proof (cases "stack_depth (loc c) < MAX_CONTEXT_DEPTH")
      case True
      with r have "stack_depth (loc c) < length (context_stack (loc c))" by (simp add: ready_def)
      with True show ?thesis
        by (intro cyc_inv_charge [OF inv r'])
          (use r in \<open>simp_all add: Ext_start ext_start_ready push_ready top_frame_def\<close>)
    next
      case False
      then show ?thesis
        by (intro cyc_inv_later [OF inv])
          (use r in \<open>simp_all add: Ext_start ext_start_ready push_ready\<close>)
    qed
  next
    case (Ext_end t)
    show ?thesis
    proof (cases "stack_depth (loc c) > 1")
      case True
      with r len have "stack_depth (loc c) - 2 < length (context_stack (loc c))"
        "stack_depth (loc c) - 1 - 1 = stack_depth (loc c) - 2" by auto
      with True show ?thesis
        by (intro cyc_inv_charge [OF inv r'])
          (use r in \<open>simp_all add: Ext_end external_call_end_def pop_ready top_frame_def\<close>)
    next
      case False
      then show ?thesis
        by (intro cyc_inv_later [OF inv])
          (use r in \<open>simp_all add: Ext_end external_call_end_def pop_ready\<close>)
    qed
  qed
qed

lemma cyc_inv_run: "cyc_inv s c \<Longrightarrow> cyc_inv s (fold cyc_step ops c)"
  by (induction ops arbitrary: c) (auto intro: cyc_inv_step)

section \<open>Slots\<close>

text \<open>Slots beyond \<open>next_slot\<close> were never handed out.\<close>

definition reg_inv :: "thread_registry \<Rightarrow> bool" where
  "reg_inv r \<longleftrightarrow> next_slot r \<le> MAX_THREADS \<and>
     (\<forall>k\<ge>next_slot r. threads r k = thread_stats_new)"

lemma reg_inv_new: "reg_inv registry_new"
  by (simp add: reg_inv_def registry_new_def)

lemma reuse_slot_Some:
  "reuse_slot slots r = Some (s, r') \<Longrightarrow>
   s \<in> set slots \<and> ts_state (threads r s) = Terminated \<and> r' = upd_thread s reset_slot r"
  by (induction slots r rule: reuse_slot.induct) (auto split: if_splits)

text \<open>
  An allocation answers a slot that no running thread has, with statistics at zero, and
  touches no other slot; when it fails the registry is unchanged.
\<close>

lemma allocate_slot_Some:
  assumes "reg_inv r" and "allocate_slot r = (Some s, r')"
  shows "s < MAX_THREADS \<and> s < next_slot r' \<and> next_slot r \<le> next_slot r' \<and> reg_inv r' \<and>
    ts_state (threads r s) \<noteq> Active \<and> threads r' s = thread_stats_new \<and>
    (\<forall>k. k \<noteq> s \<longrightarrow> threads r' k = threads r k)"
proof (cases "reuse_slot [0..<min (next_slot r) MAX_THREADS] r")
  case None
  with assms show ?thesis
    by (auto simp: allocate_slot_def Let_def reg_inv_def thread_stats_new_def split: if_splits)
next
  case (Some p)
  then obtain s0 r0 where p: "p = (s0, r0)" by force
  from Some p assms(2) have "s0 = s" "r0 = r'" by (auto simp: allocate_slot_def)
  with Some p have q: "reuse_slot [0..<min (next_slot r) MAX_THREADS] r = Some (s, r')" by simp
  have "reset_slot st = thread_stats_new" for st
    by (cases st) (simp add: reset_slot_def thread_stats_new_def)
  with reuse_slot_Some [OF q] assms(1) show ?thesis
    by (auto simp: reg_inv_def)
qed

lemma allocate_slot_None:
  "allocate_slot r = (None, r') \<Longrightarrow> r' = r"
  by (auto simp: allocate_slot_def Let_def split: option.splits if_splits)

lemma cyc_inv_init:
  assumes "reg_inv (reg c)" and "thread_slot (loc c) = None"
    and "length (context_stack (loc c)) = MAX_CONTEXT_DEPTH" and "clock_ok (tsc c)"
    and "allocate_slot (reg c) = (Some s, r')"
  shows "cyc_inv s (record_program_start c)"
  using assms allocate_slot_Some [OF assms(1,5)] clock_pos [OF assms(4)]
  by (simp add: cyc_inv_def record_program_start_def initialize_thread_def read_tsc_def Let_def
      ready_def top_frame_def MAX_CONTEXT_DEPTH_def thread_total_def thread_stats_new_def)

section \<open>Several threads\<close>

text \<open>
  The process: one registry, one set of thread-local cells per thread, one clock. A running
  thread makes a call or cleans up and is gone; each is one step.
\<close>

record process =
  p_reg :: thread_registry
  p_loc :: "nat \<Rightarrow> thread_locals"
  p_now :: nat
  p_tsc :: "nat \<Rightarrow> u64"
  p_gone :: "nat set"

definition cpu_of :: "nat \<Rightarrow> process \<Rightarrow> cpu" where
  "cpu_of t p = \<lparr>reg = p_reg p, loc = p_loc p t, now = p_now p, tsc = p_tsc p,
     self_id = of_nat t\<rparr>"

definition put_cpu :: "nat \<Rightarrow> cpu \<Rightarrow> process \<Rightarrow> process" where
  "put_cpu t c p = p\<lparr>p_reg := reg c, p_loc := (p_loc p)(t := loc c), p_now := now c\<rparr>"

definition process_new :: "(nat \<Rightarrow> u64) \<Rightarrow> process" where
  "process_new f = \<lparr>p_reg = registry_new, p_loc = (\<lambda>_. thread_locals_new), p_now = 0,
     p_tsc = f, p_gone = {}\<rparr>"

inductive process_step :: "process \<Rightarrow> process \<Rightarrow> bool" where
  call: "t \<notin> p_gone p \<Longrightarrow> process_step p (put_cpu t (cyc_step op (cpu_of t p)) p)"
| exit: "t \<notin> p_gone p \<Longrightarrow>
     process_step p ((put_cpu t (thread_cleanup (cpu_of t p)) p)\<lparr>p_gone := insert t (p_gone p)\<rparr>)"

inductive_cases process_stepE: "process_step p q"

inductive process_reachable :: "(nat \<Rightarrow> u64) \<Rightarrow> process \<Rightarrow> bool" for f where
  start: "process_reachable f (process_new f)"
| step: "process_reachable f p \<Longrightarrow> process_step p q \<Longrightarrow> process_reachable f q"

text \<open>What a call may do to the registry once its thread has the slot \<open>s\<close>.\<close>

definition touches :: "nat \<Rightarrow> thread_registry \<Rightarrow> thread_registry \<Rightarrow> bool" where
  "touches s r r' \<longleftrightarrow> next_slot r' = next_slot r \<and>
     ts_state (threads r' s) = ts_state (threads r s) \<and>
     (\<forall>k. k \<noteq> s \<longrightarrow> threads r' k = threads r k)"

lemma touches_refl [simp]: "touches s r r"
  by (simp add: touches_def)

lemma touches_step_ready:
  assumes "ready s c"
  shows "touches s (reg c) (reg (cyc_step op c))"
  by (cases op)
    (use assms in \<open>simp_all add: touches_def record_program_start_def initialize_ready start_ready
       transition_ready cpu_cycle_end_measurement_def ext_start_ready push_ready
       external_call_end_def pop_ready\<close>)

lemma initialize_fresh:
  assumes "thread_slot (loc c) = None" and "allocate_slot (reg c) = (Some s, r')"
    and "length (context_stack (loc c)) = MAX_CONTEXT_DEPTH"
  shows "initialize_thread c = (Some s, snd (initialize_thread c))"
    "ready s (snd (initialize_thread c))"
    "next_slot (reg (snd (initialize_thread c))) = next_slot r'"
    "ts_state (threads (reg (snd (initialize_thread c))) s) = Active"
    "\<forall>k. k \<noteq> s \<longrightarrow> threads (reg (snd (initialize_thread c))) k = threads r' k"
  using assms
  by (simp_all add: initialize_thread_def read_tsc_def Let_def ready_def MAX_CONTEXT_DEPTH_def)

lemma initialize_full:
  assumes "thread_slot (loc c) = None" and "allocate_slot (reg c) = (None, r')"
  shows "initialize_thread c = (None, c)"
  using assms allocate_slot_None [OF assms(2)] by (simp add: initialize_thread_def)

text \<open>
  A call of an uninitialised thread first initialises it and then acts as on an initialised
  one; \<open>external_call_end\<close> alone does not initialise.
\<close>

lemma cyc_step_uninit:
  assumes "thread_slot (loc c) = None" and "initialize_thread c = (Some s, c1)" and "ready s c1"
    and "\<forall>t. op \<noteq> Ext_end t" and "stack_depth (loc c) = 0"
  shows "\<exists>op'. cyc_step op c = cyc_step op' c1 \<or>
    (\<exists>ns. cyc_step op c = snd (transition_state ns c1))"
proof -
  note r = ready_slot_or_init [OF assms(3)]
  have so: "slot_or_init c = (Some s, c1)" using assms(1,2) by (simp add: slot_or_init_def)
  show ?thesis
  proof (cases op)
    case Program_start
    have "cyc_step op c = cyc_step Program_start c1"
      using assms(2,3) by (simp add: Program_start record_program_start_def initialize_ready)
    then show ?thesis by blast
  next
    case Unsafe_start
    have "cyc_step op c = cyc_step Unsafe_start c1"
      by (simp add: Unsafe_start cpu_cycle_start_measurement_def so r)
    then show ?thesis by blast
  next
    case (Unsafe_end t)
    have "cyc_step op c = snd (transition_state Normal c1)"
      using assms(5)
      by (simp add: Unsafe_end cpu_cycle_end_measurement_def current_state_def
          transition_state_def so r)
    then show ?thesis by blast
  next
    case Ext_start
    have "cyc_step op c = cyc_step Ext_start c1"
      by (simp add: Ext_start external_call_start_def so r)
    then show ?thesis by blast
  next
    case (Ext_end t)
    with assms(4) show ?thesis by blast
  qed
qed

lemma cyc_step_ext_end_uninit:
  "thread_slot (loc c) = None \<Longrightarrow> cyc_step (Ext_end t) c = c"
  by (simp add: external_call_end_def pop_context_def)

lemma cyc_step_full:
  assumes "thread_slot (loc c) = None" and "initialize_thread c = (None, c)"
  shows "cyc_step op c = c"
  using assms
  by (cases op)
    (simp_all add: record_program_start_def cpu_cycle_start_measurement_def
      cpu_cycle_end_measurement_def external_call_start_def slot_or_init_def
      transition_state_def cyc_step_ext_end_uninit del: cyc_step.simps(5))

text \<open>Thread-local cells are untouched (fresh) or those of an initialised thread.\<close>

definition loc_ok :: "thread_locals \<Rightarrow> bool" where
  "loc_ok l \<longleftrightarrow> length (context_stack l) = MAX_CONTEXT_DEPTH \<and>
     (if thread_slot l = None then stack_depth l = 0
      else 1 \<le> stack_depth l \<and> stack_depth l \<le> MAX_CONTEXT_DEPTH)"

lemma ready_loc: "ready s c \<longleftrightarrow> loc_ok (loc c) \<and> thread_slot (loc c) = Some s"
  by (auto simp: ready_def loc_ok_def)

text \<open>
  What one call does: nothing to the slots, or it acts within the thread's own slot, or it
  takes a slot nobody uses.
\<close>

lemma cyc_step_effect:
  assumes "loc_ok (loc c)" and "reg_inv (reg c)"
  shows "loc_ok (loc (cyc_step op c)) \<and>
    (loc (cyc_step op c) = loc c \<and> reg (cyc_step op c) = reg c \<or>
     (\<exists>s. thread_slot (loc c) = Some s \<and> ready s (cyc_step op c) \<and>
        touches s (reg c) (reg (cyc_step op c))) \<or>
     (\<exists>s r1. thread_slot (loc c) = None \<and> ready s (cyc_step op c) \<and>
        allocate_slot (reg c) = (Some s, r1) \<and> next_slot (reg (cyc_step op c)) = next_slot r1 \<and>
        ts_state (threads (reg (cyc_step op c)) s) = Active \<and>
        (\<forall>k. k \<noteq> s \<longrightarrow> threads (reg (cyc_step op c)) k = threads r1 k)))"
proof (cases "thread_slot (loc c)")
  case (Some s)
  with assms(1) have r: "ready s c" by (simp add: ready_loc)
  have "ready s (cyc_step op c)" by (rule ready_step [OF r])
  moreover from this have "loc_ok (loc (cyc_step op c))" by (simp add: ready_loc)
  ultimately show ?thesis using Some touches_step_ready [OF r] by auto
next
  case None
  with assms(1) have l: "stack_depth (loc c) = 0" "length (context_stack (loc c)) = MAX_CONTEXT_DEPTH"
    by (simp_all add: loc_ok_def)
  obtain so r1 where al: "allocate_slot (reg c) = (so, r1)" by force
  show ?thesis
  proof (cases "(\<exists>t. op = Ext_end t) \<or> so = None")
    case True
    then have "cyc_step op c = c"
      using cyc_step_ext_end_uninit [OF None] al
        cyc_step_full [OF None initialize_full [OF None]] by auto
    then show ?thesis using assms(1) by simp
  next
    case False
    then obtain s where al: "allocate_slot (reg c) = (Some s, r1)" using al by auto
    let ?c1 = "snd (initialize_thread c)"
    note init = initialize_fresh [OF None al l(2)]
    from cyc_step_uninit [OF None init(1,2) _ l(1)] False obtain op' where
      "cyc_step op c = cyc_step op' ?c1 \<or> (\<exists>ns. cyc_step op c = snd (transition_state ns ?c1))"
      by blast
    then have "ready s (cyc_step op c) \<and> touches s (reg ?c1) (reg (cyc_step op c))"
    proof
      assume "cyc_step op c = cyc_step op' ?c1"
      then show ?thesis by (simp add: ready_step init(2) touches_step_ready del: cyc_step.simps)
    next
      assume "\<exists>ns. cyc_step op c = snd (transition_state ns ?c1)"
      then show ?thesis
        using init(2) by (auto simp: transition_ready touches_def) (auto simp: ready_def)
    qed
    then show ?thesis
      using None al init(3-5) by (auto simp: ready_loc touches_def)
  qed
qed

section \<open>No two running threads share a slot\<close>

definition process_inv :: "process \<Rightarrow> bool" where
  "process_inv p \<longleftrightarrow> reg_inv (p_reg p) \<and>
     (\<forall>t. t \<notin> p_gone p \<longrightarrow> loc_ok (p_loc p t)) \<and>
     (\<forall>t s. t \<notin> p_gone p \<longrightarrow> thread_slot (p_loc p t) = Some s \<longrightarrow>
        s < next_slot (p_reg p) \<and> ts_state (threads (p_reg p) s) = Active) \<and>
     (\<forall>t u s. t \<notin> p_gone p \<longrightarrow> u \<notin> p_gone p \<longrightarrow> thread_slot (p_loc p t) = Some s \<longrightarrow>
        thread_slot (p_loc p u) = Some s \<longrightarrow> t = u)"

lemma process_inv_new: "process_inv (process_new f)"
  by (simp add: process_inv_def process_new_def reg_inv_new loc_ok_def thread_locals_new_def)

lemma reg_inv_touches: "reg_inv r \<Longrightarrow> touches s r r' \<Longrightarrow> s < next_slot r \<Longrightarrow> reg_inv r'"
  by (auto simp: reg_inv_def touches_def)

text \<open>
  The three ways a call can change the process: not at all, within the slot its thread owns,
  or by taking a slot that no thread is running in.
\<close>

lemma process_inv_own:
  assumes inv: "process_inv p" and t: "t \<notin> p_gone p" and slot: "thread_slot (p_loc p t) = Some s"
    and q: "p_gone q = p_gone p" "p_loc q = (p_loc p)(t := l)" "touches s (p_reg p) (p_reg q)"
    and l: "loc_ok l" "thread_slot l = Some s"
  shows "process_inv q"
proof -
  have s: "s < next_slot (p_reg p)" "ts_state (threads (p_reg p) s) = Active"
    using inv t slot by (auto simp: process_inv_def)
  have "reg_inv (p_reg q)"
    using inv q(3) s(1) by (auto simp: process_inv_def intro: reg_inv_touches)
  moreover have "ts_state (threads (p_reg q) k) = ts_state (threads (p_reg p) k)" for k
    using q(3) by (cases "k = s") (auto simp: touches_def)
  moreover have "next_slot (p_reg q) = next_slot (p_reg p)" using q(3) by (simp add: touches_def)
  moreover have "thread_slot (p_loc q u) = thread_slot (p_loc p u)" for u
    using q(2) l(2) slot by simp
  moreover have "loc_ok (p_loc q u)" if "u \<notin> p_gone p" for u
    using inv that q(2) l(1) by (auto simp: process_inv_def)
  ultimately show ?thesis
    using inv q(1) by (auto simp: process_inv_def)
qed

lemma process_inv_take:
  assumes inv: "process_inv p" and t: "t \<notin> p_gone p"
    and al: "allocate_slot (p_reg p) = (Some s, r1)"
    and q: "p_gone q = p_gone p" "p_loc q = (p_loc p)(t := l)" "next_slot (p_reg q) = next_slot r1"
      "ts_state (threads (p_reg q) s) = Active"
      "\<forall>k. k \<noteq> s \<longrightarrow> threads (p_reg q) k = threads r1 k"
    and l: "loc_ok l" "thread_slot l = Some s"
  shows "process_inv q"
proof -
  have ri: "reg_inv (p_reg p)" using inv by (simp add: process_inv_def)
  note a = allocate_slot_Some [OF ri al]
  have other: "k \<noteq> s \<and> k < next_slot (p_reg q) \<and> ts_state (threads (p_reg q) k) = Active"
    if "u \<notin> p_gone p" "thread_slot (p_loc p u) = Some k" for u k
  proof -
    have k: "k < next_slot (p_reg p)" "ts_state (threads (p_reg p) k) = Active"
      using inv that by (auto simp: process_inv_def)
    with a have "k \<noteq> s" by auto
    with k a q(3,5) show ?thesis by simp
  qed
  have "reg_inv (p_reg q)" using a q(3,5) by (auto simp: reg_inv_def)
  moreover have "u \<notin> p_gone q \<longrightarrow> loc_ok (p_loc q u)" for u
    using inv q(1,2) l(1) by (auto simp: process_inv_def)
  moreover have "k < next_slot (p_reg q) \<and> ts_state (threads (p_reg q) k) = Active"
    if "u \<notin> p_gone q" "thread_slot (p_loc q u) = Some k" for u k
    using other [of u k] that q a l(2) by (cases "u = t") auto
  moreover have "u = v"
    if "u \<notin> p_gone q" "v \<notin> p_gone q" "thread_slot (p_loc q u) = Some k"
      "thread_slot (p_loc q v) = Some k" for u v k
    using other [of u k] other [of v k] that q(1,2) l(2) inv
    by (cases "u = t"; cases "v = t") (auto simp: process_inv_def)
  ultimately show ?thesis unfolding process_inv_def by blast
qed

lemma process_inv_call:
  assumes inv: "process_inv p" and t: "t \<notin> p_gone p"
  shows "process_inv (put_cpu t (cyc_step op (cpu_of t p)) p)"
proof -
  let ?c = "cpu_of t p" and ?c' = "cyc_step op (cpu_of t p)"
  have c: "reg ?c = p_reg p" "loc ?c = p_loc p t" by (simp_all add: cpu_of_def)
  from inv t have "loc_ok (loc ?c)" "reg_inv (reg ?c)" by (simp_all add: process_inv_def c)
  note eff = cyc_step_effect [OF this, of op]
  from eff consider
      (same) "loc ?c' = loc ?c" "reg ?c' = reg ?c"
    | (own) s where "thread_slot (p_loc p t) = Some s" "ready s ?c'" "touches s (p_reg p) (reg ?c')"
    | (take) s r1 where "ready s ?c'" "allocate_slot (p_reg p) = (Some s, r1)"
        "next_slot (reg ?c') = next_slot r1" "ts_state (threads (reg ?c') s) = Active"
        "\<forall>k. k \<noteq> s \<longrightarrow> threads (reg ?c') k = threads r1 k"
    unfolding c by blast
  then show ?thesis
  proof cases
    case same
    then show ?thesis using inv by (simp add: c put_cpu_def process_inv_def)
  next
    case (own s)
    then show ?thesis
      by (intro process_inv_own [OF inv t own(1), where l = "loc ?c'"])
        (simp_all add: put_cpu_def ready_loc)
  next
    case (take s r1)
    then show ?thesis
      by (intro process_inv_take [OF inv t take(2), where l = "loc ?c'"])
        (simp_all add: put_cpu_def ready_loc)
  qed
qed

lemma thread_cleanup_touch:
  assumes "thread_slot (loc c) = Some s"
  shows "next_slot (reg (thread_cleanup c)) = next_slot (reg c) \<and> loc (thread_cleanup c) = loc c \<and>
    (\<forall>k. k \<noteq> s \<longrightarrow> threads (reg (thread_cleanup c)) k = threads (reg c) k)"
  using assms by (simp add: thread_cleanup_def read_tsc_def Let_def)

lemma process_inv_exit:
  assumes inv: "process_inv p" and t: "t \<notin> p_gone p"
  shows "process_inv ((put_cpu t (thread_cleanup (cpu_of t p)) p)\<lparr>p_gone := insert t (p_gone p)\<rparr>)"
    (is "process_inv ?q")
proof (cases "thread_slot (p_loc p t)")
  case None
  then have "thread_cleanup (cpu_of t p) = cpu_of t p" by (simp add: thread_cleanup_def cpu_of_def)
  then have "p_reg ?q = p_reg p" "p_loc ?q = p_loc p" "p_gone ?q = insert t (p_gone p)"
    by (simp_all add: put_cpu_def cpu_of_def)
  with inv show ?thesis unfolding process_inv_def by auto
next
  case (Some s)
  let ?c = "thread_cleanup (cpu_of t p)"
  have tc: "next_slot (reg ?c) = next_slot (p_reg p)" "loc ?c = p_loc p t"
    "\<forall>k. k \<noteq> s \<longrightarrow> threads (reg ?c) k = threads (p_reg p) k"
    using thread_cleanup_touch [of "cpu_of t p" s] Some by (simp_all add: cpu_of_def)
  have q: "p_reg ?q = reg ?c" "p_loc ?q = p_loc p" "p_gone ?q = insert t (p_gone p)"
    using tc(2) by (simp_all add: put_cpu_def)
  have "s < next_slot (p_reg p)" using inv t Some by (auto simp: process_inv_def)
  with inv tc have "reg_inv (reg ?c)" by (auto simp: process_inv_def reg_inv_def)
  moreover have "k \<noteq> s" if "u \<notin> insert t (p_gone p)" "thread_slot (p_loc p u) = Some k" for u k
    using inv t Some that by (auto simp: process_inv_def)
  then have "ts_state (threads (reg ?c) k) = Active"
    if "u \<notin> insert t (p_gone p)" "thread_slot (p_loc p u) = Some k" for u k
    using tc(3) inv that by (auto simp: process_inv_def)
  ultimately show ?thesis
    using inv unfolding process_inv_def q tc(1) by blast
qed

lemma process_inv_step: "process_step p q \<Longrightarrow> process_inv p \<Longrightarrow> process_inv q"
  by (erule process_stepE) (auto intro: process_inv_call process_inv_exit)

lemma process_inv_reachable: "process_reachable f p \<Longrightarrow> process_inv p"
  by (induction rule: process_reachable.induct) (auto intro: process_inv_new process_inv_step)

section \<open>Well-nested instrumentation\<close>

text \<open>
  The calls one activation makes: unsafe blocks and external calls, nested. A block is
  well placed when it opens in a safe state, \<open>Normal\<close> or \<open>ExternalSafe\<close>, and an external call when
  the context stack has room.
\<close>

datatype cyc_tree = Block "cyc_tree list" | Call "cyc_tree list"

fun tree_ops :: "cyc_tree \<Rightarrow> cyc_op list" where
  "tree_ops (Block ts) = Unsafe_start # concat (map tree_ops ts) @ [Unsafe_end 0]"
| "tree_ops (Call ts) = Ext_start # concat (map tree_ops ts) @ [Ext_end 0]"

fun tree_ok :: "execution_state \<Rightarrow> nat \<Rightarrow> cyc_tree \<Rightarrow> bool" where
  "tree_ok s d (Block ts) =
     ((s = Normal \<or> s = ExternalSafe) \<and> list_all (tree_ok (enter_unsafe s) d) ts)"
| "tree_ok s d (Call ts) =
     (d < MAX_CONTEXT_DEPTH \<and> list_all (tree_ok (enter_external s) (Suc d)) ts)"

lemma leave_enter_unsafe: "s = Normal \<or> s = ExternalSafe \<Longrightarrow> leave_unsafe (enter_unsafe s) = s"
  by auto

lemma trees_restore:
  assumes "\<And>t. t \<in> set ts \<Longrightarrow> fold ctx_step (tree_ops t) cs = cs"
  shows "fold ctx_step (concat (map tree_ops ts)) cs = cs"
  using assms by (induction ts) auto

lemma tree_restores:
  "tree_ok s d t \<Longrightarrow> d = length (s # ss) \<Longrightarrow> fold ctx_step (tree_ops t) (s # ss) = s # ss"
proof (induction t arbitrary: s d ss)
  case (Block ts)
  then have "fold ctx_step (concat (map tree_ops ts)) (enter_unsafe s # ss) = enter_unsafe s # ss"
    by (intro trees_restore) (auto simp: list_all_iff)
  with Block.prems show ?case by (simp add: leave_enter_unsafe)
next
  case (Call ts)
  then have "fold ctx_step (concat (map tree_ops ts)) (enter_external s # s # ss) =
      enter_external s # s # ss"
    by (intro trees_restore) (auto simp: list_all_iff)
  with Call.prems show ?case by simp
qed

lemma contexts_init:
  assumes "cyc_inv s c" and "stack_depth (loc c) = 1" and "cf_state (top_frame c) = Normal"
  shows "contexts c = [Normal]"
  using assms by (cases "context_stack (loc c)")
    (auto simp: contexts_def top_frame_def cyc_inv_def ready_def MAX_CONTEXT_DEPTH_def)

text \<open>A thread about to make its first call, with a slot left for it.\<close>

definition fresh_thread :: "nat \<Rightarrow> cpu \<Rightarrow> bool" where
  "fresh_thread s c \<longleftrightarrow> reg_inv (reg c) \<and> thread_slot (loc c) = None \<and>
     length (context_stack (loc c)) = MAX_CONTEXT_DEPTH \<and> clock_ok (tsc c) \<and>
     fst (allocate_slot (reg c)) = Some s"

lemma fresh_init: "fresh_thread s c \<Longrightarrow> cyc_inv s (record_program_start c)"
  by (cases "allocate_slot (reg c)") (auto simp: fresh_thread_def intro: cyc_inv_init)

lemma fresh_contexts: "fresh_thread s c \<Longrightarrow> contexts (record_program_start c) = [Normal]"
proof -
  assume f: "fresh_thread s c"
  obtain r' where al: "allocate_slot (reg c) = (Some s, r')"
    using f by (cases "allocate_slot (reg c)") (auto simp: fresh_thread_def)
  show ?thesis
    by (rule contexts_init [OF fresh_init [OF f]])
      (use f al in \<open>simp_all add: fresh_thread_def record_program_start_def initialize_thread_def
         read_tsc_def Let_def top_frame_def MAX_CONTEXT_DEPTH_def\<close>)
qed

text \<open>The process of the witnesses: a clock that ticks by one from 100.\<close>

definition main_cpu :: cpu where
  "main_cpu = \<lparr>reg = registry_new, loc = thread_locals_new, now = 0,
     tsc = (\<lambda>n. if n < 1000 then 100 + of_nat n else 2000), self_id = 7\<rparr>"

lemma main_cpu_clock: "clock_ok (tsc main_cpu)"
proof -
  have "(100 + of_nat m :: u64) \<le> 100 + of_nat n \<and> (100 + of_nat m :: u64) \<le> 2000"
    if "m \<le> n" "n < 1000" for m n :: nat
    using that by (simp add: word_le_nat_alt unat_word_ariths unat_of_nat)
  moreover have "(100 + of_nat m :: u64) \<le> 2000" if "m < 1000" for m :: nat
    using that by (simp add: word_le_nat_alt unat_word_ariths unat_of_nat)
  ultimately show ?thesis
    by (auto simp: clock_ok_def main_cpu_def intro!: monoI)
qed

lemma main_cpu_fresh: "fresh_thread 0 main_cpu"
  using main_cpu_clock
  by (simp add: fresh_thread_def main_cpu_def reg_inv_def thread_locals_new_def allocate_slot_def
      registry_new_def MAX_THREADS_def)

section \<open>Totals\<close>

definition counted :: "thread_registry \<Rightarrow> nat \<Rightarrow> u64" where
  "counted r k = (if ts_state (threads r k) = Uninitialized then 0 else thread_total (threads r k))"

lemma add_slots_total:
  "tot_normal (add_slots r ks a) + tot_unsafe (add_slots r ks a)
    + tot_external_safe (add_slots r ks a) + tot_external_unsafe (add_slots r ks a)
   = tot_normal a + tot_unsafe a + tot_external_safe a + tot_external_unsafe a
    + sum_list (map (counted r) ks)"
proof (induction r ks a rule: add_slots.induct)
  case (2 r slot slots a)
  then show ?case
    by (cases "ts_state (threads r slot) = Uninitialized")
      (simp_all add: counted_def thread_total_def Let_def algebra_simps)
qed simp

lemma total_cycles_sum:
  "reg_inv r \<Longrightarrow> tot_cycles (calculate_total_stats r) = (\<Sum>k<next_slot r. counted r k)"
  by (simp add: calculate_total_stats_def Let_def add_slots_total reg_inv_def min_def
      interv_sum_list_conv_sum_set_nat atLeast0LessThan)

lemma counted_beyond: "reg_inv r \<Longrightarrow> next_slot r \<le> k \<Longrightarrow> counted r k = 0"
  by (simp add: counted_def reg_inv_def thread_stats_new_def)

lemma total_extend:
  "reg_inv r \<Longrightarrow> next_slot r \<le> n \<Longrightarrow> (\<Sum>k<next_slot r. counted r k) = (\<Sum>k<n. counted r k)"
  by (rule sum.mono_neutral_left) (auto simp: counted_beyond)

lemma reset_keeps_written:
  "reg_stats_written (snd (allocate_slot r)) = reg_stats_written r"
proof -
  have "reuse_slot ks r = Some (s, r') \<Longrightarrow> reg_stats_written r' = reg_stats_written r" for ks s r'
    by (drule reuse_slot_Some) simp
  then show ?thesis by (auto simp: allocate_slot_def Let_def split: option.splits)
qed

lemma written_initialize [simp]:
  "reg_stats_written (reg (snd (initialize_thread c))) = reg_stats_written (reg c)"
  using reset_keeps_written [of "reg c"]
  by (auto simp: initialize_thread_def read_tsc_def Let_def split: option.splits prod.splits)

lemma written_slot_or_init:
  "reg_stats_written (reg (snd (slot_or_init c))) = reg_stats_written (reg c)"
  by (simp add: slot_or_init_def split: option.splits)

lemma written_transition [simp]:
  "reg_stats_written (reg (snd (transition_state ns c))) = reg_stats_written (reg c)"
  using written_slot_or_init [of c]
  by (auto simp: transition_state_def read_tsc_def Let_def split: option.splits prod.splits)

lemma written_push [simp]:
  "reg_stats_written (reg (snd (push_context ns c))) = reg_stats_written (reg c)"
  using written_slot_or_init [of c]
  by (auto simp: push_context_def read_tsc_def Let_def split: option.splits prod.splits)

lemma written_pop [simp]:
  "reg_stats_written (reg (snd (pop_context c))) = reg_stats_written (reg c)"
  by (auto simp: pop_context_def read_tsc_def Let_def split: option.splits prod.splits)

lemma written_step: "reg_stats_written (reg (cyc_step op c)) = reg_stats_written (reg c)"
proof (cases op)
  case Unsafe_start
  obtain so c1 where c1: "slot_or_init c = (so, c1)" by force
  obtain e c2 where c2: "transition_state (enter_unsafe (current_state c1)) c1 = (e, c2)" by force
  have "reg_stats_written (reg c1) = reg_stats_written (reg c)"
    "reg_stats_written (reg c2) = reg_stats_written (reg c1)"
    using written_slot_or_init [of c] written_transition [of "enter_unsafe (current_state c1)" c1]
    by (simp_all add: c1 c2)
  then show ?thesis
    by (cases so; cases e)
      (simp_all add: Unsafe_start cpu_cycle_start_measurement_def c1 c2 read_tsc_def Let_def)
next
  case Ext_start
  obtain so c1 where c1: "slot_or_init c = (so, c1)" by force
  define ns where "ns = (if stack_depth (loc c1) > 0 then enter_external (current_state c1)
                           else ExternalSafe)"
  obtain e c2 where c2: "push_context ns c1 = (e, c2)" by force
  have "reg_stats_written (reg c1) = reg_stats_written (reg c)"
    "reg_stats_written (reg c2) = reg_stats_written (reg c1)"
    using written_slot_or_init [of c] written_push [of ns c1]
    by (simp_all add: c1 c2)
  then show ?thesis
    by (cases so; cases e)
      (simp_all add: Ext_start external_call_start_def c1 c2 ns_def [symmetric] read_tsc_def Let_def)
qed (simp_all add: record_program_start_def cpu_cycle_end_measurement_def external_call_end_def Let_def)

definition cpu_print :: "'fs os_calls \<Rightarrow> cpu \<Rightarrow> 'fs rt \<Rightarrow> (cpu \<times> 'fs rt) option" where
  "cpu_print os c w =
     (let (r, w) = print_cpu_cycle_stats os (reg c) w in Some (c\<lparr>reg := r\<rparr>, w))"

interpretation cpu_once: dump_once "\<lambda>op c. Some (cyc_step op c)" "cpu_print os"
  "\<lambda>c. reg_stats_written (reg c)" for os :: "'fs os_calls"
  by unfold_locales
    (auto simp: cpu_print_def print_cpu_cycle_stats_def Let_def written_step split: if_splits)

section \<open>Properties\<close>

text \<open>
  No cycle is lost or charged twice. On a clock that does not go back, a thread that
  starts, makes any sequence of instrumentation calls (balanced or not, past the depth limit
  or not) and cleans up ends in a terminated slot whose four counters add up to exactly the
  time from its start to its clean-up.
\<close>

theorem cycles_conserved:
  assumes "fresh_thread s c"
  shows "let st = threads (reg (thread_cleanup (fold cyc_step ops (record_program_start c)))) s
    in ts_state st = Terminated \<and> start_tsc st \<le> last_known_tsc st \<and>
       thread_total st = last_known_tsc st - start_tsc st"
proof -
  define d where "d = fold cyc_step ops (record_program_start c)"
  have inv: "cyc_inv s d" unfolding d_def by (rule cyc_inv_run [OF fresh_init [OF assms]])
  let ?t = "tsc d (now d)"
  have ok: "clock_ok (tsc d)" and r: "ready s d" using inv by (auto simp: cyc_inv_def)
  have le: "cf_start_tsc (top_frame d) \<le> ?t"
    using inv clock_mono [OF ok, of "now d - 1" "now d"] by (auto simp: cyc_inv_def)
  obtain r' where "allocate_slot (reg c) = (Some s, r')"
    using assms by (cases "allocate_slot (reg c)") (auto simp: fresh_thread_def)
  then have s: "s < MAX_THREADS"
    using assms allocate_slot_Some [of "reg c" s r'] by (auto simp: fresh_thread_def)
  have "threads (reg (thread_cleanup d)) s =
      (account (top_frame d) ?t (threads (reg d) s))\<lparr>last_known_tsc := ?t, ts_state := Terminated\<rparr>"
    using r s by (simp add: thread_cleanup_def ready_def read_tsc_def Let_def top_frame_def)
  moreover have "thread_total (account (top_frame d) ?t (threads (reg d) s)) =
      ?t - start_tsc (threads (reg d) s)"
    using inv le by (simp add: thread_total_account cyc_inv_def algebra_simps)
  moreover have "start_tsc (threads (reg d) s) \<le> ?t"
    using inv le by (auto simp: cyc_inv_def)
  ultimately show ?thesis by (simp add: Let_def d_def [symmetric])
qed

theorem cycles_conserved_witness:
  "let st = threads (reg (thread_cleanup (fold cyc_step [Unsafe_start, Ext_start, Ext_end 0]
       (record_program_start main_cpu)))) 0
   in ts_state st = Terminated \<and> start_tsc st \<le> last_known_tsc st \<and>
      thread_total st = last_known_tsc st - start_tsc st"
  by (rule cycles_conserved [OF main_cpu_fresh])

text \<open>
  C5. The array of frames with its depth implements a stack of execution states: on an
  initialised thread every call acts on the contexts as the abstract machine \<open>ctx_step\<close>
  does (a block switches the innermost state, an external call pushes one while fewer than 32
  are open, its end pops one but never the outermost).
\<close>

theorem contexts_refine:
  assumes "fresh_thread s c"
  shows "contexts (fold cyc_step ops (record_program_start c)) = fold ctx_step ops [Normal]"
  using ctx_run_refines [of s "record_program_start c" ops] fresh_init [OF assms]
  by (simp add: cyc_inv_def fresh_contexts [OF assms])

theorem contexts_refine_witness:
  "contexts (fold cyc_step [Unsafe_start, Ext_start] (record_program_start main_cpu)) =
   [ExternalUnsafe, Unsafe]"
  by (simp add: contexts_refine [OF main_cpu_fresh] MAX_CONTEXT_DEPTH_def del: fold.simps cyc_step.simps)
    (simp add: MAX_CONTEXT_DEPTH_def)

text \<open>
  C21. Well-nested instrumentation is accounted where it started: a tree of blocks and calls leaves
  a thread that has its slot in the contexts it found it in when every unsafe block in it opens in a safe state
  (\<open>Normal\<close>, or \<open>ExternalSafe\<close> inside a call) and every external call in it opens below the depth
  limit. So a block inside a block of the same context is excluded, and so is a block in the
  callee of a call made from an unsafe block, whose state is \<open>ExternalUnsafe\<close>.
\<close>

theorem well_nested_restores:
  assumes "ready s c" and "tree_ok (current_state c) (stack_depth (loc c)) t"
  shows "contexts (fold cyc_step (tree_ops t) c) = contexts c"
proof -
  obtain ss where ss: "contexts c = current_state c # ss"
    using contexts_split [OF assms(1)] by blast
  have "stack_depth (loc c) = length (current_state c # ss)"
    using length_contexts [OF assms(1)] by (simp add: ss)
  from tree_restores [OF assms(2) this] show ?thesis
    by (simp add: ctx_run_refines [OF assms(1)] ss)
qed

theorem well_nested_restores_witness:
  "contexts (fold cyc_step (tree_ops (Block [Call [], Call [Call []]])) (record_program_start main_cpu))
    = [Normal]"
proof -
  let ?c = "record_program_start main_cpu"
  have r: "ready 0 ?c" using fresh_init [OF main_cpu_fresh] by (simp add: cyc_inv_def)
  note n = fresh_contexts [OF main_cpu_fresh]
  have "stack_depth (loc ?c) = 1" using length_contexts [OF r] n by simp
  moreover have "current_state ?c = Normal" using contexts_split [OF r] n by simp
  ultimately show ?thesis
    using n by (subst well_nested_restores [OF r]) (simp_all add: MAX_CONTEXT_DEPTH_def)
qed

text \<open>
  C36. Outside that discipline the attribution drifts. The end of an inner unsafe block puts
  the rest of the outer one into the safe state; and at the depth limit a call's start is
  dropped while its end still pops, so the caller's context is lost.
\<close>

theorem misnested_drifts:
  assumes "ready s c"
  shows "(current_state c = Normal \<longrightarrow>
      current_state (fold cyc_step [Unsafe_start, Unsafe_start, Unsafe_end 0] c) = Normal) \<and>
    (stack_depth (loc c) = MAX_CONTEXT_DEPTH \<longrightarrow>
      contexts (fold cyc_step [Ext_start, Ext_end 0] c) = tl (contexts c))"
proof -
  obtain ss where ss: "contexts c = current_state c # ss"
    using contexts_split [OF assms] by blast
  have "current_state (fold cyc_step [Unsafe_start, Unsafe_start, Unsafe_end 0] c) = Normal"
    if "current_state c = Normal"
  proof -
    let ?c = "fold cyc_step [Unsafe_start, Unsafe_start, Unsafe_end 0] c"
    have "contexts ?c = Normal # ss"
      by (simp only: ctx_run_refines [OF assms] ss that) simp
    then show ?thesis
      using contexts_split [OF ready_run [OF assms, of "[Unsafe_start, Unsafe_start, Unsafe_end 0]"]]
      by (simp only: list.inject)
  qed
  moreover have "contexts (fold cyc_step [Ext_start, Ext_end 0] c) = tl (contexts c)"
    if "stack_depth (loc c) = MAX_CONTEXT_DEPTH"
  proof -
    have "length (current_state c # ss) = 32"
      using length_contexts [OF assms] that by (simp add: ss MAX_CONTEXT_DEPTH_def)
    then obtain s' rest where "ss = s' # rest" "length (current_state c # ss) = 32"
      by (cases ss) auto
    then show ?thesis
      by (simp only: ctx_run_refines [OF assms] ss) (simp add: MAX_CONTEXT_DEPTH_def)
  qed
  ultimately show ?thesis by blast
qed

lemma full_stack:
  defines "c \<equiv> fold cyc_step (replicate 31 Ext_start) (record_program_start main_cpu)"
  shows "ready 0 c" "stack_depth (loc c) = MAX_CONTEXT_DEPTH"
proof -
  have "ready 0 (record_program_start main_cpu)"
    using fresh_init [OF main_cpu_fresh] by (simp add: cyc_inv_def)
  note r = ready_run [OF this] ctx_run_refines [OF this]
  from r(1) show c: "ready 0 c" by (simp only: c_def)
  have "length (fold ctx_step (replicate 31 Ext_start) [Normal]) = MAX_CONTEXT_DEPTH"
    by code_simp
  then show "stack_depth (loc c) = MAX_CONTEXT_DEPTH"
    using length_contexts [OF c] by (simp only: c_def r(2) fresh_contexts [OF main_cpu_fresh])
qed

theorem misnested_drifts_witness:
  "\<exists>c. length (contexts c) = 32 \<and>
     contexts (fold cyc_step [Ext_start, Ext_end 0] c) = tl (contexts c)"
  using misnested_drifts [OF full_stack(1)] full_stack(2) length_contexts [OF full_stack(1)]
  by (simp add: MAX_CONTEXT_DEPTH_def) blast

text \<open>
  C15. No two running threads share a slot: in every reachable state of a process, whatever
  the interleaving of calls, starts and exits, two threads that have not exited and hold the
  same slot are the same thread, and that slot is in use and was handed out.
\<close>

theorem no_shared_slot:
  assumes "process_reachable f p" and "t \<notin> p_gone p" and "u \<notin> p_gone p"
    and "thread_slot (p_loc p t) = Some s" and "thread_slot (p_loc p u) = Some s"
  shows "t = u \<and> s < MAX_THREADS \<and> ts_state (threads (p_reg p) s) = Active"
proof -
  have "process_inv p" using assms(1) by (rule process_inv_reachable)
  then have "t = u" "s < next_slot (p_reg p)" "ts_state (threads (p_reg p) s) = Active"
    "next_slot (p_reg p) \<le> MAX_THREADS"
    using assms(2-5) unfolding process_inv_def reg_inv_def by blast+
  then show ?thesis by simp
qed

theorem no_shared_slot_witness:
  "ts_state (threads (p_reg (put_cpu 3 (cyc_step Program_start (cpu_of 3 (process_new (\<lambda>_. 5))))
     (process_new (\<lambda>_. 5)))) 0) = Active"
proof -
  let ?p = "put_cpu 3 (cyc_step Program_start (cpu_of 3 (process_new (\<lambda>_. 5)))) (process_new (\<lambda>_. 5))"
  have g: "3 \<notin> p_gone (process_new (\<lambda>_. 5))" by (simp add: process_new_def)
  have r: "process_reachable (\<lambda>_. 5) ?p"
    by (rule process_reachable.step [OF process_reachable.start process_step.call [OF g]])
  have "thread_slot (p_loc ?p 3) = Some 0"
    by (simp add: put_cpu_def cpu_of_def process_new_def record_program_start_def
        initialize_thread_def allocate_slot_def registry_new_def thread_locals_new_def
        MAX_THREADS_def read_tsc_def Let_def)
  moreover have "3 \<notin> p_gone ?p" by (simp add: put_cpu_def process_new_def)
  ultimately show ?thesis using no_shared_slot [OF r] by blast
qed

text \<open>
  C37. The reported total is the sum of the cycles of all slots in use; so when a new thread
  takes over the slot of a terminated one, the cycles of the terminated thread leave the
  total.
\<close>

theorem reuse_drops_cycles:
  assumes "reg_inv r" and "allocate_slot r = (Some s, r')"
  shows "tot_cycles (calculate_total_stats r) = (\<Sum>k<next_slot r. counted r k) \<and>
    tot_cycles (calculate_total_stats r') = tot_cycles (calculate_total_stats r) -
      (if ts_state (threads r s) = Terminated then thread_total (threads r s) else 0)"
proof -
  note a = allocate_slot_Some [OF assms]
  let ?n = "next_slot r'"
  have s: "s \<in> {..<?n}" and ri: "reg_inv r'" using a by auto
  have "(\<Sum>k<?n. counted r' k) = counted r' s + (\<Sum>k\<in>{..<?n} - {s}. counted r' k)"
    by (rule sum.remove) (use s in auto)
  also have "\<dots> = (\<Sum>k\<in>{..<?n} - {s}. counted r k)"
  proof -
    have "counted r' s = 0" using a by (simp add: counted_def thread_stats_new_def)
    moreover have "(\<Sum>k\<in>{..<?n} - {s}. counted r' k) = (\<Sum>k\<in>{..<?n} - {s}. counted r k)"
      using a by (intro sum.cong) (simp_all add: counted_def)
    ultimately show ?thesis by simp
  qed
  also have "\<dots> = (\<Sum>k<?n. counted r k) - counted r s"
    using sum.remove [of "{..<?n}" s "counted r"] s by simp
  also have "counted r s =
      (if ts_state (threads r s) = Terminated then thread_total (threads r s) else 0)"
    using a by (cases "ts_state (threads r s)") (simp_all add: counted_def)
  finally show ?thesis
    using a total_cycles_sum [OF assms(1)] total_cycles_sum [OF ri] total_extend [OF assms(1), of ?n]
    by simp
qed

definition ended_registry :: thread_registry where
  "ended_registry = upd_thread 0 (\<lambda>st. st\<lparr>ts_state := Terminated, unsafe_cycles := 900\<rparr>)
     (registry_new\<lparr>next_slot := 1\<rparr>)"

theorem reuse_drops_cycles_witness:
  "tot_cycles (calculate_total_stats ended_registry) = 900 \<and>
   tot_cycles (calculate_total_stats (upd_thread 0 reset_slot ended_registry)) = 0"
proof -
  have "reg_inv ended_registry"
    by (simp add: ended_registry_def reg_inv_def registry_new_def MAX_THREADS_def)
  moreover have "allocate_slot ended_registry = (Some 0, upd_thread 0 reset_slot ended_registry)"
    by (simp add: allocate_slot_def ended_registry_def registry_new_def MAX_THREADS_def)
  ultimately show ?thesis
    using reuse_drops_cycles [of ended_registry 0 "upd_thread 0 reset_slot ended_registry"]
    by (simp add: counted_def ended_registry_def registry_new_def thread_total_def
        thread_stats_new_def)
qed

text \<open>
  The cycle statistics are written at most once: whatever calls and further dump requests
  (the explicit call, the destructor) follow the first dump, the outside world is the one that
  dump left.
\<close>

theorem cycle_stats_once:
  assumes "run_events (\<lambda>op c. Some (cyc_step op c)) (cpu_print os) (Dump # evs) c w = Some (c2, w2)"
  shows "\<exists>c1. cpu_print os c w = Some (c1, w2)"
  using assms by (rule cpu_once.run_after_dump)

theorem cycle_stats_once_witness:
  "\<exists>c2 w2. run_events (\<lambda>op c. Some (cyc_step op c)) (cpu_print mem_os) [Dump, Dump] main_cpu
     (rt_new Map.empty) = Some (c2, w2) \<and> (\<exists>c1. cpu_print mem_os main_cpu (rt_new Map.empty) = Some (c1, w2))"
proof -
  obtain c2 w2 where "run_events (\<lambda>op c. Some (cyc_step op c)) (cpu_print mem_os) [Dump, Dump] main_cpu
     (rt_new Map.empty) = Some (c2, w2)"
    by (simp add: cpu_print_def Let_def print_cpu_cycle_stats_def main_cpu_def registry_new_def)
  with cycle_stats_once [of mem_os "[Dump]" main_cpu "rt_new Map.empty" c2 w2] show ?thesis by blast
qed

end
