(* ===== verification/Cpu_Threads.thy ===== *)
theory Cpu_Threads
  imports Cpu_Cycles
begin

text \<open>
  The cycle counter of a whole process (\<open>cpu_cycle_counter.rs\<close>): conservation of cycles under
  every interleaving of the threads' calls, the interposed \<open>pthread_create\<close>, and what a thread
  that has cleaned up can still do: \<open>thread_cleanup\<close> leaves \<open>THREAD_SLOT\<close> set.
\<close>

section \<open>Conservation under interleaving\<close>

lemma tsc_initialize [simp]: "tsc (snd (initialize_thread c)) = tsc c"
  by (auto simp: initialize_thread_def read_tsc_def Let_def split: option.splits prod.splits)

lemma cyc_step_clock:
  "tsc (cyc_step op c) = tsc c \<and> now c \<le> now (cyc_step op c)"
proof -
  have i: "tsc (snd (slot_or_init d)) = tsc d \<and> now d \<le> now (snd (slot_or_init d))" for d
    by (auto simp: slot_or_init_def initialize_thread_def read_tsc_def Let_def
        split: option.splits prod.splits)
  have t: "tsc (snd (transition_state ns d)) = tsc d \<and> now d \<le> now (snd (transition_state ns d))" for ns d
    using i [of d] by (auto simp: transition_state_def read_tsc_def Let_def
        split: option.splits prod.splits)
  have p: "tsc (snd (push_context ns d)) = tsc d \<and> now d \<le> now (snd (push_context ns d))" for ns d
    using i [of d] by (auto simp: push_context_def read_tsc_def Let_def
        split: option.splits prod.splits)
  show ?thesis
  proof (cases op)
    case Program_start
    then show ?thesis
      by (auto simp: record_program_start_def initialize_thread_def read_tsc_def Let_def
          split: option.splits prod.splits)
  next
    case Unsafe_start
    obtain so c1 where c1: "slot_or_init c = (so, c1)" by force
    obtain e c2 where c2: "transition_state (enter_unsafe (current_state c1)) c1 = (e, c2)" by force
    show ?thesis
      using i [of c] t [of "enter_unsafe (current_state c1)" c1]
      by (cases so; cases e)
        (auto simp: Unsafe_start cpu_cycle_start_measurement_def c1 c2 read_tsc_def Let_def)
  next
    case (Unsafe_end x)
    then show ?thesis using t by (simp add: cpu_cycle_end_measurement_def)
  next
    case Ext_start
    obtain so c1 where c1: "slot_or_init c = (so, c1)" by force
    define ns where "ns = (if stack_depth (loc c1) > 0 then enter_external (current_state c1)
                             else ExternalSafe)"
    obtain e c2 where c2: "push_context ns c1 = (e, c2)" by force
    show ?thesis
      using i [of c] p [of ns c1]
      by (cases so; cases e)
        (auto simp: Ext_start external_call_start_def c1 c2 ns_def [symmetric] read_tsc_def Let_def)
  next
    case (Ext_end x)
    then show ?thesis
      by (auto simp: external_call_end_def pop_context_def read_tsc_def Let_def split: option.splits)
  qed
qed

text \<open>The first call of a thread starts its account, whatever call it is.\<close>

lemma cyc_inv_transition: "cyc_inv s c \<Longrightarrow> cyc_inv s (snd (transition_state ns c))"
proof -
  assume inv: "cyc_inv s c"
  then have r: "ready s c" by (simp add: cyc_inv_def)
  then have len: "stack_depth (loc c) - 1 < length (context_stack (loc c))" by (auto simp: ready_def)
  have "ready s (snd (transition_state ns c))"
    using r by (simp add: transition_ready) (simp add: ready_def)
  then show ?thesis
    by (rule cyc_inv_charge [OF inv]) (use r len in \<open>simp_all add: transition_ready top_frame_def\<close>)
qed

lemma cyc_inv_first:
  assumes "reg_inv (reg c)" and "loc_ok (loc c)" and "thread_slot (loc c) = None"
    and "clock_ok (tsc c)" and al: "allocate_slot (reg c) = (Some s, r1)"
    and op: "\<forall>t. op \<noteq> Ext_end t"
  shows "cyc_inv s (cyc_step op c)"
proof -
  have l: "stack_depth (loc c) = 0" "length (context_stack (loc c)) = MAX_CONTEXT_DEPTH"
    using assms by (simp_all add: loc_ok_def)
  let ?c1 = "snd (initialize_thread c)"
  have inv: "cyc_inv s ?c1"
    using cyc_inv_init [OF assms(1,3) l(2) assms(4) al] by (simp add: record_program_start_def)
  note init = initialize_fresh [OF assms(3) al l(2)]
  from cyc_step_uninit [OF assms(3) init(1,2) op l(1)]
  obtain op' where "cyc_step op c = cyc_step op' ?c1 \<or>
      (\<exists>ns. cyc_step op c = snd (transition_state ns ?c1))"
    by blast
  then show ?thesis using cyc_inv_step [OF inv] cyc_inv_transition [OF inv] by metis
qed

text \<open>
  Every running thread's slot holds the cycles from the thread's start to the start of its
  innermost frame; a terminated slot holds those from its start to its end.
\<close>

definition slot_closed :: "thread_stats \<Rightarrow> bool" where
  "slot_closed st \<longleftrightarrow> start_tsc st \<le> last_known_tsc st \<and> thread_total st = last_known_tsc st - start_tsc st"

definition cycles_inv :: "process \<Rightarrow> bool" where
  "cycles_inv p \<longleftrightarrow> process_inv p \<and> clock_ok (p_tsc p) \<and>
     (\<forall>t s. t \<notin> p_gone p \<longrightarrow> thread_slot (p_loc p t) = Some s \<longrightarrow> cyc_inv s (cpu_of t p)) \<and>
     (\<forall>s. ts_state (threads (p_reg p) s) = Terminated \<longrightarrow> slot_closed (threads (p_reg p) s))"

lemma cycles_inv_new: "clock_ok f \<Longrightarrow> cycles_inv (process_new f)"
  using process_inv_new [of f]
  by (simp add: cycles_inv_def process_new_def thread_locals_new_def registry_new_def thread_stats_new_def)

lemma cpu_of_put:
  "cpu_of u (put_cpu t c p) = (if u = t then c\<lparr>tsc := p_tsc p, self_id := of_nat t\<rparr>
     else \<lparr>reg = reg c, loc = p_loc p u, now = now c, tsc = p_tsc p, self_id = of_nat u\<rparr>)"
  by (cases c) (simp add: cpu_of_def put_cpu_def)

lemma cyc_inv_self_id [simp]: "cyc_inv s (c\<lparr>self_id := i\<rparr>) = cyc_inv s c"
  by (simp add: cyc_inv_def ready_def top_frame_def)

text \<open>A step of one thread that leaves the slots of the others alone leaves their accounts alone.\<close>

lemma cyc_inv_other:
  assumes "cyc_inv k (cpu_of u p)" and "u \<noteq> t" and "now (cpu_of u p) \<le> now c"
    and "threads (reg c) k = threads (p_reg p) k"
  shows "cyc_inv k (cpu_of u (put_cpu t c p))"
  by (rule cyc_inv_later [OF assms(1)]) (use assms in \<open>simp_all add: cpu_of_put, simp_all add: cpu_of_def\<close>)

lemma put_cpu_simps [simp]:
  "p_reg (put_cpu t c p) = reg c" "p_loc (put_cpu t c p) = (p_loc p)(t := loc c)"
  "p_gone (put_cpu t c p) = p_gone p" "p_tsc (put_cpu t c p) = p_tsc p"
  "p_now (put_cpu t c p) = now c"
  by (simp_all add: put_cpu_def)

lemma cpu_of_simps [simp]:
  "reg (cpu_of t p) = p_reg p" "loc (cpu_of t p) = p_loc p t" "now (cpu_of t p) = p_now p"
  "tsc (cpu_of t p) = p_tsc p"
  by (simp_all add: cpu_of_def)

lemma cycles_inv_put:
  assumes inv: "cycles_inv p" and pi: "process_inv (put_cpu t c p)"
    and clk: "tsc c = p_tsc p" "p_now p \<le> now c"
    and own: "\<And>s. thread_slot (loc c) = Some s \<Longrightarrow> cyc_inv s c"
    and others: "\<And>u k. u \<noteq> t \<Longrightarrow> u \<notin> p_gone p \<Longrightarrow> thread_slot (p_loc p u) = Some k \<Longrightarrow>
      threads (reg c) k = threads (p_reg p) k"
    and closed: "\<And>k. ts_state (threads (reg c) k) = Terminated \<Longrightarrow>
      threads (reg c) k = threads (p_reg p) k \<or> slot_closed (threads (reg c) k)"
  shows "cycles_inv (put_cpu t c p)"
proof -
  have "cyc_inv s (cpu_of u (put_cpu t c p))"
    if "u \<notin> p_gone p" "thread_slot (p_loc (put_cpu t c p) u) = Some s" for u s
  proof (cases "u = t")
    case True
    then have "cpu_of u (put_cpu t c p) = c\<lparr>self_id := of_nat t\<rparr>"
      using clk(1) by (simp add: cpu_of_put flip: clk(1))
    with own that True show ?thesis by simp
  next
    case False
    with that inv have "cyc_inv s (cpu_of u p)" by (simp add: cycles_inv_def)
    with False that show ?thesis by (intro cyc_inv_other) (simp_all add: clk others)
  qed
  moreover have "slot_closed (threads (reg c) k)" if "ts_state (threads (reg c) k) = Terminated" for k
    using closed [OF that] that inv by (auto simp: cycles_inv_def)
  ultimately show ?thesis
    using inv pi by (simp add: cycles_inv_def)
qed

lemma cycles_inv_call:
  assumes inv: "cycles_inv p" and t: "t \<notin> p_gone p"
  shows "cycles_inv (put_cpu t (cyc_step op (cpu_of t p)) p)"
proof -
  let ?c = "cpu_of t p" and ?c' = "cyc_step op (cpu_of t p)"
  have pi: "process_inv p" and clk: "clock_ok (p_tsc p)" using inv by (simp_all add: cycles_inv_def)
  have lo: "loc_ok (loc ?c)" and ri: "reg_inv (reg ?c)" using pi t by (simp_all add: process_inv_def)
  note pi' = process_inv_call [OF pi t, of op]
  have act: "ts_state (threads (p_reg p) k) = Active" if "u \<notin> p_gone p" "thread_slot (p_loc p u) = Some k" for u k
    using pi that by (auto simp: process_inv_def)
  have uniq: "u = t" if "u \<notin> p_gone p" "thread_slot (p_loc p u) = Some k" "thread_slot (p_loc p t) = Some k" for u k
    using pi that t unfolding process_inv_def by blast
  from cyc_step_effect [OF lo ri, of op] consider
      (same) "loc ?c' = loc ?c" "reg ?c' = reg ?c"
    | (own) s where "thread_slot (p_loc p t) = Some s" "ready s ?c'" "touches s (p_reg p) (reg ?c')"
    | (take) s r1 where "thread_slot (loc ?c) = None" "ready s ?c'"
        "allocate_slot (p_reg p) = (Some s, r1)" "ts_state (threads (reg ?c') s) = Active"
        "\<forall>k. k \<noteq> s \<longrightarrow> threads (reg ?c') k = threads r1 k"
    by (auto simp: cpu_of_def)
  then show ?thesis
  proof cases
    case same
    have "cyc_inv s ?c'" if "thread_slot (loc ?c') = Some s" for s
      using inv t that same cyc_inv_step [of s ?c op] by (simp add: cycles_inv_def)
    with same show ?thesis
      by (intro cycles_inv_put [OF inv pi']) (use cyc_step_clock [of op ?c] in simp_all)
  next
    case (own s)
    have "cyc_inv s ?c'" using inv t own by (intro cyc_inv_step) (simp add: cycles_inv_def)
    moreover have "thread_slot (loc ?c') = Some s" using own(2) by (simp add: ready_def)
    moreover have "threads (reg ?c') k = threads (p_reg p) k" if "k \<noteq> s" for k
      using own(3) that by (simp add: touches_def)
    moreover have "k \<noteq> s" if "ts_state (threads (reg ?c') k) = Terminated" for k
      using own(3) act [OF t own(1)] that by (auto simp: touches_def)
    ultimately show ?thesis
      using cyc_step_clock [of op ?c] uniq own(1)
      by (intro cycles_inv_put [OF inv pi']) (simp_all, metis+)
  next
    case (take s r1)
    note a = allocate_slot_Some [OF ri [unfolded cpu_of_simps] take(3)]
    have "\<forall>x. op \<noteq> Ext_end x"
      using take(1,2) cyc_step_ext_end_uninit [OF take(1)] by (auto simp: ready_def)
    then have ci: "cyc_inv s ?c'"
      using take ri lo clk by (intro cyc_inv_first) simp_all
    have sl: "thread_slot (loc ?c') = Some s" using take(2) by (simp add: ready_def)
    have th: "threads (reg ?c') k = threads (p_reg p) k" if "k \<noteq> s" for k
      using take(5) a that by simp
    have ks: "k \<noteq> s" if "u \<notin> p_gone p" "thread_slot (p_loc p u) = Some k" for u k
      using act [OF that] a by auto
    show ?thesis
    proof (rule cycles_inv_put [OF inv pi'])
      show "threads (reg ?c') k = threads (p_reg p) k \<or> slot_closed (threads (reg ?c') k)"
        if "ts_state (threads (reg ?c') k) = Terminated" for k
        using th [of k] take(4) that by (cases "k = s") simp_all
    qed (use cyc_step_clock [of op ?c] ci sl in simp_all, use th ks in blast)
  qed
qed

text \<open>The clean-up charges the innermost frame up to the final reading.\<close>

lemma cleanup_closes:
  assumes inv: "cyc_inv s c" and s: "s < MAX_THREADS"
  shows "threads (reg (thread_cleanup c)) s =
      (account (top_frame c) (tsc c (now c)) (threads (reg c) s))
        \<lparr>last_known_tsc := tsc c (now c), ts_state := Terminated\<rparr>"
    and "slot_closed (threads (reg (thread_cleanup c)) s)"
    and "ts_state (threads (reg (thread_cleanup c)) s) = Terminated"
    and "tsc (thread_cleanup c) = tsc c" "now (thread_cleanup c) = now c + 1"
proof -
  let ?t = "tsc c (now c)"
  have ok: "clock_ok (tsc c)" and r: "ready s c" using inv by (auto simp: cyc_inv_def)
  have le: "cf_start_tsc (top_frame c) \<le> ?t"
    using inv clock_mono [OF ok, of "now c - 1" "now c"] by (auto simp: cyc_inv_def)
  show eq: "threads (reg (thread_cleanup c)) s =
      (account (top_frame c) ?t (threads (reg c) s))\<lparr>last_known_tsc := ?t, ts_state := Terminated\<rparr>"
    using r s by (simp add: thread_cleanup_def ready_def read_tsc_def Let_def top_frame_def)
  have "thread_total (account (top_frame c) ?t (threads (reg c) s)) = ?t - start_tsc (threads (reg c) s)"
    using inv le by (simp add: thread_total_account cyc_inv_def algebra_simps)
  moreover have "start_tsc (threads (reg c) s) \<le> ?t"
    using inv le by (auto simp: cyc_inv_def)
  ultimately show "slot_closed (threads (reg (thread_cleanup c)) s)"
    by (simp add: slot_closed_def eq)
  show "ts_state (threads (reg (thread_cleanup c)) s) = Terminated" by (simp add: eq)
  show "tsc (thread_cleanup c) = tsc c" "now (thread_cleanup c) = now c + 1"
    using r s by (simp_all add: thread_cleanup_def ready_def read_tsc_def Let_def)
qed

lemma cycles_inv_exit:
  assumes inv: "cycles_inv p" and t: "t \<notin> p_gone p"
  shows "cycles_inv ((put_cpu t (thread_cleanup (cpu_of t p)) p)\<lparr>p_gone := insert t (p_gone p)\<rparr>)"
    (is "cycles_inv ?q")
proof (cases "thread_slot (p_loc p t)")
  case None
  then have "thread_cleanup (cpu_of t p) = cpu_of t p" by (simp add: thread_cleanup_def)
  then have q: "p_reg ?q = p_reg p" "p_loc ?q = p_loc p" "p_gone ?q = insert t (p_gone p)"
    "p_tsc ?q = p_tsc p" "\<And>u. cpu_of u ?q = cpu_of u p"
    by (simp_all add: cpu_of_def put_cpu_def)
  have "process_inv ?q" using inv t by (intro process_inv_exit) (simp_all add: cycles_inv_def)
  with inv show ?thesis unfolding cycles_inv_def q by blast
next
  case (Some s)
  let ?c = "cpu_of t p" and ?c' = "thread_cleanup (cpu_of t p)"
  have pi: "process_inv p" and ci: "cyc_inv s ?c" using inv t Some by (simp_all add: cycles_inv_def)
  have s: "s < MAX_THREADS" using pi t Some by (fastforce simp: process_inv_def reg_inv_def)
  note cl = cleanup_closes [OF ci s] and touch = thread_cleanup_touch [of ?c s]
  have ks: "k \<noteq> s" if "u \<notin> p_gone p" "u \<noteq> t" "thread_slot (p_loc p u) = Some k" for u k
    using pi that t Some unfolding process_inv_def by blast
  have "cyc_inv k (cpu_of u ?q)"
    if "u \<notin> p_gone ?q" "thread_slot (p_loc ?q u) = Some k" for u k
  proof -
    have u: "u \<notin> p_gone p" "u \<noteq> t" "thread_slot (p_loc p u) = Some k" using that by auto
    then have "cyc_inv k (cpu_of u p)" using inv by (simp add: cycles_inv_def)
    then have "cyc_inv k (cpu_of u (put_cpu t ?c' p))"
      using u ks [OF u] touch Some cl(5) by (intro cyc_inv_other) simp_all
    moreover have "cpu_of u ?q = cpu_of u (put_cpu t ?c' p)" by (simp add: cpu_of_def)
    ultimately show ?thesis by simp
  qed
  moreover have "slot_closed (threads (p_reg ?q) k)" if "ts_state (threads (p_reg ?q) k) = Terminated" for k
    using that inv cl(2) touch Some by (cases "k = s") (simp_all add: cycles_inv_def)
  moreover have "process_inv ?q" by (rule process_inv_exit [OF pi t])
  moreover have "clock_ok (p_tsc ?q)" using inv by (simp add: cycles_inv_def)
  ultimately show ?thesis by (simp only: cycles_inv_def) blast
qed

lemma cycles_inv_reachable:
  "process_reachable f p \<Longrightarrow> clock_ok f \<Longrightarrow> cycles_inv p"
proof (induction rule: process_reachable.induct)
  case (step p q)
  from step.hyps(2) step.IH [OF step.prems] show ?case
    by (cases rule: process_stepE) (auto intro: cycles_inv_call cycles_inv_exit)
qed (rule cycles_inv_new)

section \<open>Calls after the clean-up\<close>

text \<open>
  \<open>thread_cleanup\<close> runs when the start routine returns, before the destructors of the thread's
  other thread-local values; those may be instrumented, and \<open>THREAD_SLOT\<close> still names the slot.
  \<open>successor\<close> is the start of another thread, \<open>late_call\<close> an unsafe block the finished thread
  enters afterwards.
\<close>

definition successor :: "u64 \<Rightarrow> cpu \<Rightarrow> cpu" where
  "successor tid c = snd (initialize_thread (c\<lparr>loc := thread_locals_new, self_id := tid\<rparr>))"

definition late_call :: "thread_locals \<Rightarrow> cpu \<Rightarrow> cpu" where
  "late_call l c = snd (cpu_cycle_start_measurement (c\<lparr>loc := l\<rparr>))"

lemma reuse_slot_append:
  "\<forall>k \<in> set ks. ts_state (threads r k) \<noteq> Terminated \<Longrightarrow> reuse_slot (ks @ js) r = reuse_slot js r"
  by (induction ks) auto

lemma reuse_first:
  assumes "s < n" "ts_state (threads r s) = Terminated" "\<forall>k < s. ts_state (threads r k) \<noteq> Terminated"
  shows "reuse_slot [0..<n] r = Some (s, upd_thread s reset_slot r)"
proof -
  have "[0..<n] = [0..<s] @ s # [Suc s..<n]"
    using assms(1) by (metis less_imp_le upt_add_eq_append upt_conv_Cons zero_le le_add_diff_inverse)
  then show ?thesis using assms by (simp add: reuse_slot_append)
qed

lemma successor_takes:
  fixes tid :: u64
  assumes "cyc_inv s a" and "s < MAX_THREADS" and "s < next_slot (reg a)"
    and "\<forall>k < s. ts_state (threads (reg a) k) \<noteq> Terminated"
  defines "b \<equiv> successor tid (thread_cleanup a)"
  shows "thread_slot (loc b) = Some s" "now b = now a + 2" "tsc b = tsc a"
    "threads (reg b) s = thread_stats_new\<lparr>thread_id := tid, start_tsc := tsc a (now a + 1),
       last_known_tsc := tsc a (now a + 1), ts_state := Active\<rparr>"
proof -
  note cl = cleanup_closes [OF assms(1,2)]
  have slot: "thread_slot (loc a) = Some s" using assms(1) by (simp add: cyc_inv_def ready_def)
  note touch = thread_cleanup_touch [OF slot]
  have "reuse_slot [0..<min (next_slot (reg (thread_cleanup a))) MAX_THREADS] (reg (thread_cleanup a)) =
      Some (s, upd_thread s reset_slot (reg (thread_cleanup a)))"
    using assms(2-4) cl(3) touch by (intro reuse_first) auto
  then have "allocate_slot (reg (thread_cleanup a)) =
      (Some s, upd_thread s reset_slot (reg (thread_cleanup a)))"
    by (simp add: allocate_slot_def)
  then show "thread_slot (loc b) = Some s" "now b = now a + 2" "tsc b = tsc a"
    "threads (reg b) s = thread_stats_new\<lparr>thread_id := tid, start_tsc := tsc a (now a + 1),
       last_known_tsc := tsc a (now a + 1), ts_state := Active\<rparr>"
    using cl(4,5) by (simp_all add: b_def successor_def initialize_thread_def thread_locals_new_def
        read_tsc_def Let_def reset_slot_def thread_stats_new_def)
qed

section \<open>Starting threads\<close>

text \<open>
  \<open>pthread_create\<close>: the next definition of the symbol, if the dynamic linker found one, is given
  the wrapper and the boxed routine; otherwise the call fails with \<open>ENOSYS\<close>. The real function
  is a parameter.
\<close>

definition pthread_create ::
  "((cpu \<Rightarrow> 'r \<times> cpu) \<Rightarrow> 'w \<Rightarrow> int \<times> 'w) option \<Rightarrow> int \<Rightarrow> (cpu \<Rightarrow> 'r \<times> cpu) \<Rightarrow> 'w \<Rightarrow> int \<times> 'w" where
  "pthread_create real_pthread_create ENOSYS start_routine w =
     (case real_pthread_create of
        Some create \<Rightarrow> create (thread_start_wrapper start_routine) w
      | None \<Rightarrow> (ENOSYS, w))"

section \<open>Properties\<close>

text \<open>
  C2. No cycle is lost or charged twice in a process with any number of threads: on a clock that
  does not go back, in every state that any interleaving of starts, calls and exits reaches, the
  counters of a running thread's slot add up to the time from its start to the start of its
  innermost context, and those of a terminated slot to the time from its thread's start to its
  end.
\<close>

theorem process_conserves_cycles:
  assumes "process_reachable f p" and "clock_ok f"
  shows "(t \<notin> p_gone p \<and> thread_slot (p_loc p t) = Some s \<longrightarrow>
       start_tsc (threads (p_reg p) s) + thread_total (threads (p_reg p) s) =
         cf_start_tsc (top_frame (cpu_of t p))) \<and>
    (ts_state (threads (p_reg p) k) = Terminated \<longrightarrow>
       start_tsc (threads (p_reg p) k) \<le> last_known_tsc (threads (p_reg p) k) \<and>
       thread_total (threads (p_reg p) k) =
         last_known_tsc (threads (p_reg p) k) - start_tsc (threads (p_reg p) k))"
  using cycles_inv_reachable [OF assms]
  by (auto simp: cycles_inv_def cyc_inv_def slot_closed_def)

text \<open>
  C33. A thread that has cleaned up still charges its old slot: when its slot has gone to a new
  thread and it then enters one more unsafe block, the new thread's slot counts a block the new
  thread never entered, and is charged all the time since the finished thread last changed
  state, which began before the new thread existed.
\<close>

theorem late_call_charges_successor:
  assumes "cyc_inv s a" and "s < MAX_THREADS" and "s < next_slot (reg a)"
    and "\<forall>k < s. ts_state (threads (reg a) k) \<noteq> Terminated"
  shows "let a' = thread_cleanup a; b = successor tid a'; c = late_call (loc a') b in
    thread_slot (loc b) = Some s \<and>
    unsafe_blocks_count (threads (reg b) s) = 0 \<and> thread_total (threads (reg b) s) = 0 \<and>
    unsafe_blocks_count (threads (reg c) s) = 1 \<and>
    thread_total (threads (reg c) s) = tsc a (now b) - cf_start_tsc (top_frame a) \<and>
    cf_start_tsc (top_frame a) \<le> start_tsc (threads (reg b) s)"
proof -
  let ?a = "thread_cleanup a" let ?b = "successor tid (thread_cleanup a)"
  note s = successor_takes [OF assms, of tid]
  have slot: "thread_slot (loc a) = Some s" using assms(1) by (simp add: cyc_inv_def ready_def)
  have loc: "loc ?a = loc a" using thread_cleanup_touch [OF slot] by simp
  let ?d = "?b\<lparr>loc := loc ?a\<rparr>"
  have r: "ready s ?d" using assms(1) by (simp add: loc cyc_inv_def ready_def)
  have top: "top_frame ?d = top_frame a" by (simp add: top_frame_def loc)
  have ok: "clock_ok (tsc a)" and pos: "0 < cf_start_tsc (top_frame a)"
    and le: "cf_start_tsc (top_frame a) \<le> tsc a (now a - 1)"
    using assms(1) by (auto simp: cyc_inv_def)
  have le1: "cf_start_tsc (top_frame a) \<le> tsc a (now a + 1)"
    using le clock_mono [OF ok, of "now a - 1" "now a + 1"] by (simp add: le_diff_conv)
  have le2: "cf_start_tsc (top_frame a) \<le> tsc a (now a + 2)"
    using le clock_mono [OF ok, of "now a - 1" "now a + 2"] by (simp add: le_diff_conv)
  have st: "threads (reg (late_call (loc ?a) ?b)) s =
      bump_blocks (account (top_frame a) (tsc a (now a + 2)) (threads (reg ?b) s))"
    using r by (simp add: late_call_def start_ready transition_ready top s(2,3))
  have "unsafe_blocks_count (account fr x w) = unsafe_blocks_count w" for fr x w
    by (auto simp: account_def Let_def split: execution_state.splits)
  then show ?thesis
    using s thread_total_account [OF pos le2, of "threads (reg ?b) s"] le1
    by (simp add: Let_def st) (simp add: bump_blocks_def thread_stats_new_def thread_total_def)
qed

text \<open>
  C27. Every thread the program creates through the interposed \<open>pthread_create\<close> runs inside the
  wrapper: the real function gets a routine that, on a thread with a slot left and a clock that
  does not go back, leaves a terminated slot with all the time from the thread's start to its
  end charged, whatever calls the program's routine makes. When the real function was not found
  nothing is started and the error is returned.
\<close>

theorem created_threads_accounted:
  assumes "fresh_thread s c"
  shows "pthread_create (Some create) e (\<lambda>c. (x, fold cyc_step ops c)) w =
      create (thread_start_wrapper (\<lambda>c. (x, fold cyc_step ops c))) w \<and>
    pthread_create None e routine w = (e, w) \<and>
    fst (thread_start_wrapper (\<lambda>c. (x, fold cyc_step ops c)) c) = x \<and>
    (let st = threads (reg (snd (thread_start_wrapper (\<lambda>c. (x, fold cyc_step ops c)) c))) s
     in ts_state st = Terminated \<and> slot_closed st)"
proof -
  let ?d = "fold cyc_step ops (record_program_start c)"
  have inv: "cyc_inv s ?d" by (rule cyc_inv_run [OF fresh_init [OF assms]])
  obtain r' where "allocate_slot (reg c) = (Some s, r')"
    using assms by (cases "allocate_slot (reg c)") (auto simp: fresh_thread_def)
  then have s: "s < MAX_THREADS"
    using assms allocate_slot_Some [of "reg c" s r'] by (auto simp: fresh_thread_def)
  show ?thesis
    using cleanup_closes(2,3) [OF inv s]
    by (simp add: pthread_create_def thread_start_wrapper_def record_program_start_def Let_def)
qed

theorem created_threads_accounted_witness:
  "let st = threads (reg (snd (thread_start_wrapper (\<lambda>c. (5 :: nat, fold cyc_step [Unsafe_start, Unsafe_end 0] c))
       main_cpu))) 0
   in ts_state st = Terminated \<and> slot_closed st"
  using created_threads_accounted [OF main_cpu_fresh, of "\<lambda>_ w. (0, w)" 38 "5 :: nat" "[Unsafe_start, Unsafe_end 0]"
      "()" "\<lambda>c. (5 :: nat, c)"]
  by (simp only: Let_def)

text \<open>The main thread of the witnesses inside its first unsafe block.\<close>

definition busy_main :: cpu where
  "busy_main = cyc_step Unsafe_start (record_program_start main_cpu)"

lemma busy_main_slot: "next_slot (reg busy_main) = 1"
  by (simp add: busy_main_def main_cpu_def record_program_start_def initialize_thread_def
      allocate_slot_def registry_new_def thread_locals_new_def MAX_THREADS_def read_tsc_def Let_def
      cpu_cycle_start_measurement_def transition_state_def slot_or_init_def MAX_CONTEXT_DEPTH_def)

theorem late_call_charges_successor_witness:
  "unsafe_blocks_count (threads (reg (late_call (loc (thread_cleanup busy_main))
     (successor 9 (thread_cleanup busy_main)))) 0) = 1"
proof -
  have "cyc_inv 0 busy_main"
    unfolding busy_main_def by (rule cyc_inv_step [OF fresh_init [OF main_cpu_fresh]])
  from late_call_charges_successor [OF this, of 9] show ?thesis
    by (simp add: busy_main_slot MAX_THREADS_def Let_def)
qed

text \<open>A process in which thread 1 starts, thread 2 starts, and thread 1 ends.\<close>

definition after_call :: "nat \<Rightarrow> cyc_op \<Rightarrow> process \<Rightarrow> process" where
  "after_call t op p = put_cpu t (cyc_step op (cpu_of t p)) p"

definition after_exit :: "nat \<Rightarrow> process \<Rightarrow> process" where
  "after_exit t p = (put_cpu t (thread_cleanup (cpu_of t p)) p)\<lparr>p_gone := insert t (p_gone p)\<rparr>"

lemma after_reachable:
  "process_reachable f p \<Longrightarrow> t \<notin> p_gone p \<Longrightarrow> process_reachable f (after_call t op p)"
  "process_reachable f p \<Longrightarrow> t \<notin> p_gone p \<Longrightarrow> process_reachable f (after_exit t p)"
  unfolding after_call_def after_exit_def
  by (auto intro: process_reachable.step process_step.intros)

theorem process_conserves_cycles_witness:
  "let p = after_exit 1 (after_call 2 Program_start (after_call 1 Program_start (process_new (tsc main_cpu))));
       st = threads (p_reg p) 0
   in ts_state st = Terminated \<and> thread_total st = last_known_tsc st - start_tsc st \<and>
      start_tsc (threads (p_reg p) 1) + thread_total (threads (p_reg p) 1) =
        cf_start_tsc (top_frame (cpu_of 2 p))"
proof -
  let ?p1 = "after_call 1 Program_start (process_new (tsc main_cpu))"
  let ?p2 = "after_call 2 Program_start ?p1" let ?p = "after_exit 1 ?p2"
  have g: "1 \<notin> p_gone (process_new (tsc main_cpu))" "2 \<notin> p_gone ?p1" "1 \<notin> p_gone ?p2"
    by (simp_all add: process_new_def after_call_def)
  note p1 = after_reachable(1) [OF process_reachable.start g(1)]
  note r = after_reachable(2) [OF after_reachable(1) [OF p1 g(2)] g(3)]
  have c: "2 \<notin> p_gone ?p \<and> thread_slot (p_loc ?p 2) = Some 1" "ts_state (threads (p_reg ?p) 0) = Terminated"
    by (simp_all add: after_exit_def after_call_def process_new_def record_program_start_def
        initialize_thread_def allocate_slot_def registry_new_def thread_locals_new_def
        thread_stats_new_def MAX_THREADS_def read_tsc_def Let_def thread_cleanup_def upt_rec)
  from process_conserves_cycles [OF r main_cpu_clock, of 2 1 0] c show ?thesis
    by (simp only: Let_def simp_thms)
qed

end
