(* ===== verification/Slot_Race.thy ===== *)
theory Slot_Race
  imports Cpu_Cycles
begin

text \<open>
  \<open>ThreadRegistry::allocate_slot\<close> and the stores of \<open>initialize_thread\<close> one atomic operation at a
  time (\<open>unsafe_perf_source/src/cpu_cycle_counter.rs\<close>). The theory \<open>Cpu_Cycles\<close> takes an allocation
  as one step; here any number of threads allocate, work and terminate concurrently, and each load,
  compare-and-exchange, store, \<open>fetch_add\<close> and \<open>fetch_sub\<close> is a step of its own. The operations
  interleave in one order for all threads; reorderings that the weaker memory orders would allow
  between different cells are not modelled. Undisturbed, the steps compute \<open>allocate_slot\<close>.
\<close>

section \<open>The atomic operations\<close>

text \<open>The resets of a reused slot, and the stores that put a slot into use, in the code's order.\<close>

definition reset_stores :: "(thread_stats \<Rightarrow> thread_stats) list" where
  "reset_stores = [\<lambda>st. st\<lparr>thread_id := 0\<rparr>, \<lambda>st. st\<lparr>start_tsc := 0\<rparr>, \<lambda>st. st\<lparr>last_known_tsc := 0\<rparr>,
     \<lambda>st. st\<lparr>normal_cycles := 0\<rparr>, \<lambda>st. st\<lparr>unsafe_cycles := 0\<rparr>, \<lambda>st. st\<lparr>external_safe_cycles := 0\<rparr>,
     \<lambda>st. st\<lparr>external_unsafe_cycles := 0\<rparr>, \<lambda>st. st\<lparr>unsafe_blocks_count := 0\<rparr>,
     \<lambda>st. st\<lparr>external_calls_count := 0\<rparr>]"

definition init_stores :: "u64 \<Rightarrow> u64 \<Rightarrow> (thread_stats \<Rightarrow> thread_stats) list" where
  "init_stores tid t = [\<lambda>st. st\<lparr>thread_id := tid\<rparr>, \<lambda>st. st\<lparr>start_tsc := t\<rparr>,
     \<lambda>st. st\<lparr>last_known_tsc := t\<rparr>, \<lambda>st. st\<lparr>ts_state := Active\<rparr>]"

text \<open>
  Where a thread is: before the call; in the loop, about to load the state of slot \<open>i\<close> of \<open>n\<close>; about
  to exchange it, having seen \<open>Terminated\<close>; having claimed slot \<open>i\<close> and done \<open>k\<close> of the resets; about
  to take a new slot; about to give a number above the limit back; having slot \<open>i\<close>, the reading \<open>t\<close> of
  the clock and \<open>k\<close> of the initialising stores done; with the slot in use; without a slot (the next
  entry point tries again); after its cleanup.
\<close>

datatype slot_pc =
  Calling
| Scanning nat nat
| Exchanging nat nat
| Resetting nat nat
| Adding
| Subtracting
| Initialising nat u64 nat
| Holding nat
| Refused_slot
| Finished

text \<open>The next operation of a thread; \<open>tid\<close> is its identity and \<open>t\<close> what the clock would answer.\<close>

fun slot_step :: "u64 \<Rightarrow> u64 \<Rightarrow> slot_pc \<Rightarrow> thread_registry \<Rightarrow> slot_pc \<times> thread_registry" where
  "slot_step tid t Calling r = (Scanning 0 (min (next_slot r) MAX_THREADS), r)"
| "slot_step tid t (Scanning i n) r =
     (if i < n
      then (if ts_state (threads r i) = Terminated then Exchanging i n else Scanning (i + 1) n, r)
      else (Adding, r))"
| "slot_step tid t (Exchanging i n) r =
     (if ts_state (threads r i) = Terminated
      then (Resetting i 0, upd_thread i (\<lambda>st. st\<lparr>ts_state := Uninitialized\<rparr>) r)
      else (Scanning (i + 1) n, r))"
| "slot_step tid t (Resetting i k) r =
     (if k < length reset_stores then (Resetting i (k + 1), upd_thread i (reset_stores ! k) r)
      else (Initialising i t 0, r))"
| "slot_step tid t Adding r =
     (let slot = next_slot r; r = r\<lparr>next_slot := next_slot r + 1\<rparr> in
      if slot < MAX_THREADS then (Initialising slot t 0, r) else (Subtracting, r))"
| "slot_step tid t Subtracting r = (Refused_slot, r\<lparr>next_slot := next_slot r - 1\<rparr>)"
| "slot_step tid t (Initialising i t0 k) r =
     (if k < length (init_stores tid t0)
      then (Initialising i t0 (k + 1), upd_thread i (init_stores tid t0 ! k) r)
      else (Holding i, r))"
| "slot_step tid t (Holding i) r = (Holding i, r)"
| "slot_step tid t Refused_slot r = (Calling, r)"
| "slot_step tid t Finished r = (Finished, r)"

fun slot_of :: "slot_pc \<Rightarrow> nat option" where
  "slot_of (Resetting i k) = Some i"
| "slot_of (Initialising i t k) = Some i"
| "slot_of (Holding i) = Some i"
| "slot_of _ = None"

section \<open>Undisturbed\<close>

text \<open>One thread alone: the operations up to the end of the call.\<close>

fun solo :: "u64 \<Rightarrow> u64 \<Rightarrow> nat \<Rightarrow> slot_pc \<times> thread_registry \<Rightarrow> slot_pc \<times> thread_registry" where
  "solo tid t 0 c = c"
| "solo tid t (Suc n) c = solo tid t n (case c of (pc, r) \<Rightarrow> slot_step tid t pc r)"

lemma solo_add: "solo tid t (m + n) c = solo tid t n (solo tid t m c)"
  by (induction m arbitrary: c) auto

lemma solo_resets:
  "solo tid t 11 (Exchanging i n, r) =
     (Initialising i t 0, upd_thread i reset_slot r)" if "ts_state (threads r i) = Terminated"
  using that
  by (simp add: eval_nat_numeral reset_stores_def upd_thread_def reset_slot_def)

lemma solo_scan:
  "i \<le> n \<Longrightarrow> \<exists>k. solo tid t k (Scanning i n, r) =
     (case reuse_slot [i..<n] r of
        Some (slot, r') \<Rightarrow> (Initialising slot t 0, r') | None \<Rightarrow> (Adding, r))"
proof (induction "n - i" arbitrary: i)
  case 0
  then have "solo tid t 1 (Scanning i n, r) = (Adding, r)" by simp
  with 0 show ?case by (intro exI [of _ 1]) simp
next
  case (Suc d)
  then have i: "i < n" "[i..<n] = i # [i + 1..<n]" by (simp_all add: upt_conv_Cons)
  show ?case
  proof (cases "ts_state (threads r i) = Terminated")
    case True
    then have "solo tid t (1 + 11) (Scanning i n, r) = (Initialising i t 0, upd_thread i reset_slot r)"
      unfolding solo_add using i(1) solo_resets [OF True] by simp
    then show ?thesis using True i(2) by (intro exI) simp
  next
    case False
    have "d = n - (i + 1)" "i + 1 \<le> n" using Suc(2) i(1) by auto
    from Suc(1) [OF this] obtain k where "solo tid t k (Scanning (i + 1) n, r) =
        (case reuse_slot [i + 1..<n] r of
          Some (slot, r') \<Rightarrow> (Initialising slot t 0, r') | None \<Rightarrow> (Adding, r))"
      by blast
    then show ?thesis using False i by (intro exI [of _ "Suc k"]) simp
  qed
qed

lemma solo_allocates:
  "\<exists>k. solo tid t k (Calling, r) =
     (case allocate_slot r of
        (Some slot, r') \<Rightarrow> (Initialising slot t 0, r') | (None, r') \<Rightarrow> (Refused_slot, r'))"
proof -
  let ?n = "min (next_slot r) MAX_THREADS"
  obtain k where k: "solo tid t k (Scanning 0 ?n, r) =
      (case reuse_slot [0..<?n] r of
         Some (slot, r') \<Rightarrow> (Initialising slot t 0, r') | None \<Rightarrow> (Adding, r))"
    using solo_scan [of 0 ?n tid t r] by blast
  show ?thesis
  proof (cases "reuse_slot [0..<?n] r")
    case None
    have "solo tid t (Suc k + (if next_slot r < MAX_THREADS then 1 else 2)) (Calling, r) =
      (case allocate_slot r of
        (Some slot, r') \<Rightarrow> (Initialising slot t 0, r') | (None, r') \<Rightarrow> (Refused_slot, r'))"
      unfolding solo_add using None k by (simp add: allocate_slot_def Let_def eval_nat_numeral)
    then show ?thesis by blast
  next
    case (Some x)
    with k show ?thesis
      by (intro exI [of _ "Suc k"]) (auto simp: allocate_slot_def Let_def split: prod.splits)
  qed
qed

section \<open>Any number of threads\<close>

record slot_race =
  sr_reg :: thread_registry
  sr_pc :: "nat \<Rightarrow> slot_pc"

definition race_new :: slot_race where
  "race_new = \<lparr>sr_reg = registry_new, sr_pc = (\<lambda>_. Calling)\<rparr>"

text \<open>
  A step of the process: some thread does its next operation; or a thread with a slot in use
  updates its own statistics (any change \<open>f\<close> that leaves the slot's state alone), or terminates.
\<close>

definition advance :: "nat \<Rightarrow> u64 \<Rightarrow> slot_race \<Rightarrow> slot_race" where
  "advance t w s =
     (case slot_step (of_nat t) w (sr_pc s t) (sr_reg s) of
        (pc, r) \<Rightarrow> \<lparr>sr_reg = r, sr_pc = (sr_pc s)(t := pc)\<rparr>)"

inductive race_step :: "slot_race \<Rightarrow> slot_race \<Rightarrow> bool" where
  next_op: "race_step s (advance t w s)"
| work: "sr_pc s t = Holding i \<Longrightarrow> (\<And>st. ts_state (f st) = ts_state st) \<Longrightarrow>
    race_step s (s\<lparr>sr_reg := upd_thread i f (sr_reg s)\<rparr>)"
| terminate: "sr_pc s t = Holding i \<Longrightarrow>
    race_step s (s\<lparr>sr_reg := upd_thread i (\<lambda>st. st\<lparr>ts_state := Terminated\<rparr>) (sr_reg s),
      sr_pc := (sr_pc s)(t := Finished)\<rparr>)"

inductive race_reachable :: "slot_race \<Rightarrow> bool" where
  start: "race_reachable race_new"
| step: "race_reachable s \<Longrightarrow> race_step s s' \<Longrightarrow> race_reachable s'"

text \<open>
  What a thread may rely on at each point, with \<open>h\<close> slots ever handed out: the resets still to do
  would leave a new slot, and the initialising stores started from a new slot.
\<close>

fun pc_ok :: "nat \<Rightarrow> thread_registry \<Rightarrow> slot_pc \<Rightarrow> bool" where
  "pc_ok h r (Scanning i n) \<longleftrightarrow> n \<le> h"
| "pc_ok h r (Exchanging i n) \<longleftrightarrow> i < n \<and> n \<le> h"
| "pc_ok h r (Resetting i k) \<longleftrightarrow> i < h \<and> ts_state (threads r i) = Uninitialized \<and>
     fold (\<lambda>f. f) (drop k reset_stores) (threads r i) = thread_stats_new"
| "pc_ok h r (Initialising i t k) \<longleftrightarrow> i < h \<and> k \<le> 4 \<and>
     (\<exists>tid. threads r i = fold (\<lambda>f. f) (take k (init_stores tid t)) thread_stats_new)"
| "pc_ok h r (Holding i) \<longleftrightarrow> i < h \<and> ts_state (threads r i) = Active"
| "pc_ok h r _ \<longleftrightarrow> True"

definition giving_back :: "slot_race \<Rightarrow> nat set" where
  "giving_back s = {t. sr_pc s t = Subtracting}"

definition race_inv :: "nat \<Rightarrow> slot_race \<Rightarrow> bool" where
  "race_inv h s \<longleftrightarrow> h \<le> MAX_THREADS \<and> finite (giving_back s) \<and>
     next_slot (sr_reg s) = h + card (giving_back s) \<and>
     (giving_back s \<noteq> {} \<longrightarrow> h = MAX_THREADS) \<and>
     (\<forall>k\<ge>h. threads (sr_reg s) k = thread_stats_new) \<and>
     (\<forall>t. pc_ok h (sr_reg s) (sr_pc s t)) \<and>
     (\<forall>t u i. slot_of (sr_pc s t) = Some i \<and> slot_of (sr_pc s u) = Some i \<longrightarrow> t = u) \<and>
     (\<forall>i<h. ts_state (threads (sr_reg s) i) = Terminated \<or> (\<exists>t. slot_of (sr_pc s t) = Some i))"

lemma init_prefix_state:
  "ts_state (fold (\<lambda>f. f) (take k (init_stores tid t)) thread_stats_new) \<noteq> Terminated"
  by (cases k; simp add: init_stores_def thread_stats_new_def)
    (auto simp: take_Cons' split: nat.split)

lemma held_not_terminated:
  "pc_ok h r pc \<Longrightarrow> slot_of pc = Some i \<Longrightarrow> i < h \<and> ts_state (threads r i) \<noteq> Terminated"
  by (cases pc) (auto simp: init_prefix_state)

text \<open>Another thread keeps what it relies on when its own slot is not touched.\<close>

lemma pc_ok_frame:
  assumes "pc_ok h r pc" and "h \<le> h'" and "\<And>i. slot_of pc = Some i \<Longrightarrow> threads r' i = threads r i"
  shows "pc_ok h' r' pc"
  using assms by (cases pc) auto

lemma race_inv_new: "race_inv 0 race_new"
  by (simp add: race_inv_def race_new_def registry_new_def giving_back_def)

text \<open>
  A step of thread \<open>t\<close> to \<open>pc\<close> that changes at most the slot it then has (or had), with \<open>h'\<close> slots
  handed out afterwards.
\<close>

lemma race_inv_local:
  assumes inv: "race_inv h s" and s': "sr_pc s' = (sr_pc s)(t := pc)"
    and n: "next_slot (sr_reg s') = next_slot (sr_reg s)"
    and g: "sr_pc s t \<noteq> Subtracting" "pc \<noteq> Subtracting"
    and other: "\<And>k. threads (sr_reg s') k \<noteq> threads (sr_reg s) k \<Longrightarrow>
      k < h \<and> (\<forall>u. u \<noteq> t \<longrightarrow> slot_of (sr_pc s u) \<noteq> Some k)"
    and own: "pc_ok h (sr_reg s') pc"
    and uniq: "\<And>i u. slot_of pc = Some i \<Longrightarrow> u \<noteq> t \<Longrightarrow> slot_of (sr_pc s u) \<noteq> Some i"
    and kept: "\<And>i. i < h \<Longrightarrow> ts_state (threads (sr_reg s) i) = Terminated \<or> slot_of (sr_pc s t) = Some i \<Longrightarrow>
      ts_state (threads (sr_reg s') i) = Terminated \<or> slot_of pc = Some i"
  shows "race_inv h s'"
proof -
  have gb: "giving_back s' = giving_back s"
    using g s' by (auto simp: giving_back_def)
  have "pc_ok h (sr_reg s') (sr_pc s' u)" for u
  proof (cases "u = t")
    case False
    have "pc_ok h (sr_reg s) (sr_pc s u)" using inv by (simp add: race_inv_def)
    then have "pc_ok h (sr_reg s') (sr_pc s u)"
      by (rule pc_ok_frame [OF _ le_refl]) (use other False in blast)
    then show ?thesis using False s' by simp
  qed (simp add: s' own)
  moreover have "threads (sr_reg s') k = thread_stats_new" if "k \<ge> h" for k
    using other [of k] inv that by (auto simp: race_inv_def)
  moreover have "u = v" if "slot_of (sr_pc s' u) = Some i" "slot_of (sr_pc s' v) = Some i" for u v i
    using that inv uniq [of i u] uniq [of i v] by (auto simp: s' race_inv_def split: if_splits)
  moreover have "ts_state (threads (sr_reg s') i) = Terminated \<or> (\<exists>u. slot_of (sr_pc s' u) = Some i)"
    if i: "i < h" for i
  proof (cases "\<exists>u. u \<noteq> t \<and> slot_of (sr_pc s u) = Some i")
    case True
    then show ?thesis by (auto simp: s')
  next
    case False
    then have "ts_state (threads (sr_reg s) i) = Terminated \<or> slot_of (sr_pc s t) = Some i"
      using inv i unfolding race_inv_def by metis
    from kept [OF i this] show ?thesis by (auto simp: s')
  qed
  ultimately show ?thesis
    using inv unfolding race_inv_def gb n by blast
qed

lemma threads_upd [simp]: "threads (upd_thread i f r) = (threads r)(i := f (threads r i))"
  by (simp add: upd_thread_def)

lemma next_slot_upd [simp]: "next_slot (upd_thread i f r) = next_slot r"
  by (simp add: upd_thread_def)

lemma reset_keeps_state:
  "k < length reset_stores \<Longrightarrow> ts_state ((reset_stores ! k) st) = ts_state st"
  by (simp add: reset_stores_def less_Suc_eq numeral_eq_Suc) auto

lemma resets_clear:
  "fold (\<lambda>f. f) reset_stores (st\<lparr>ts_state := Uninitialized\<rparr>) = thread_stats_new"
  by (cases st) (simp add: reset_stores_def thread_stats_new_def)

lemma fold_take_Suc: "k < length fs \<Longrightarrow> fold (\<lambda>f. f) (take (Suc k) fs) x = (fs ! k) (fold (\<lambda>f. f) (take k fs) x)"
  by (simp add: take_Suc_conv_app_nth)

lemma fold_drop_Suc: "k < length fs \<Longrightarrow> fold (\<lambda>f. f) (drop k fs) x = fold (\<lambda>f. f) (drop (Suc k) fs) ((fs ! k) x)"
  by (subst Cons_nth_drop_Suc [symmetric]) simp_all

lemma init_stores_active:
  "ts_state (fold (\<lambda>f. f) (init_stores tid t) st) = Active"
  by (simp add: init_stores_def)

lemma race_inv_facts:
  assumes "race_inv h s"
  shows "pc_ok h (sr_reg s) (sr_pc s t)"
    and "slot_of (sr_pc s t) = Some i \<Longrightarrow> u \<noteq> t \<Longrightarrow> slot_of (sr_pc s u) \<noteq> Some i"
    and "ts_state (threads (sr_reg s) i) = Terminated \<Longrightarrow> slot_of (sr_pc s u) \<noteq> Some i"
  using assms held_not_terminated [of h "sr_reg s" "sr_pc s u" i] unfolding race_inv_def by blast+

text \<open>A change of the own slot, and no change of the registry.\<close>

lemma race_inv_own_slot:
  assumes inv: "race_inv h s" and slot: "slot_of (sr_pc s t) = Some i"
    and s': "s' = \<lparr>sr_reg = upd_thread i f (sr_reg s), sr_pc = (sr_pc s)(t := pc)\<rparr>"
    and own: "pc_ok h (upd_thread i f (sr_reg s)) pc"
    and pc: "slot_of pc = Some i \<or>
      slot_of pc = None \<and> ts_state (f (threads (sr_reg s) i)) = Terminated" "pc \<noteq> Subtracting"
  shows "race_inv h s'"
proof (rule race_inv_local [OF inv, where t = t and pc = pc])
  note facts = race_inv_facts [OF inv]
  have i: "i < h" using held_not_terminated [OF facts(1) slot] by simp
  show "sr_pc s t \<noteq> Subtracting" using slot by auto
  show "k < h \<and> (\<forall>u. u \<noteq> t \<longrightarrow> slot_of (sr_pc s u) \<noteq> Some k)"
    if "threads (sr_reg s') k \<noteq> threads (sr_reg s) k" for k
    using that i facts(2) [OF slot] by (auto simp: s' split: if_splits)
  show "slot_of (sr_pc s u) \<noteq> Some j" if "slot_of pc = Some j" "u \<noteq> t" for j u
    using that pc facts(2) [OF slot] by auto
  show "ts_state (threads (sr_reg s') j) = Terminated \<or> slot_of pc = Some j"
    if "j < h" "ts_state (threads (sr_reg s) j) = Terminated \<or> slot_of (sr_pc s t) = Some j" for j
    using that pc slot by (auto simp: s')
qed (use own pc in \<open>simp_all add: s'\<close>)

lemma race_inv_idle:
  assumes inv: "race_inv h s" and s': "s' = s\<lparr>sr_pc := (sr_pc s)(t := pc)\<rparr>"
    and own: "pc_ok h (sr_reg s) pc" and pc: "slot_of pc = slot_of (sr_pc s t)"
    and g: "sr_pc s t \<noteq> Subtracting" "pc \<noteq> Subtracting"
  shows "race_inv h s'"
  by (rule race_inv_local [OF inv, where t = t and pc = pc])
    (use own pc g race_inv_facts(2) [OF inv, of t] in \<open>auto simp: s'\<close>)

section \<open>Every step keeps the invariant\<close>

lemma advance_idle:
  assumes "race_inv h s" and "slot_step (of_nat t) w (sr_pc s t) (sr_reg s) = (pc, sr_reg s)"
    and "pc_ok h (sr_reg s) pc" "slot_of pc = slot_of (sr_pc s t)"
    and "sr_pc s t \<noteq> Subtracting" "pc \<noteq> Subtracting"
  shows "race_inv h (advance t w s)"
  by (rule race_inv_idle [OF assms(1) _ assms(3-6)]) (simp add: advance_def assms(2))

lemma race_inv_claim:
  assumes inv: "race_inv h s" and pc: "sr_pc s t = Exchanging i n"
    and dead: "ts_state (threads (sr_reg s) i) = Terminated"
  shows "race_inv h (advance t w s)"
proof (rule race_inv_local [OF inv, where t = t and pc = "Resetting i 0"])
  note facts = race_inv_facts [OF inv]
  have i: "i < h" using facts(1) [of t] pc by simp
  show "k < h \<and> (\<forall>u. u \<noteq> t \<longrightarrow> slot_of (sr_pc s u) \<noteq> Some k)"
    if "threads (sr_reg (advance t w s)) k \<noteq> threads (sr_reg s) k" for k
    using that i facts(3) [OF dead] by (auto simp: advance_def pc dead split: if_splits)
  show "slot_of (sr_pc s u) \<noteq> Some j" if "slot_of (Resetting i 0) = Some j" for j u
    using that facts(3) [OF dead] by simp
  show "pc_ok h (sr_reg (advance t w s)) (Resetting i 0)"
    using i by (simp add: advance_def pc dead resets_clear)
qed (simp_all add: advance_def pc dead split: if_splits)

text \<open>Taking a new slot: below the limit it is one nobody has had, else it is given back later.\<close>

lemma race_inv_take:
  assumes inv: "race_inv h s" and pc: "sr_pc s t = Adding"
  shows "\<exists>h'. race_inv h' (advance t w s)"
proof (cases "next_slot (sr_reg s) < MAX_THREADS")
  case True
  let ?s = "advance t w s"
  have gb: "giving_back s = {}" and n: "next_slot (sr_reg s) = h"
    using inv True by (auto simp: race_inv_def)
  have s': "sr_reg ?s = (sr_reg s)\<lparr>next_slot := h + 1\<rparr>" "sr_pc ?s = (sr_pc s)(t := Initialising h w 0)"
    using True by (simp_all add: advance_def pc n)
  note facts = race_inv_facts [OF inv]
  have free: "slot_of (sr_pc s u) \<noteq> Some h" for u
    using held_not_terminated [OF facts(1) [of u]] by auto
  have new: "threads (sr_reg s) k = thread_stats_new" if "h \<le> k" for k
    using inv that by (simp add: race_inv_def)
  have "giving_back ?s = {}" using gb by (auto simp: giving_back_def s'(2))
  moreover have "pc_ok (h + 1) (sr_reg ?s) (sr_pc ?s u)" for u
    using pc_ok_frame [OF facts(1) [of u], of "h + 1" "sr_reg ?s"] new [of h] by (simp add: s')
  moreover have "u = v" if "slot_of (sr_pc ?s u) = Some i" "slot_of (sr_pc ?s v) = Some i" for u v i
    using that free facts(2) by (auto simp: s'(2) split: if_splits)
  moreover have "ts_state (threads (sr_reg ?s) i) = Terminated \<or> (\<exists>u. slot_of (sr_pc ?s u) = Some i)"
    if i: "i < h + 1" for i
  proof (cases "i = h")
    case True
    have "slot_of (sr_pc ?s t) = Some i" by (simp add: s'(2) True)
    then show ?thesis by blast
  next
    case False
    with i inv have "ts_state (threads (sr_reg s) i) = Terminated \<or> (\<exists>u. slot_of (sr_pc s u) = Some i)"
      by (auto simp: race_inv_def)
    moreover have "slot_of (sr_pc s t) \<noteq> Some i" by (simp add: pc)
    ultimately show ?thesis by (auto simp: s')
  qed
  ultimately have "race_inv (h + 1) ?s"
    using True n new unfolding race_inv_def by (simp add: s'(1))
  then show ?thesis ..
next
  case False
  let ?s = "advance t w s"
  have s': "sr_reg ?s = (sr_reg s)\<lparr>next_slot := next_slot (sr_reg s) + 1\<rparr>"
      "sr_pc ?s = (sr_pc s)(t := Subtracting)"
    using False by (simp_all add: advance_def pc)
  have gb: "giving_back ?s = insert t (giving_back s)" "t \<notin> giving_back s"
    by (auto simp: giving_back_def s'(2) pc)
  have h: "h = MAX_THREADS" using inv False by (cases "giving_back s = {}") (auto simp: race_inv_def)
  have "pc_ok h (sr_reg ?s) (sr_pc ?s u)" for u
    using pc_ok_frame [OF race_inv_facts(1) [OF inv, of u], of h "sr_reg ?s"] by (simp add: s')
  moreover have "slot_of (sr_pc ?s u) = slot_of (sr_pc s u)" for u by (simp add: s'(2) pc)
  ultimately have "race_inv h ?s"
    using inv gb h unfolding race_inv_def by (simp add: s'(1))
  then show ?thesis ..
qed

lemma race_inv_give_back:
  assumes inv: "race_inv h s" and pc: "sr_pc s t = Subtracting"
  shows "race_inv h (advance t w s)"
proof -
  let ?s = "advance t w s"
  have s': "sr_reg ?s = (sr_reg s)\<lparr>next_slot := next_slot (sr_reg s) - 1\<rparr>"
      "sr_pc ?s = (sr_pc s)(t := Refused_slot)"
    by (simp_all add: advance_def pc)
  have gb: "giving_back ?s = giving_back s - {t}" "t \<in> giving_back s"
    by (auto simp: giving_back_def s'(2) pc)
  have "pc_ok h (sr_reg ?s) (sr_pc ?s u)" for u
    using pc_ok_frame [OF race_inv_facts(1) [OF inv, of u], of h "sr_reg ?s"] by (simp add: s')
  moreover have "slot_of (sr_pc ?s u) = slot_of (sr_pc s u)" for u by (simp add: s'(2) pc)
  moreover have "h + card (giving_back s) - 1 = h + card (giving_back s - {t})"
  proof -
    have "0 < card (giving_back s)" using gb(2) inv by (auto simp: race_inv_def card_gt_0_iff)
    then show ?thesis using gb(2) by (simp add: card_Diff_singleton)
  qed
  moreover have "h = MAX_THREADS" using inv gb(2) by (auto simp: race_inv_def)
  ultimately show ?thesis
    using inv unfolding race_inv_def gb(1) by (simp add: s'(1))
qed

lemma init_next:
  "k < 4 \<Longrightarrow> \<exists>tid'. (init_stores tid0 t ! k) (fold (\<lambda>f. f) (take k (init_stores tid t)) st) =
     fold (\<lambda>f. f) (take (Suc k) (init_stores tid' t)) st"
  by (simp add: less_Suc_eq numeral_eq_Suc) (auto simp: init_stores_def)

lemma race_inv_advance:
  assumes inv: "race_inv h s"
  shows "\<exists>h'. race_inv h' (advance t w s)"
proof (cases "sr_pc s t")
  case Calling
  have "min (next_slot (sr_reg s)) MAX_THREADS \<le> h"
    using inv by (cases "giving_back s = {}") (auto simp: race_inv_def)
  then have "race_inv h (advance t w s)"
    by (intro advance_idle [OF inv]) (auto simp: Calling)
  then show ?thesis ..
next
  case (Scanning i n)
  let ?pc = "if i < n then if ts_state (threads (sr_reg s) i) = Terminated then Exchanging i n
      else Scanning (i + 1) n else Adding"
  have "race_inv h (advance t w s)"
    by (rule advance_idle [OF inv, where pc = ?pc])
      (use race_inv_facts(1) [OF inv, of t] in \<open>simp_all add: Scanning\<close>)
  then show ?thesis ..
next
  case (Exchanging i n)
  show ?thesis
  proof (cases "ts_state (threads (sr_reg s) i) = Terminated")
    case True
    from race_inv_claim [OF inv Exchanging True] show ?thesis ..
  next
    case False
    then have "race_inv h (advance t w s)"
      using race_inv_facts(1) [OF inv, of t]
      by (intro advance_idle [OF inv, where pc = "Scanning (i + 1) n"]) (simp_all add: Exchanging)
    then show ?thesis ..
  qed
next
  case (Resetting i k)
  note ok = race_inv_facts(1) [OF inv, of t, unfolded Resetting]
  have "race_inv h (advance t w s)"
  proof (cases "k < length reset_stores")
    case True
    have "pc_ok h (upd_thread i (reset_stores ! k) (sr_reg s)) (Resetting i (k + 1))"
      using ok fold_drop_Suc [OF True, of "threads (sr_reg s) i"]
      by (simp add: reset_keeps_state [OF True])
    with True show ?thesis
      by (intro race_inv_own_slot [OF inv, where t = t and i = i and f = "reset_stores ! k"
            and pc = "Resetting i (k + 1)"])
        (simp_all add: Resetting advance_def)
  next
    case False
    with ok have "threads (sr_reg s) i = thread_stats_new" by simp
    with ok False show ?thesis
      by (intro advance_idle [OF inv, where pc = "Initialising i w 0"]) (simp_all add: Resetting)
  qed
  then show ?thesis ..
next
  case Adding
  from race_inv_take [OF inv this] show ?thesis .
next
  case Subtracting
  from race_inv_give_back [OF inv this] show ?thesis ..
next
  case (Initialising i t0 k)
  note ok = race_inv_facts(1) [OF inv, of t, unfolded Initialising]
  have len: "length (init_stores tid t0) = 4" for tid by (simp add: init_stores_def)
  have "race_inv h (advance t w s)"
  proof (cases "k < 4")
    case True
    from ok obtain tid where tid: "threads (sr_reg s) i =
        fold (\<lambda>f. f) (take k (init_stores tid t0)) thread_stats_new"
      by auto
    have "\<exists>tid. (init_stores (of_nat t) t0 ! k) (threads (sr_reg s) i) =
        fold (\<lambda>f. f) (take (Suc k) (init_stores tid t0)) thread_stats_new"
      unfolding tid using init_next [OF True, of "of_nat t" t0 tid] by blast
    with True ok have "pc_ok h (upd_thread i (init_stores (of_nat t) t0 ! k) (sr_reg s)) (Initialising i t0 (k + 1))"
      by auto
    then show ?thesis
      using True
      by (intro race_inv_own_slot [OF inv, where t = t and i = i
            and f = "init_stores (of_nat t) t0 ! k" and pc = "Initialising i t0 (k + 1)"])
        (simp_all add: Initialising advance_def len)
  next
    case False
    with ok show ?thesis
      by (intro advance_idle [OF inv, where pc = "Holding i"])
        (auto simp: Initialising len init_stores_active)
  qed
  then show ?thesis ..
next
  case (Holding i)
  then have "race_inv h (advance t w s)"
    using race_inv_facts(1) [OF inv, of t] by (intro advance_idle [OF inv, where pc = "Holding i"]) simp_all
  then show ?thesis ..
next
  case Refused_slot
  then have "race_inv h (advance t w s)" by (intro advance_idle [OF inv, where pc = Calling]) simp_all
  then show ?thesis ..
next
  case Finished
  then have "race_inv h (advance t w s)" by (intro advance_idle [OF inv, where pc = Finished]) simp_all
  then show ?thesis ..
qed

inductive_cases race_stepE: "race_step s s'"

lemma race_inv_step:
  assumes "race_step s s'" and inv: "race_inv h s"
  shows "\<exists>h'. race_inv h' s'"
  using assms(1)
proof (cases rule: race_step.cases)
  case (next_op t w)
  then show ?thesis using race_inv_advance [OF inv] by simp
next
  case (work t i f)
  have "race_inv h s'"
    by (rule race_inv_own_slot [OF inv, where t = t and i = i and f = f and pc = "Holding i"])
      (use work race_inv_facts(1) [OF inv, of t] in \<open>auto simp: fun_upd_idem\<close>)
  then show ?thesis ..
next
  case (terminate t i)
  have "race_inv h s'"
    by (rule race_inv_own_slot [OF inv, where t = t and i = i and pc = Finished
          and f = "\<lambda>st. st\<lparr>ts_state := Terminated\<rparr>"])
      (use terminate in auto)
  then show ?thesis ..
qed

lemma race_inv_reachable: "race_reachable s \<Longrightarrow> \<exists>h. race_inv h s"
  by (induction rule: race_reachable.induct) (use race_inv_new race_inv_step in blast)+

section \<open>Properties\<close>

text \<open>
  C34. Concurrent allocation: however the atomic operations of any number of threads interleave,
  no two threads ever own the same slot; an owned slot is below the limit, has been handed out and
  is not marked as free for reuse; a thread that comes out of the call, before its first store, has
  a slot whose statistics are all zero; every slot handed out is owned by a thread or marked
  \<open>Terminated\<close>, so none is lost; and \<open>next_slot\<close> exceeds the limit by at most the number of threads
  that are about to take their increment back. Undisturbed, the operations of one call compute
  exactly \<open>allocate_slot\<close>. (Only threads between allocation and cleanup write to a slot here.)
\<close>

theorem concurrent_allocation:
  assumes "race_reachable s"
  shows "(\<forall>t u i. slot_of (sr_pc s t) = Some i \<and> slot_of (sr_pc s u) = Some i \<longrightarrow> t = u) \<and>
    (\<forall>t i. slot_of (sr_pc s t) = Some i \<longrightarrow> i < MAX_THREADS \<and> i < next_slot (sr_reg s) \<and>
       ts_state (threads (sr_reg s) i) \<noteq> Terminated) \<and>
    (\<forall>t i w. sr_pc s t = Initialising i w 0 \<longrightarrow> threads (sr_reg s) i = thread_stats_new) \<and>
    (\<forall>i < min (next_slot (sr_reg s)) MAX_THREADS.
       ts_state (threads (sr_reg s) i) = Terminated \<or> (\<exists>t. slot_of (sr_pc s t) = Some i)) \<and>
    next_slot (sr_reg s) \<le> MAX_THREADS + card {t. sr_pc s t = Subtracting} \<and>
    (\<exists>k. solo tid w k (Calling, r) =
       (case allocate_slot r of
          (Some slot, r') \<Rightarrow> (Initialising slot w 0, r') | (None, r') \<Rightarrow> (Refused_slot, r')))"
proof -
  obtain h where inv: "race_inv h s" using race_inv_reachable [OF assms] ..
  note facts = race_inv_facts [OF inv]
  have own: "i < h \<and> ts_state (threads (sr_reg s) i) \<noteq> Terminated" if "slot_of (sr_pc s t) = Some i" for t i
    using held_not_terminated [OF facts(1) that] .
  have h: "h \<le> MAX_THREADS" "next_slot (sr_reg s) = h + card (giving_back s)"
    using inv by (simp_all add: race_inv_def)
  have m: "min (next_slot (sr_reg s)) MAX_THREADS \<le> h"
    using inv by (cases "giving_back s = {}") (auto simp: race_inv_def)
  have zero: "threads (sr_reg s) i = thread_stats_new" if "sr_pc s t = Initialising i w 0" for t i w
    using facts(1) [of t] that by simp
  have kept: "ts_state (threads (sr_reg s) i) = Terminated \<or> (\<exists>t. slot_of (sr_pc s t) = Some i)"
    if "i < min (next_slot (sr_reg s)) MAX_THREADS" for i
  proof -
    have "i < h" using that m by linarith
    then show ?thesis using inv unfolding race_inv_def by blast
  qed
  have lim: "i < MAX_THREADS \<and> i < next_slot (sr_reg s)" if "i < h" for i
    using that h by simp
  have le: "next_slot (sr_reg s) \<le> MAX_THREADS + card {t. sr_pc s t = Subtracting}"
    using h by (simp add: giving_back_def)
  show ?thesis
    using facts(2) own zero kept lim le solo_allocates [of tid w r] by blast
qed

text \<open>Two threads race for the first slot: one gets slot 0, the other slot 1.\<close>

theorem concurrent_allocation_witness:
  "\<exists>s. race_reachable s \<and> sr_pc s 3 = Initialising 0 7 0 \<and> sr_pc s 5 = Initialising 1 9 0 \<and>
    threads (sr_reg s) 1 = thread_stats_new"
proof -
  let ?s = "advance 5 9 (advance 3 7 (advance 5 9 (advance 3 7 (advance 5 9 (advance 3 7 race_new)))))"
  have r: "race_reachable ?s"
    by (intro race_reachable.step [OF _ next_op] race_reachable.start)
  have pc: "sr_pc ?s 3 = Initialising 0 7 0" "sr_pc ?s 5 = Initialising 1 9 0"
    by (simp_all add: advance_def race_new_def registry_new_def MAX_THREADS_def)
  from concurrent_allocation [OF r] pc(2) have "threads (sr_reg ?s) 1 = thread_stats_new" by blast
  with r pc show ?thesis by blast
qed

end
