(* ===== verification/Utf8.thy ===== *)
theory Utf8
  imports Prelude "HOL-Library.Monad_Syntax"
begin

text \<open>
  UTF-8: what \<open>core::str\<close> promises (the encoding of a scalar value, decoding of the first
  character, validity of a byte sequence, character boundaries) and the encoder of
  \<open>arrayvec-0.7.6/src/char.rs\<close>, which writes into a raw buffer. The encoder is proved to
  write exactly the standard encoding, or nothing when the buffer is too short.
\<close>

section \<open>The encoding\<close>

definition is_scalar :: "u32 \<Rightarrow> bool" where
  "is_scalar c \<longleftrightarrow> unat c < 55296 \<or> 57344 \<le> unat c \<and> unat c < 1114112"

definition utf8_enc :: "u32 \<Rightarrow> u8 list" where
  "utf8_enc c =
     (let n = unat c in
      if n < 128 then [of_nat n]
      else if n < 2048 then [of_nat (192 + n div 64), of_nat (128 + n mod 64)]
      else if n < 65536 then
        [of_nat (224 + n div 4096), of_nat (128 + n div 64 mod 64), of_nat (128 + n mod 64)]
      else [of_nat (240 + n div 262144), of_nat (128 + n div 4096 mod 64),
            of_nat (128 + n div 64 mod 64), of_nat (128 + n mod 64)])"

definition len_utf8 :: "u32 \<Rightarrow> nat" where
  "len_utf8 c = length (utf8_enc c)"

definition is_cont :: "u8 \<Rightarrow> bool" where
  "is_cont b \<longleftrightarrow> 128 \<le> unat b \<and> unat b < 192"

definition six :: "u8 \<Rightarrow> nat" where
  "six b = unat b - 128"

text \<open>The first character of a byte sequence, with its length, when it starts with a valid one.\<close>

fun utf8_dec :: "u8 list \<Rightarrow> (u32 \<times> nat) option" where
  "utf8_dec [] = None"
| "utf8_dec (b0 # bs) =
     (let n0 = unat b0 in
      if n0 < 128 then Some (of_nat n0, 1)
      else if n0 < 194 then None
      else if n0 < 224 then
        (case bs of
           b1 # _ \<Rightarrow> if is_cont b1 then Some (of_nat ((n0 - 192) * 64 + six b1), 2) else None
         | _ \<Rightarrow> None)
      else if n0 < 240 then
        (case bs of
           b1 # b2 # _ \<Rightarrow>
             let n = (n0 - 224) * 4096 + six b1 * 64 + six b2 in
             if is_cont b1 \<and> is_cont b2 \<and> 2048 \<le> n \<and> \<not> (55296 \<le> n \<and> n < 57344)
             then Some (of_nat n, 3) else None
         | _ \<Rightarrow> None)
      else
        (case bs of
           b1 # b2 # b3 # _ \<Rightarrow>
             let n = (n0 - 240) * 262144 + six b1 * 4096 + six b2 * 64 + six b3 in
             if is_cont b1 \<and> is_cont b2 \<and> is_cont b3 \<and> 65536 \<le> n \<and> n < 1114112
             then Some (of_nat n, 4) else None
         | _ \<Rightarrow> None))"

lemma split64: "n div 64 * 64 + n mod 64 = (n::nat)"
  by (rule div_mult_mod_eq)

lemma split4096: "n div 4096 * 4096 + n div 64 mod 64 * 64 + n mod 64 = (n::nat)"
proof -
  have "n div 4096 = n div 64 div 64" by (simp add: div_mult2_eq [symmetric])
  then show ?thesis using split64 [of n] split64 [of "n div 64"] by linarith
qed

lemma split262144:
  "n div 262144 * 262144 + n div 4096 mod 64 * 4096 + n div 64 mod 64 * 64 + n mod 64 = (n::nat)"
proof -
  have "n div 262144 = n div 4096 div 64" by (simp add: div_mult2_eq [symmetric])
  then show ?thesis using split4096 [of n] split64 [of "n div 4096"] by linarith
qed

lemma divmod64: "b < 64 \<Longrightarrow> (a * 64 + b) div 64 = a \<and> (a * 64 + b) mod 64 = (b::nat)"
  by simp

lemma unat_u8 [simp]: "n < 256 \<Longrightarrow> unat (of_nat n :: u8) = n"
  by (rule of_nat_checked) simp

lemma cont_u8: "n < 64 \<Longrightarrow> is_cont (of_nat (128 + n)) \<and> six (of_nat (128 + n)) = n"
  by (simp add: is_cont_def six_def del: of_nat_add)

lemma utf8_dec_enc:
  assumes "is_scalar c"
  shows "utf8_dec (utf8_enc c @ bs) = Some (c, len_utf8 c)"
proof -
  define n where "n = unat c"
  have c: "c = of_nat n" by (simp add: n_def)
  have n: "n < 55296 \<or> 57344 \<le> n \<and> n < 1114112" using assms by (simp add: is_scalar_def n_def)
  have "utf8_dec (utf8_enc c @ bs) = Some (of_nat n, len_utf8 c)"
  proof -
    consider "n < 128" | "128 \<le> n" "n < 2048" | "2048 \<le> n" "n < 65536" | "65536 \<le> n" by linarith
    then show ?thesis
    proof cases
      case 1
      then show ?thesis by (simp add: utf8_enc_def len_utf8_def n_def [symmetric])
    next
      case 2
      define d where "d = n div 64"
      from 2 have "2 \<le> d" "d < 32"
        by (simp_all add: d_def less_mult_imp_div_less less_eq_div_iff_mult_less_eq)
      with 2 show ?thesis
        using cont_u8 [of "n mod 64"] split64 [of n]
        by (simp add: utf8_enc_def len_utf8_def n_def [symmetric] d_def [symmetric] Let_def
            del: of_nat_add)
    next
      case 3
      then have "n div 4096 < 16" by (simp add: less_mult_imp_div_less)
      with 3 n show ?thesis
        using cont_u8 [of "n mod 64"] cont_u8 [of "n div 64 mod 64"] split4096 [of n]
        by (auto simp: utf8_enc_def len_utf8_def n_def [symmetric] Let_def simp del: of_nat_add)
    next
      case 4
      with n have "n div 262144 < 5" by (simp add: less_mult_imp_div_less)
      with 4 n show ?thesis
        using cont_u8 [of "n mod 64"] cont_u8 [of "n div 64 mod 64"] cont_u8 [of "n div 4096 mod 64"]
          split262144 [of n]
        by (simp add: utf8_enc_def len_utf8_def n_def [symmetric] Let_def del: of_nat_add)
    qed
  qed
  then show ?thesis by (simp add: n_def)
qed

lemma utf8_dec_sound:
  assumes "utf8_dec bs = Some (c, k)"
  shows "is_scalar c \<and> take k bs = utf8_enc c \<and> k = len_utf8 c \<and> k \<le> length bs"
proof (cases bs)
  case (Cons b0 bs1)
  have lt: "unat b < 256" for b :: u8 using unsigned_less [of b] by simp
  have u32: "unat (of_nat n :: u32) = n" if "n < 4294967296" for n
    using that by (intro of_nat_checked) simp
  have cont: "128 + six b = unat b" "six b < 64" if "is_cont b" for b
    using that by (auto simp: is_cont_def six_def)
  consider "unat b0 < 128" | "194 \<le> unat b0" "unat b0 < 224" | "224 \<le> unat b0" "unat b0 < 240"
    | "240 \<le> unat b0"
    using assms by (force simp: Cons Let_def split: if_splits)
  then show ?thesis
  proof cases
    case 1
    with assms have c: "c = of_nat (unat b0)" and k: "k = 1" by (simp_all add: Cons)
    have n: "unat c = unat b0" using 1 by (simp only: c u32)
    have "(of_nat (unat c) :: u8) = b0" by (subst n) simp
    then show ?thesis
      using 1 by (simp add: Cons is_scalar_def utf8_enc_def len_utf8_def n k Let_def)
  next
    case 2
    with assms obtain b1 rest where r: "bs1 = b1 # rest" "is_cont b1" "k = 2"
      and c: "c = of_nat ((unat b0 - 192) * 64 + six b1)"
      by (auto simp: Cons Let_def split: list.splits if_splits)
    define h where "h = unat b0 - 192"
    have h: "2 \<le> h" "h < 32" "192 + h = unat b0" using 2 by (auto simp: h_def)
    note l = cont [OF r(2)]
    have n: "unat c = h * 64 + six b1"
      using h l by (simp add: c h_def [symmetric] u32 del: of_nat_add of_nat_mult)
    have "(h * 64 + six b1) div 64 = h" "(h * 64 + six b1) mod 64 = six b1"
      using l by simp_all
    then show ?thesis
      using h l by (simp add: Cons r is_scalar_def utf8_enc_def len_utf8_def n Let_def
          del: of_nat_add of_nat_mult)
  next
    case 3
    with assms obtain b1 b2 rest where r: "bs1 = b1 # b2 # rest" "is_cont b1" "is_cont b2" "k = 3"
      and c: "c = of_nat ((unat b0 - 224) * 4096 + six b1 * 64 + six b2)"
      and rng: "2048 \<le> (unat b0 - 224) * 4096 + six b1 * 64 + six b2"
        "\<not> (55296 \<le> (unat b0 - 224) * 4096 + six b1 * 64 + six b2 \<and>
            (unat b0 - 224) * 4096 + six b1 * 64 + six b2 < 57344)"
      by (auto simp: Cons Let_def split: list.splits if_splits simp del: of_nat_add of_nat_mult)
    define h where "h = unat b0 - 224"
    have h: "h < 16" "224 + h = unat b0" using 3 by (auto simp: h_def)
    note l = cont [OF r(2)] cont [OF r(3)]
    define n where "n = h * 4096 + six b1 * 64 + six b2"
    have n: "unat c = n"
      using h l by (simp add: c h_def [symmetric] n_def u32 del: of_nat_add of_nat_mult)
    have d: "n div 64 = h * 64 + six b1" "n mod 64 = six b2"
      using l divmod64 [of "six b2" "h * 64 + six b1"] by (simp_all add: n_def algebra_simps)
    have "n div 4096 = n div 64 div 64" by (simp add: div_mult2_eq [symmetric])
    with d l have "n div 4096 = h" "n div 64 mod 64 = six b1" by simp_all
    moreover have "2048 \<le> n" "\<not> (55296 \<le> n \<and> n < 57344)" "n < 65536"
      using rng h l by (auto simp: n_def h_def)
    ultimately show ?thesis
      using h l d by (auto simp: Cons r is_scalar_def utf8_enc_def len_utf8_def n Let_def
          simp del: of_nat_add of_nat_mult)
  next
    case 4
    with assms obtain b1 b2 b3 rest where r: "bs1 = b1 # b2 # b3 # rest" "is_cont b1" "is_cont b2"
        "is_cont b3" "k = 4"
      and c: "c = of_nat ((unat b0 - 240) * 262144 + six b1 * 4096 + six b2 * 64 + six b3)"
      and rng: "65536 \<le> (unat b0 - 240) * 262144 + six b1 * 4096 + six b2 * 64 + six b3"
        "(unat b0 - 240) * 262144 + six b1 * 4096 + six b2 * 64 + six b3 < 1114112"
      by (auto simp: Cons Let_def split: list.splits if_splits simp del: of_nat_add of_nat_mult)
    define h where "h = unat b0 - 240"
    have h: "h < 16" "240 + h = unat b0" using 4 lt [of b0] by (auto simp: h_def)
    note l = cont [OF r(2)] cont [OF r(3)] cont [OF r(4)]
    define n where "n = h * 262144 + six b1 * 4096 + six b2 * 64 + six b3"
    have n: "unat c = n"
      using h l by (simp add: c h_def [symmetric] n_def u32 del: of_nat_add of_nat_mult)
    have d: "n div 64 = h * 4096 + six b1 * 64 + six b2" "n mod 64 = six b3"
      using l divmod64 [of "six b3" "h * 4096 + six b1 * 64 + six b2"]
      by (simp_all add: n_def algebra_simps)
    have "n div 4096 = n div 64 div 64" "n div 262144 = n div 64 div 64 div 64"
      by (simp_all add: div_mult2_eq [symmetric])
    with d l have e: "n div 4096 = h * 64 + six b1" "n div 64 mod 64 = six b2" "n div 262144 = h"
      using divmod64 [of "six b2" "h * 64 + six b1"] by (simp_all add: algebra_simps)
    moreover from e l have "n div 4096 mod 64 = six b1" by simp
    moreover have "65536 \<le> n" "n < 1114112" using rng by (simp_all add: n_def h_def)
    ultimately show ?thesis
      using h l d by (simp add: Cons r is_scalar_def utf8_enc_def len_utf8_def n Let_def
          del: of_nat_add of_nat_mult)
  qed
qed (use assms in simp)

section \<open>Valid sequences\<close>

text \<open>\<open>core::str::from_utf8(bs).is_ok()\<close>, and the characters of a valid string.\<close>

function utf8_valid :: "u8 list \<Rightarrow> bool" where
  "utf8_valid bs =
     (bs = [] \<or> (case utf8_dec bs of
                      None \<Rightarrow> False
                    | Some (c, k) \<Rightarrow> utf8_valid (drop k bs)))"
  by pat_completeness auto

function utf8_chars :: "u8 list \<Rightarrow> u32 list" where
  "utf8_chars bs =
     (case utf8_dec bs of
        None \<Rightarrow> []
      | Some (c, k) \<Rightarrow> c # utf8_chars (drop k bs))"
  by pat_completeness auto

lemma len_utf8_bounds: "1 \<le> len_utf8 c" "len_utf8 c \<le> 4"
  by (auto simp: len_utf8_def utf8_enc_def Let_def)

lemma utf8_dec_shorter: "utf8_dec bs = Some (c, k) \<Longrightarrow> length (drop k bs) < length bs"
  using utf8_dec_sound [of bs c k] len_utf8_bounds [of c] by auto

termination utf8_valid
  by (relation "measure length") (use utf8_dec_shorter in auto)

termination utf8_chars
  by (relation "measure length") (use utf8_dec_shorter in auto)

declare utf8_valid.simps [simp del] utf8_chars.simps [simp del]

definition utf8_encode_all :: "u32 list \<Rightarrow> u8 list" where
  "utf8_encode_all cs = concat (map utf8_enc cs)"

lemma utf8_encode_all_simps [simp]:
  "utf8_encode_all [] = []" "utf8_encode_all (c # cs) = utf8_enc c @ utf8_encode_all cs"
  "utf8_encode_all (cs @ ds) = utf8_encode_all cs @ utf8_encode_all ds"
  by (simp_all add: utf8_encode_all_def)

lemma utf8_enc_nonempty [simp]: "utf8_enc c \<noteq> []"
  by (simp add: utf8_enc_def Let_def)

lemma utf8_valid_Nil [simp]: "utf8_valid []"
  by (subst utf8_valid.simps) simp

lemma utf8_valid_enc_append: "is_scalar c \<Longrightarrow> utf8_valid (utf8_enc c @ bs) = utf8_valid bs"
  by (subst utf8_valid.simps) (simp add: utf8_dec_enc len_utf8_def)

lemma utf8_chars_enc_append:
  "is_scalar c \<Longrightarrow> utf8_chars (utf8_enc c @ bs) = c # utf8_chars bs"
  by (subst utf8_chars.simps) (simp add: utf8_dec_enc len_utf8_def)

lemma utf8_chars_Nil [simp]: "utf8_chars [] = []"
  by (subst utf8_chars.simps) simp

text \<open>A byte sequence is valid exactly when it is the encoding of its characters.\<close>

lemma utf8_valid_encode_all: "list_all is_scalar cs \<Longrightarrow> utf8_valid (utf8_encode_all cs)"
  by (induction cs) (auto simp: utf8_valid_enc_append)

lemma utf8_chars_encode_all [codec_simps]:
  "list_all is_scalar cs \<Longrightarrow> utf8_chars (utf8_encode_all cs) = cs"
  by (induction cs) (auto simp: utf8_chars_enc_append)

lemma utf8_valid_chars:
  "utf8_valid bs \<Longrightarrow> list_all is_scalar (utf8_chars bs) \<and> utf8_encode_all (utf8_chars bs) = bs"
proof (induction bs rule: utf8_valid.induct)
  case (1 bs)
  show ?case
  proof (cases "bs = []")
    case False
    with "1.prems" obtain c k where d: "utf8_dec bs = Some (c, k)" and v: "utf8_valid (drop k bs)"
      by (subst (asm) utf8_valid.simps) (auto split: option.splits)
    note s = utf8_dec_sound [OF d]
    have "utf8_chars bs = c # utf8_chars (drop k bs)" by (subst utf8_chars.simps) (simp add: d)
    with s 1 False d v show ?thesis by (metis append_take_drop_id list.pred_inject(2) utf8_encode_all_simps(2))
  qed simp
qed

lemma utf8_valid_iff:
  "utf8_valid bs \<longleftrightarrow> (\<exists>cs. list_all is_scalar cs \<and> bs = utf8_encode_all cs)"
  using utf8_valid_chars utf8_valid_encode_all by metis

lemma utf8_valid_append:
  "utf8_valid as \<Longrightarrow> utf8_valid (as @ bs) \<longleftrightarrow> utf8_valid bs"
proof -
  assume "utf8_valid as"
  then obtain cs where cs: "list_all is_scalar cs" "as = utf8_encode_all cs"
    by (auto simp: utf8_valid_iff)
  then show ?thesis
    by (induction cs arbitrary: as) (auto simp: utf8_valid_enc_append)
qed

lemma utf8_chars_append:
  "utf8_valid as \<Longrightarrow> utf8_chars (as @ bs) = utf8_chars as @ utf8_chars bs"
proof -
  assume "utf8_valid as"
  then obtain cs where cs: "list_all is_scalar cs" "as = utf8_encode_all cs"
    by (auto simp: utf8_valid_iff)
  then show ?thesis
    by (induction cs arbitrary: as) (auto simp: utf8_chars_enc_append)
qed

section \<open>The encoder\<close>

text \<open>
  A raw buffer is a list of cells; a cell that was never written (or was moved out) is
  \<open>None\<close>. The encoder writes from the cell \<open>p\<close> on, of which \<open>len\<close> may be written, and
  answers the number of bytes written, or \<open>None\<close> for \<open>EncodeUtf8Error\<close>.
\<close>

definition TAG_CONT :: u8 where "TAG_CONT = 0x80"
definition TAG_TWO_B :: u8 where "TAG_TWO_B = 0xC0"
definition TAG_THREE_B :: u8 where "TAG_THREE_B = 0xE0"
definition TAG_FOUR_B :: u8 where "TAG_FOUR_B = 0xF0"
definition MAX_ONE_B :: u32 where "MAX_ONE_B = 0x80"
definition MAX_TWO_B :: u32 where "MAX_TWO_B = 0x800"
definition MAX_THREE_B :: u32 where "MAX_THREE_B = 0x10000"

text \<open>\<open>ptr.add(i).write(b)\<close>: a write outside the buffer is undefined behaviour, no result.\<close>

definition put_byte :: "nat \<Rightarrow> u8 \<Rightarrow> u8 option list \<Rightarrow> u8 option list option" where
  "put_byte i b buf = (if i < length buf then Some (buf[i := Some b]) else None)"

definition encode_utf8 ::
  "u32 \<Rightarrow> nat \<Rightarrow> nat \<Rightarrow> u8 option list \<Rightarrow> (nat option \<times> u8 option list) option" where
  "encode_utf8 code p len buf =
     (if code < MAX_ONE_B \<and> len \<ge> 1 then
        do { buf \<leftarrow> put_byte (p + 0) (cast code) buf;
             Some (Some 1, buf) }
      else if code < MAX_TWO_B \<and> len \<ge> 2 then
        do { buf \<leftarrow> put_byte (p + 0) (cast (drop_bit 6 code AND 0x1F) OR TAG_TWO_B) buf;
             buf \<leftarrow> put_byte (p + 1) (cast (code AND 0x3F) OR TAG_CONT) buf;
             Some (Some 2, buf) }
      else if code < MAX_THREE_B \<and> len \<ge> 3 then
        do { buf \<leftarrow> put_byte (p + 0) (cast (drop_bit 12 code AND 0x0F) OR TAG_THREE_B) buf;
             buf \<leftarrow> put_byte (p + 1) (cast (drop_bit 6 code AND 0x3F) OR TAG_CONT) buf;
             buf \<leftarrow> put_byte (p + 2) (cast (code AND 0x3F) OR TAG_CONT) buf;
             Some (Some 3, buf) }
      else if len \<ge> 4 then
        do { buf \<leftarrow> put_byte (p + 0) (cast (drop_bit 18 code AND 0x07) OR TAG_FOUR_B) buf;
             buf \<leftarrow> put_byte (p + 1) (cast (drop_bit 12 code AND 0x3F) OR TAG_CONT) buf;
             buf \<leftarrow> put_byte (p + 2) (cast (drop_bit 6 code AND 0x3F) OR TAG_CONT) buf;
             buf \<leftarrow> put_byte (p + 3) (cast (code AND 0x3F) OR TAG_CONT) buf;
             Some (Some 4, buf) }
      else Some (None, buf))"

lemma tag_table:
  "list_all (\<lambda>k. (of_nat k :: u8) OR 0x80 = of_nat (128 + k)) [0..<64]"
  "list_all (\<lambda>k. (of_nat k :: u8) OR 0xC0 = of_nat (192 + k)) [0..<32]"
  "list_all (\<lambda>k. (of_nat k :: u8) OR 0xE0 = of_nat (224 + k)) [0..<16]"
  "list_all (\<lambda>k. (of_nat k :: u8) OR 0xF0 = of_nat (240 + k)) [0..<8]"
  by code_simp+

lemma tags:
  "k < 64 \<Longrightarrow> (of_nat k :: u8) OR TAG_CONT = of_nat (128 + k)"
  "k < 32 \<Longrightarrow> (of_nat k :: u8) OR TAG_TWO_B = of_nat (192 + k)"
  "k < 16 \<Longrightarrow> (of_nat k :: u8) OR TAG_THREE_B = of_nat (224 + k)"
  "k < 8 \<Longrightarrow> (of_nat k :: u8) OR TAG_FOUR_B = of_nat (240 + k)"
  using tag_table by (auto simp: list_all_iff TAG_CONT_def TAG_TWO_B_def TAG_THREE_B_def TAG_FOUR_B_def)

text \<open>Shifting and masking a code point, as division and remainder.\<close>

lemma cast_bits:
  "(cast (drop_bit s code AND mask m) :: u8) = of_nat (unat (code::u32) div 2 ^ s mod 2 ^ m)"
proof -
  have "unat code < 4294967296" using unsigned_less [of code] by simp
  then have "unat code mod 4294967296 = unat code" by simp
  then have "unat (drop_bit s code AND mask m) = unat code div 2 ^ s mod 2 ^ m"
    by (simp add: take_bit_eq_mask [symmetric] unsigned_take_bit_eq unsigned_drop_bit_eq
        take_bit_eq_mod [where 'a = nat] drop_bit_eq_div [where 'a = nat])
  then show ?thesis by (metis of_nat_unat)
qed

lemma blit_Nil [simp]: "blit [] p buf = buf"
  by (simp add: blit_def)

lemma blit_Cons: "p < length buf \<Longrightarrow> blit (x # xs) p buf = blit xs (Suc p) (buf[p := x])"
  by (simp add: blit_def take_Suc_conv_app_nth)

lemma masks: "(mask 6 :: u32) = 0x3F" "(mask 5 :: u32) = 0x1F" "(mask 4 :: u32) = 0x0F" "(mask 3 :: u32) = 0x07"
  by (simp_all add: mask_eq_exp_minus_1)

lemma encoded_bytes:
  fixes code :: u32
  defines "n \<equiv> unat code"
  shows "(cast (drop_bit s code AND 0x3F) :: u8) OR TAG_CONT = of_nat (128 + n div 2 ^ s mod 64)"
    and "n < 2048 \<Longrightarrow> (cast (drop_bit 6 code AND 0x1F) :: u8) OR TAG_TWO_B = of_nat (192 + n div 64)"
    and "n < 65536 \<Longrightarrow>
      (cast (drop_bit 12 code AND 0x0F) :: u8) OR TAG_THREE_B = of_nat (224 + n div 4096)"
    and "n < 1114112 \<Longrightarrow>
      (cast (drop_bit 18 code AND 0x07) :: u8) OR TAG_FOUR_B = of_nat (240 + n div 262144)"
proof -
  show "(cast (drop_bit s code AND 0x3F) :: u8) OR TAG_CONT = of_nat (128 + n div 2 ^ s mod 64)"
    using tags(1) [of "n div 2 ^ s mod 64"] cast_bits [of s code 6] by (simp add: masks n_def)
  show "(cast (drop_bit 6 code AND 0x1F) :: u8) OR TAG_TWO_B = of_nat (192 + n div 64)" if "n < 2048"
  proof -
    have "n div 64 < 32" using that by (simp add: less_mult_imp_div_less)
    then show ?thesis using tags(2) [of "n div 64"] cast_bits [of 6 code 5] by (simp add: masks n_def)
  qed
  show "(cast (drop_bit 12 code AND 0x0F) :: u8) OR TAG_THREE_B = of_nat (224 + n div 4096)"
    if "n < 65536"
  proof -
    have "n div 4096 < 16" using that by (simp add: less_mult_imp_div_less)
    then show ?thesis using tags(3) [of "n div 4096"] cast_bits [of 12 code 4] by (simp add: masks n_def)
  qed
  show "(cast (drop_bit 18 code AND 0x07) :: u8) OR TAG_FOUR_B = of_nat (240 + n div 262144)"
    if "n < 1114112"
  proof -
    have "n div 262144 < 8" using that by (simp add: less_mult_imp_div_less)
    then show ?thesis using tags(4) [of "n div 262144"] cast_bits [of 18 code 3] by (simp add: masks n_def)
  qed
qed

lemma plus3: "p + 3 = Suc (Suc (Suc p))"
  by simp

lemma encode_utf8_ok:
  assumes p: "p + len_utf8 c \<le> length buf" and len: "len_utf8 c \<le> len" and sc: "is_scalar c"
  shows "encode_utf8 c p len buf = Some (Some (len_utf8 c), blit (map Some (utf8_enc c)) p buf)"
proof -
  define n where "n = unat c"
  have n: "n < 1114112" using sc by (auto simp: is_scalar_def n_def)
  have lt: "c < MAX_ONE_B \<longleftrightarrow> n < 128" "c < MAX_TWO_B \<longleftrightarrow> n < 2048" "c < MAX_THREE_B \<longleftrightarrow> n < 65536"
    by (simp_all add: word_less_nat_alt n_def MAX_ONE_B_def MAX_TWO_B_def MAX_THREE_B_def)
  have c1: "(cast c :: u8) = of_nat n" unfolding n_def by (metis of_nat_unat)
  note eb = encoded_bytes [where code = c, folded n_def]
  have cont0: "(cast (c AND 0x3F) :: u8) OR TAG_CONT = of_nat (128 + n mod 64)"
    using eb(1) [of 0] by simp
  have cont6: "(cast (drop_bit 6 c AND 0x3F) :: u8) OR TAG_CONT = of_nat (128 + n div 64 mod 64)"
    using eb(1) [of 6] by simp
  have cont12: "(cast (drop_bit 12 c AND 0x3F) :: u8) OR TAG_CONT = of_nat (128 + n div 4096 mod 64)"
    using eb(1) [of 12] by simp
  note bytes = cont0 cont6 cont12 eb(2-4)
  consider "n < 128" | "128 \<le> n" "n < 2048" | "2048 \<le> n" "n < 65536" | "65536 \<le> n" by linarith
  then show ?thesis
  proof cases
    case 1
    then have "utf8_enc c = [of_nat n]" by (simp add: utf8_enc_def n_def [symmetric])
    with 1 p len show ?thesis by (simp add: encode_utf8_def put_byte_def lt len_utf8_def c1 blit_Cons)
  next
    case 2
    then have "utf8_enc c = [of_nat (192 + n div 64), of_nat (128 + n mod 64)]"
      by (simp add: utf8_enc_def n_def [symmetric])
    with 2 p len show ?thesis
      by (simp add: encode_utf8_def put_byte_def lt len_utf8_def bytes blit_Cons del: of_nat_add)
  next
    case 3
    then have "utf8_enc c =
        [of_nat (224 + n div 4096), of_nat (128 + n div 64 mod 64), of_nat (128 + n mod 64)]"
      by (simp add: utf8_enc_def n_def [symmetric])
    with 3 p len show ?thesis
      by (simp add: encode_utf8_def put_byte_def lt len_utf8_def bytes blit_Cons del: of_nat_add)
  next
    case 4
    then have "utf8_enc c = [of_nat (240 + n div 262144), of_nat (128 + n div 4096 mod 64),
            of_nat (128 + n div 64 mod 64), of_nat (128 + n mod 64)]"
      by (simp add: utf8_enc_def n_def [symmetric])
    with 4 n p len show ?thesis
      by (simp add: plus3 encode_utf8_def put_byte_def lt len_utf8_def bytes blit_Cons del: of_nat_add)
  qed
qed

lemma encode_utf8_short:
  assumes "len < len_utf8 c"
  shows "encode_utf8 c p len buf = Some (None, buf)"
  using assms
  by (auto simp: encode_utf8_def len_utf8_def utf8_enc_def Let_def word_less_nat_alt
      MAX_ONE_B_def MAX_TWO_B_def MAX_THREE_B_def split: if_splits)

end
