(* ===== verification/Unsafe_Coverage.thy ===== *)
theory Unsafe_Coverage
  imports Runtime Float64 Utf8 "HOL-Library.List_Lexorder" "HOL-Library.Char_ord"
begin

text \<open>
  The unsafe line coverage tracker
  (\<open>unsafe_perf_source/src/unsafe_coverage.rs\<close>): the sets of registered and executed
  locations, the percentage, the run counter and the report. A string is the list of its UTF-8
  bytes; a C string is \<open>None\<close> when the pointer is null and otherwise its bytes up to the
  terminator. The wall clock of the report is a parameter.
\<close>

section \<open>State and operations\<close>

record coverage_tracker =
  registered_lines :: "string set"
  executed_lines :: "string set"
  cov_stats_written :: bool
  run_counter :: usize

definition coverage_new :: coverage_tracker where
  "coverage_new = \<lparr>registered_lines = {}, executed_lines = {}, cov_stats_written = False,
     run_counter = 0\<rparr>"

text \<open>The \<open>i64\<close> line number in decimal.\<close>

definition show_i64 :: "64 word \<Rightarrow> string" where
  "show_i64 w = (if sint w < 0 then CHR ''-'' # show_nat (nat (- sint w)) else show_nat (nat (sint w)))"

definition str_valid :: "string \<Rightarrow> bool" where
  "str_valid s = utf8_valid (map of_char s)"

definition make_location :: "64 word \<Rightarrow> string option \<Rightarrow> string" where
  "make_location line file =
     (case file of
        None \<Rightarrow> ''<unknown>:'' @ show_i64 line
      | Some s \<Rightarrow>
          if str_valid s then s @ '':'' @ show_i64 line
          else ''<invalid>:'' @ show_i64 line)"

definition register_line :: "64 word \<Rightarrow> string option \<Rightarrow> coverage_tracker \<Rightarrow> coverage_tracker" where
  "register_line line file t =
     t\<lparr>registered_lines := insert (make_location line file) (registered_lines t)\<rparr>"

definition track_execution :: "64 word \<Rightarrow> string option \<Rightarrow> coverage_tracker \<Rightarrow> coverage_tracker" where
  "track_execution line file t =
     t\<lparr>executed_lines := insert (make_location line file) (executed_lines t)\<rparr>"

definition get_coverage_percentage :: "coverage_tracker \<Rightarrow> rat" where
  "get_coverage_percentage t =
     (let registered_count = card (registered_lines t);
          executed_count = card (executed_lines t)
      in if registered_count > 0
         then f64_percent (f64_of_nat executed_count) (f64_of_nat registered_count)
         else 0)"

definition get_registered_count :: "coverage_tracker \<Rightarrow> nat" where
  "get_registered_count t = card (registered_lines t)"

definition get_executed_count :: "coverage_tracker \<Rightarrow> nat" where
  "get_executed_count t = card (executed_lines t)"

definition coverage_reset :: "coverage_tracker \<Rightarrow> coverage_tracker" where
  "coverage_reset t = t\<lparr>registered_lines := {}, executed_lines := {}, cov_stats_written := False,
     run_counter := 0\<rparr>"

text \<open>The sections of the report: each sorted location on its line, then an empty line.\<close>

definition location_lines :: "string set \<Rightarrow> string" where
  "location_lines A = concat (map (\<lambda>l. l @ ''\<newline>'') (sorted_list_of_set A))"

definition detailed_stats ::
  "u64 \<Rightarrow> usize \<Rightarrow> string set \<Rightarrow> string set \<Rightarrow> nat \<Rightarrow> nat \<Rightarrow> rat \<Rightarrow> string" where
  "detailed_stats timestamp run_num registered executed registered_count executed_count coverage =
     ''=== RUN_'' @ show_word run_num @ '' ===\<newline>'' @
     ''=== REGISTERED_LINES ===\<newline>'' @ location_lines registered @ ''\<newline>'' @
     ''=== EXECUTED_LINES ===\<newline>'' @ location_lines executed @ ''\<newline>'' @
     ''=== SUMMARY ===\<newline>'' @
     ''registered_count='' @ show_nat registered_count @ ''\<newline>'' @
     ''executed_count='' @ show_nat executed_count @ ''\<newline>'' @
     ''coverage_percentage='' @ fmt2 coverage @ ''\<newline>'' @
     ''run_timestamp='' @ show_word timestamp @ ''\<newline>'' @
     ''\<newline>''"

text \<open>
  \<open>clock\<close> is the number of seconds since the epoch, when the system clock is not before
  it.
\<close>

definition write_detailed_stats ::
  "'fs os_calls \<Rightarrow> u64 option \<Rightarrow> usize \<Rightarrow> string set \<Rightarrow> string set \<Rightarrow> nat \<Rightarrow> nat \<Rightarrow> rat \<Rightarrow>
   'fs rt \<Rightarrow> 'fs rt" where
  "write_detailed_stats os clock run_num registered executed registered_count executed_count
     coverage w =
     (let timestamp = (case clock of Some t \<Rightarrow> t | None \<Rightarrow> 0);
          output = detailed_stats timestamp run_num registered executed registered_count
                     executed_count coverage
      in snd (write_output os output ''unsafe_coverage.stat'' w))"

definition write_stats ::
  "'fs os_calls \<Rightarrow> u64 option \<Rightarrow> coverage_tracker \<Rightarrow> 'fs rt \<Rightarrow> coverage_tracker \<times> 'fs rt" where
  "write_stats os clock t w =
     (if cov_stats_written t then (t, w)
      else
        let t = t\<lparr>cov_stats_written := True\<rparr>;
            registered = registered_lines t;
            executed = executed_lines t;
            registered_count = card registered;
            executed_count = card executed;
            coverage =
              (if registered_count > 0
               then f64_percent (f64_of_nat executed_count) (f64_of_nat registered_count)
               else 0);
            run_num = run_counter t + 1;
            t = t\<lparr>run_counter := run_counter t + 1\<rparr>
        in (t, write_detailed_stats os clock run_num registered executed registered_count
                 executed_count coverage w))"

section \<open>Locations\<close>

lemma show_nat_no_colon: "CHR '':'' \<notin> set (show_nat n)"
  using show_nat_digits [of n] by (auto simp: list_all_iff is_digit_def)

lemma show_i64_no_colon: "CHR '':'' \<notin> set (show_i64 w)"
  by (simp add: show_i64_def show_nat_no_colon)

lemma show_nat_no_minus: "show_nat n \<noteq> CHR ''-'' # cs"
  using show_nat_digits [of n] by (auto simp: is_digit_def)

lemma show_i64_inj: "show_i64 v = show_i64 w \<longleftrightarrow> v = w"
proof
  assume e: "show_i64 v = show_i64 w"
  have "sint v = sint w"
  proof (cases "sint v < 0"; cases "sint w < 0")
    assume "sint v < 0" "\<not> sint w < 0"
    with e show ?thesis by (simp add: show_i64_def) (metis show_nat_no_minus)
  next
    assume "\<not> sint v < 0" "sint w < 0"
    with e show ?thesis by (simp add: show_i64_def) (metis show_nat_no_minus)
  qed (use e in \<open>simp_all add: show_i64_def\<close>)
  then show "v = w" by (rule signed_word_eqI)
qed simp

lemma split_at_last_colon:
  assumes "xs @ CHR '':'' # ys = us @ CHR '':'' # vs" and "CHR '':'' \<notin> set ys" "CHR '':'' \<notin> set vs"
  shows "xs = us \<and> ys = vs"
  using assms
proof (induction xs arbitrary: us)
  case Nil
  then show ?case by (cases us) auto
next
  case (Cons x xs)
  then show ?case by (cases us) auto
qed

section \<open>Traces\<close>

datatype cov_op = Register "64 word" "string option" | Track "64 word" "string option"

fun cov_step :: "cov_op \<Rightarrow> coverage_tracker \<Rightarrow> coverage_tracker" where
  "cov_step (Register line file) t = register_line line file t"
| "cov_step (Track line file) t = track_execution line file t"

definition registered_of :: "cov_op list \<Rightarrow> string set" where
  "registered_of ops = {make_location l f |l f. Register l f \<in> set ops}"

definition executed_of :: "cov_op list \<Rightarrow> string set" where
  "executed_of ops = {make_location l f |l f. Track l f \<in> set ops}"

lemma cov_step_frame [frame_simps, simp]:
  "cov_stats_written (cov_step op t) = cov_stats_written t"
  "run_counter (cov_step op t) = run_counter t"
  by (cases op; simp add: register_line_def track_execution_def)+

lemma registered_of_Cons:
  "registered_of (op # ops) =
     (case op of Register l f \<Rightarrow> {make_location l f} | _ \<Rightarrow> {}) \<union> registered_of ops"
  by (cases op) (auto simp: registered_of_def)

lemma executed_of_Cons:
  "executed_of (op # ops) =
     (case op of Track l f \<Rightarrow> {make_location l f} | _ \<Rightarrow> {}) \<union> executed_of ops"
  by (cases op) (auto simp: executed_of_def)

lemma cov_run_lines:
  "registered_lines (fold cov_step ops t) = registered_lines t \<union> registered_of ops \<and>
   executed_lines (fold cov_step ops t) = executed_lines t \<union> executed_of ops"
proof (induction ops arbitrary: t)
  case Nil
  then show ?case by (simp add: registered_of_def executed_of_def)
next
  case (Cons op ops)
  then show ?case
    by (cases op)
      (auto simp: register_line_def track_execution_def registered_of_Cons executed_of_Cons)
qed

lemma finite_lines: "finite (registered_of ops)" "finite (executed_of ops)"
  by (induction ops) (auto simp: registered_of_Cons executed_of_Cons registered_of_def [of "[]"]
      executed_of_def [of "[]"] split: cov_op.splits)

definition cov_dump :: "'fs os_calls \<Rightarrow> u64 option \<Rightarrow> coverage_tracker \<Rightarrow> 'fs rt \<Rightarrow>
    (coverage_tracker \<times> 'fs rt) option" where
  "cov_dump os clock t w = Some (write_stats os clock t w)"

interpretation cov_once: dump_once "\<lambda>op t. Some (cov_step op t)" "cov_dump os clock"
  cov_stats_written for os :: "'fs os_calls" and clock
  by unfold_locales (auto simp: cov_dump_def write_stats_def Let_def split: if_splits)

text \<open>A source location as the compiler pass passes it: a line of a file with a valid name.\<close>

lemma make_location_inj:
  assumes "str_valid f" and "str_valid g"
  shows "make_location l (Some f) = make_location m (Some g) \<longleftrightarrow> l = m \<and> f = g"
  using assms split_at_last_colon [of f "show_i64 l" g "show_i64 m"]
  by (auto simp: make_location_def show_i64_no_colon show_i64_inj)

section \<open>Properties\<close>

text \<open>
  C28. The counts are the numbers of distinct source lines: for files with valid names, a
  history of registrations and executions makes the tracker report as many registered
  (executed) lines as there are distinct pairs of a line and a file registered (executed).
\<close>

theorem coverage_counts_lines:
  assumes "\<forall>op \<in> set ops. \<exists>l f. (op = Register l (Some f) \<or> op = Track l (Some f)) \<and> str_valid f"
  shows "get_registered_count (fold cov_step ops coverage_new) =
      card {(l, f). Register l (Some f) \<in> set ops} \<and>
    get_executed_count (fold cov_step ops coverage_new) =
      card {(l, f). Track l (Some f) \<in> set ops}"
proof -
  let ?loc = "\<lambda>(l, f). make_location l (Some f)"
  let ?R = "{(l, f). Register l (Some f) \<in> set ops}" and ?E = "{(l, f). Track l (Some f) \<in> set ops}"
  have vR: "\<exists>f'. f = Some f' \<and> str_valid f'" if "Register l f \<in> set ops" for l f
    using assms that by fastforce
  have vE: "\<exists>f'. f = Some f' \<and> str_valid f'" if "Track l f \<in> set ops" for l f
    using assms that by fastforce
  have "registered_of ops = ?loc ` ?R"
  proof -
    have "?loc ` ?R = {make_location l (Some f) |l f. Register l (Some f) \<in> set ops}" by auto
    moreover have "registered_of ops = {make_location l (Some f) |l f. Register l (Some f) \<in> set ops}"
      unfolding registered_of_def using vR by blast
    ultimately show ?thesis by simp
  qed
  moreover have "executed_of ops = ?loc ` ?E"
  proof -
    have "?loc ` ?E = {make_location l (Some f) |l f. Track l (Some f) \<in> set ops}" by auto
    moreover have "executed_of ops = {make_location l (Some f) |l f. Track l (Some f) \<in> set ops}"
      unfolding executed_of_def using vE by blast
    ultimately show ?thesis by simp
  qed
  moreover have "inj_on ?loc ?R"
    proof (rule inj_onI)
    have "str_valid f" if "Register l (Some f) \<in> set ops" for l f using vR [OF that] by simp
    then show "x = y" if "x \<in> ?R" "y \<in> ?R" "?loc x = ?loc y" for x y
      using that by (cases x; cases y) (auto simp: make_location_inj)
  qed
  moreover have "inj_on ?loc ?E"
    proof (rule inj_onI)
    have "str_valid f" if "Track l (Some f) \<in> set ops" for l f using vE [OF that] by simp
    then show "x = y" if "x \<in> ?E" "y \<in> ?E" "?loc x = ?loc y" for x y
      using that by (cases x; cases y) (auto simp: make_location_inj)
  qed
  ultimately show ?thesis
    using cov_run_lines [of ops coverage_new]
    by (simp add: get_registered_count_def get_executed_count_def coverage_new_def card_image)
qed

theorem coverage_counts_lines_witness:
  "get_registered_count (fold cov_step [Register 3 (Some ''a.rs''), Register 3 (Some ''b:4''),
      Register 3 (Some ''a.rs'')] coverage_new) =
   card {(3 :: 64 word, ''a.rs''), (3, ''b:4'')}"
proof -
  let ?ops = "[Register 3 (Some ''a.rs''), Register 3 (Some ''b:4''), Register 3 (Some ''a.rs'')]"
  have "str_valid ''a.rs''" "str_valid ''b:4''" by code_simp+
  then have "get_registered_count (fold cov_step ?ops coverage_new) =
      card {(l, f). Register l (Some f) \<in> set ?ops}"
    by (intro coverage_counts_lines [THEN conjunct1]) auto
  moreover have "{(l, f). Register l (Some f) \<in> set ?ops} = {(3, ''a.rs''), (3, ''b:4'')}"
    by auto
  ultimately show ?thesis by simp
qed

text \<open>
  C30. The percentage is meaningful when every executed line was registered: it lies between
  0 and 100, it is 100 when all registered lines were executed, and 0 when none was.
\<close>

theorem coverage_percentage_bounds:
  assumes "executed_of ops \<subseteq> registered_of ops" and "card (registered_of ops) < 2 ^ 53"
  defines "t \<equiv> fold cov_step ops coverage_new"
  shows "0 \<le> get_coverage_percentage t \<and> get_coverage_percentage t \<le> 100 \<and>
    (executed_of ops = registered_of ops \<and> registered_of ops \<noteq> {} \<longrightarrow>
       get_coverage_percentage t = 100) \<and>
    (executed_of ops = {} \<longrightarrow> get_coverage_percentage t = 0)"
proof -
  have l: "registered_lines t = registered_of ops" "executed_lines t = executed_of ops"
    using cov_run_lines [of ops coverage_new] by (simp_all add: t_def coverage_new_def)
  have le: "card (executed_of ops) \<le> card (registered_of ops)"
    using assms(1) finite_lines by (intro card_mono) auto
  note b = f64_percent_bounds [OF le assms(2)]
  have pct: "get_coverage_percentage t = (if card (registered_of ops) = 0 then 0
      else f64_percent (f64_of_nat (card (executed_of ops))) (f64_of_nat (card (registered_of ops))))"
    by (simp add: get_coverage_percentage_def l Let_def)
  have "get_coverage_percentage t = 100"
    if "executed_of ops = registered_of ops" "registered_of ops \<noteq> {}"
    using that finite_lines f64_percent_full [OF _ assms(2)] by (simp add: pct card_gt_0_iff)
  moreover have "get_coverage_percentage t = 0" if "executed_of ops = {}"
    by (simp add: pct that f64_percent_def f64_div_def f64_mul_def f64_of_nat_def f64_round_def)
  ultimately show ?thesis using b by (simp add: pct)
qed

theorem coverage_percentage_bounds_witness:
  "get_coverage_percentage (fold cov_step [Register 3 None, Track 3 None] coverage_new) = 100"
proof -
  let ?ops = "[Register 3 None, Track 3 None]"
  have "executed_of ?ops = {make_location 3 None}" "registered_of ?ops = {make_location 3 None}"
    by (auto simp: executed_of_def registered_of_def)
  then show ?thesis using coverage_percentage_bounds [of ?ops] by simp
qed

text \<open>
  C31. The report is written once between resets: after the first request nothing further is
  written, whatever lines are registered or executed in between; a reset allows the next one.
\<close>

theorem coverage_written_once:
  assumes "run_events (\<lambda>op t. Some (cov_step op t)) (cov_dump os clock) (Dump # evs) t w = Some (t2, w2)"
  shows "\<exists>t1. write_stats os clock t w = (t1, w2) \<and> \<not> cov_stats_written (coverage_reset t2)"
  using cov_once.run_after_dump [OF assms] by (auto simp: cov_dump_def coverage_reset_def)

theorem coverage_written_once_witness:
  "\<exists>t1 w2. write_stats mem_os None coverage_new (rt_new Map.empty) = (t1, w2) \<and>
     rt_fs w2 ''/tmp/unsafe_coverage.stat'' \<noteq> None"
proof -
  obtain t2 w2 where r: "run_events (\<lambda>op t. Some (cov_step op t)) (cov_dump mem_os None)
      [Dump, Step (Register 3 None), Dump] coverage_new (rt_new Map.empty) = Some (t2, w2)"
    by (simp add: cov_dump_def write_stats_def coverage_new_def register_line_def Let_def)
  from coverage_written_once [OF this] obtain t1
    where t1: "write_stats mem_os None coverage_new (rt_new Map.empty) = (t1, w2)" by blast
  then have "rt_fs w2 ''/tmp/unsafe_coverage.stat'' \<noteq> None"
    by (auto simp: write_stats_def coverage_new_def Let_def write_detailed_stats_def rt_new_def
        write_output_def write_file_def mem_os_def get_output_dir_def path_join_def)
  with t1 show ?thesis by blast
qed

end
