(* ===== verification/Process_Exit.thy ===== *)
theory Process_Exit
  imports Unsafe_Counter Heap_Tracker Cpu_Cycles Unsafe_Coverage
begin

text \<open>
  The four trackers in one process, sharing the runtime of \<open>lib.rs\<close>: recording calls and
  destructors in any order, and what the statistics files hold afterwards. The file system is a
  parameter with the contract of appending to files (\<open>append_fs\<close>). The heap tracker is the
  allocator of the whole process, so every call of another tracker comes with the allocator calls
  it makes.
\<close>

section \<open>A file system that appends\<close>

locale append_fs =
  fixes os :: "'fs os_calls" and content :: "'fs \<Rightarrow> string \<Rightarrow> string"
  assumes mkdir: "content (os_create_dir_all os p f) = content f"
    and open_ok: "\<exists>f'. os_open_append os p f = (Inr (), f') \<and> content f' = content f"
    and write_ok: "\<exists>f'. os_write_all os p c f = (Inr (), f') \<and>
      content f' = (content f)(p := content f p @ c)"
begin

lemma write_file_appends:
  "fst (write_file os c n f) = Inr () \<and>
   content (snd (write_file os c n f)) =
     (let p = path_join (get_output_dir os) n in (content f)(p := content f p @ c @ ''\<newline>''))"
proof -
  let ?p = "path_join (get_output_dir os) n"
  define f1 where "f1 = (case path_parent ?p of Some d \<Rightarrow> os_create_dir_all os d f | None \<Rightarrow> f)"
  have c1: "content f1 = content f" by (simp add: f1_def mkdir split: option.split)
  obtain f2 where f2: "os_open_append os ?p f1 = (Inr (), f2)" "content f2 = content f1"
    using open_ok by blast
  obtain f3 where f3: "os_write_all os ?p c f2 = (Inr (), f3)"
      "content f3 = (content f2)(?p := content f2 ?p @ c)"
    using write_ok by blast
  obtain f4 where f4: "os_write_all os ?p ''\<newline>'' f3 = (Inr (), f4)"
      "content f4 = (content f3)(?p := content f3 ?p @ ''\<newline>'')"
    using write_ok by blast
  have "write_file os c n f = (Inr (), f4)"
    using f2 f3 f4 by (simp add: write_file_def Let_def flip: f1_def)
  then show ?thesis by (simp add: f4 f3 f2 c1 Let_def)
qed

lemma write_output_appends:
  "fst (write_output os c n w) = Inr () \<and>
   content (rt_fs (snd (write_output os c n w))) =
     (let p = path_join (get_output_dir os) n in
      (content (rt_fs w))(p := content (rt_fs w) p @ c @ ''\<newline>''))"
  using write_file_appends [of c n "rt_fs w"]
  by (auto simp: write_output_def Let_def split: prod.splits)

end

definition mem_content :: "(string \<rightharpoonup> string) \<Rightarrow> string \<Rightarrow> string" where
  "mem_content f p = (case f p of None \<Rightarrow> [] | Some s \<Rightarrow> s)"

lemma mem_content_upd: "mem_content (f(p \<mapsto> s)) = (mem_content f)(p := s)"
  by (simp add: mem_content_def fun_eq_iff)

interpretation mem_fs: append_fs mem_os mem_content
proof unfold_locales
  fix p and f :: "string \<rightharpoonup> string"
  have "f(p \<mapsto> (case f p of None \<Rightarrow> [] | Some s \<Rightarrow> s)) = f(p \<mapsto> mem_content f p)"
    by (simp add: mem_content_def)
  then show "\<exists>f'. os_open_append mem_os p f = (Inr (), f') \<and> mem_content f' = mem_content f"
    by (simp add: mem_os_def mem_content_upd)
next
  fix p c and f :: "string \<rightharpoonup> string"
  have "f(p \<mapsto> (case f p of None \<Rightarrow> c | Some s \<Rightarrow> s @ c)) = f(p \<mapsto> mem_content f p @ c)"
    by (simp add: mem_content_def split: option.split)
  then show "\<exists>f'. os_write_all mem_os p c f = (Inr (), f') \<and>
      mem_content f' = (mem_content f)(p := mem_content f p @ c)"
    by (simp add: mem_os_def mem_content_upd)
qed (simp add: mem_os_def)

section \<open>The process\<close>

record 'fs perf =
  pf_rt :: "'fs rt"
  pf_counter :: unsafe_tracker
  pf_heap :: heap_tracker
  pf_cpu :: cpu
  pf_cov :: coverage_tracker

text \<open>
  The constructor of the library (\<open>init_unsafe_perf_runtime\<close>) on the initial state of every
  static.
\<close>

definition perf_start :: "'fs \<Rightarrow> cpu \<Rightarrow> 'fs perf" where
  "perf_start f c = \<lparr>pf_rt = initialize_runtime True (rt_new f), pf_counter = tracker_new,
     pf_heap = heap_tracker_new, pf_cpu = c, pf_cov = coverage_new\<rparr>"

datatype dtor = Drop_counter | Drop_heap | Drop_cycles | Drop_coverage

datatype perf_ev =
  Ev_metadata "function_metadata list" u32
| Ev_counter uc_op
| Ev_heap heap_ev
| Ev_cycles cyc_op
| Ev_cov cov_op
| Exit dtor

fun filename :: "dtor \<Rightarrow> string" where
  "filename Drop_counter = ''unsafe_counter.stat''"
| "filename Drop_heap = ''heap_stat.stat''"
| "filename Drop_cycles = ''cpu_cycle.stat''"
| "filename Drop_coverage = ''unsafe_coverage.stat''"

text \<open>
  The destructors: \<open>__unsafe_dump_stats\<close> and \<open>cleanup\<close>; \<open>dump_stats\<close> of the heap tracker;
  \<open>print_cpu_cycle_stats\<close> and \<open>final_cleanup\<close>; \<open>print_unsafe_coverage_stats\<close> and
  \<open>dump_coverage_at_exit\<close>.
\<close>

fun run_dtor :: "'fs os_calls \<Rightarrow> u64 option \<Rightarrow> dtor \<Rightarrow> 'fs perf \<Rightarrow> 'fs perf option" where
  "run_dtor os clock Drop_counter p =
     do { (t, w) \<leftarrow> uc_dump_stats os (pf_counter p) (pf_rt p);
          Some (p\<lparr>pf_counter := t, pf_rt := w\<rparr>) }"
| "run_dtor os clock Drop_heap p =
     (let (s, w) = ht_dump_stats os (pf_heap p) (pf_rt p) in Some (p\<lparr>pf_heap := s, pf_rt := w\<rparr>))"
| "run_dtor os clock Drop_cycles p =
     do { (c, w) \<leftarrow> cpu_print os (pf_cpu p) (pf_rt p); Some (p\<lparr>pf_cpu := c, pf_rt := w\<rparr>) }"
| "run_dtor os clock Drop_coverage p =
     do { (t, w) \<leftarrow> cov_dump os clock (pf_cov p) (pf_rt p); Some (p\<lparr>pf_cov := t, pf_rt := w\<rparr>) }"

fun perf_act :: "'fs os_calls \<Rightarrow> u64 option \<Rightarrow> perf_ev \<Rightarrow> 'fs perf \<Rightarrow> 'fs perf option" where
  "perf_act os clock (Ev_metadata md n) p =
     do { t \<leftarrow> init_metadata md n (pf_counter p); Some (p\<lparr>pf_counter := t\<rparr>) }"
| "perf_act os clock (Ev_counter op) p =
     do { t \<leftarrow> uc_step op (pf_counter p); Some (p\<lparr>pf_counter := t\<rparr>) }"
| "perf_act os clock (Ev_heap e) p = Some (p\<lparr>pf_heap := ht_step e (pf_heap p)\<rparr>)"
| "perf_act os clock (Ev_cycles op) p = Some (p\<lparr>pf_cpu := cyc_step op (pf_cpu p)\<rparr>)"
| "perf_act os clock (Ev_cov op) p = Some (p\<lparr>pf_cov := cov_step op (pf_cov p)\<rparr>)"
| "perf_act os clock (Exit d) p = run_dtor os clock d p"

text \<open>
  \<open>HEAP_TRACKER\<close> is the \<open>global_allocator\<close>: the strings, hash sets and paths that a call of any
  tracker builds are allocated, grown and freed by it. Which calls these are is up to the standard
  library, so each call comes with them as a list \<open>allocs\<close>. The calls of the other trackers do
  not read the heap tracker's state; \<open>dump_stats\<close> of the heap tracker loads its counters before its
  first allocation and makes all of them after setting \<open>SKIP_TRACKING\<close>, hence after the action.
\<close>

type_synonym perf_call = "perf_ev \<times> heap_ev list"

fun perf_step :: "'fs os_calls \<Rightarrow> u64 option \<Rightarrow> perf_call \<Rightarrow> 'fs perf \<Rightarrow> 'fs perf option" where
  "perf_step os clock (e, allocs) p =
     do { p' \<leftarrow> perf_act os clock e p; Some (p'\<lparr>pf_heap := fold ht_step allocs (pf_heap p')\<rparr>) }"

fun perf_run :: "'fs os_calls \<Rightarrow> u64 option \<Rightarrow> perf_call list \<Rightarrow> 'fs perf \<Rightarrow> 'fs perf option" where
  "perf_run os clock [] p = Some p"
| "perf_run os clock (e # evs) p = do { p' \<leftarrow> perf_step os clock e p; perf_run os clock evs p' }"

text \<open>The record a tracker would write from its present state, and whether it has written.\<close>

fun report :: "u64 option \<Rightarrow> dtor \<Rightarrow> 'fs perf \<Rightarrow> string" where
  "report clock Drop_counter p =
     (if metadata_initialized (pf_counter p) \<and> metadata_count (pf_counter p) \<noteq> 0
      then format_uc_stats (the (collect_stats (pf_counter p))) @ ''\<newline>'' else [])"
| "report clock Drop_heap p = format_heap_stats (pf_heap p) @ ''\<newline>''"
| "report clock Drop_cycles p = format_cpu_stats (calculate_total_stats (reg (pf_cpu p))) @ ''\<newline>''"
| "report clock Drop_coverage p =
     detailed_stats (case clock of Some t \<Rightarrow> t | None \<Rightarrow> 0) (run_counter (pf_cov p) + 1)
       (registered_lines (pf_cov p)) (executed_lines (pf_cov p)) (get_registered_count (pf_cov p))
       (get_executed_count (pf_cov p)) (get_coverage_percentage (pf_cov p)) @ ''\<newline>''"

fun written :: "dtor \<Rightarrow> 'fs perf \<Rightarrow> bool" where
  "written Drop_counter p = uc_stats_written (pf_counter p)"
| "written Drop_heap p = False"
| "written Drop_cycles p = reg_stats_written (reg (pf_cpu p))"
| "written Drop_coverage p = cov_stats_written (pf_cov p)"

definition stat_file :: "'fs os_calls \<Rightarrow> dtor \<Rightarrow> string" where
  "stat_file os d = path_join (get_output_dir os) (filename d)"

lemma stat_file_inj [simp]: "stat_file os d = stat_file os d' \<longleftrightarrow> d = d'"
  by (cases d; cases d') (simp_all add: stat_file_def path_join_def)

section \<open>One destructor\<close>

abbreviation files :: "('fs \<Rightarrow> string \<Rightarrow> string) \<Rightarrow> 'fs perf \<Rightarrow> string \<Rightarrow> string" where
  "files content p \<equiv> content (rt_fs (pf_rt p))"

lemma function_stats_written [simp]:
  "function_stats (t\<lparr>uc_stats_written := b\<rparr>) is a = function_stats t is a"
proof (induction "is" arbitrary: a)
  case (Cons i "is")
  then show ?case
    by (cases a) (simp add: Let_def bitset_is_set_def cong: option.case_cong split: bind_split)
qed simp

lemma collect_stats_written [simp]: "collect_stats (t\<lparr>uc_stats_written := b\<rparr>) = collect_stats t"
  by (simp add: collect_stats_def)

lemma add_slots_written: "add_slots (r\<lparr>reg_stats_written := b\<rparr>) ks a = add_slots r ks a"
  by (induction ks arbitrary: a) (simp_all add: Let_def)

lemma total_stats_written [simp]:
  "calculate_total_stats (r\<lparr>reg_stats_written := b\<rparr>) = calculate_total_stats r"
  by (simp add: calculate_total_stats_def add_slots_written)

lemma run_dtor_files:
  assumes "append_fs os content" and "run_dtor os clock d p = Some q"
  shows "files content q = (files content p)(stat_file os d :=
      files content p (stat_file os d) @ (if written d p then [] else report clock d p))"
proof (cases d)
  case Drop_counter
  with assms append_fs.write_output_appends [OF assms(1)] show ?thesis
    by (auto simp: uc_dump_stats_def Let_def stat_file_def unat_eq_zero split: if_splits bind_splits)
next
  case Drop_heap
  with assms append_fs.write_output_appends [OF assms(1)] show ?thesis
    by (auto simp: ht_dump_stats_def Let_def stat_file_def)
next
  case Drop_cycles
  with assms append_fs.write_output_appends [OF assms(1)] show ?thesis
    by (auto simp: cpu_print_def print_cpu_cycle_stats_def cpu_dump_stats_def Let_def stat_file_def
        split: if_splits)
next
  case Drop_coverage
  with assms append_fs.write_output_appends [OF assms(1)] show ?thesis
    by (auto simp: cov_dump_def write_stats_def write_detailed_stats_def Let_def stat_file_def
        get_registered_count_def get_executed_count_def get_coverage_percentage_def split: if_splits)
qed

text \<open>After its destructor a tracker has written; a step never takes that back.\<close>

lemma run_dtor_written:
  "run_dtor os clock d p = Some q \<Longrightarrow> d \<noteq> Drop_heap \<Longrightarrow> written d q"
  by (cases d)
    (auto simp: uc_dump_stats_def cpu_print_def print_cpu_cycle_stats_def cov_dump_def write_stats_def
      Let_def split: if_splits bind_splits)

lemma run_dtor_other:
  "run_dtor os clock d p = Some q \<Longrightarrow> d' \<noteq> d \<Longrightarrow> written d' q = written d' p"
  by (cases d; cases d') (auto split: bind_splits prod.splits)

lemma perf_act_written:
  assumes "perf_act os clock e p = Some q" and "e \<noteq> Exit d"
  shows "written d q = written d p"
proof (cases e)
  case (Ev_metadata md n)
  with assms show ?thesis
    by (cases d) (auto simp: init_metadata_def Let_def split: bind_splits if_splits)
next
  case (Ev_counter op)
  with assms show ?thesis by (cases d) (auto split: bind_splits dest: uc_step_frame)
next
  case (Ev_cycles op)
  with assms show ?thesis by (cases d) (auto simp: written_step simp del: cyc_step.simps)
next
  case (Ev_cov op)
  with assms show ?thesis
    by (cases d; cases op) (auto simp: register_line_def track_execution_def)
next
  case (Exit d')
  with assms run_dtor_other [of os clock d' p q d] show ?thesis by auto
qed (use assms in \<open>cases d; auto\<close>)+

lemma perf_act_files:
  assumes "append_fs os content" "perf_act os clock e p = Some q" "e \<noteq> Exit d"
  shows "files content q (stat_file os d) = files content p (stat_file os d)"
proof (cases e)
  case (Exit d')
  with assms run_dtor_files [OF assms(1), of clock d' p q] show ?thesis by auto
qed (use assms in \<open>auto split: bind_splits\<close>)

text \<open>The allocator calls of a call change the heap tracker and nothing else.\<close>

lemma written_heap [simp]: "written d (p\<lparr>pf_heap := h\<rparr>) = written d p"
  by (cases d) simp_all

lemma perf_run_Cons:
  "perf_run os clock (c # cs) p = Some q \<longleftrightarrow>
   (\<exists>p1. perf_act os clock (fst c) p = Some p1 \<and>
     perf_run os clock cs (p1\<lparr>pf_heap := fold ht_step (snd c) (pf_heap p1)\<rparr>) = Some q)"
  by (cases c) (auto split: bind_splits)

lemma perf_run_no_exit:
  assumes "append_fs os content"
  shows "perf_run os clock cs p = Some q \<Longrightarrow> Exit d \<notin> fst ` set cs \<Longrightarrow>
    written d q = written d p \<and> files content q (stat_file os d) = files content p (stat_file os d)"
proof (induction cs arbitrary: p)
  case (Cons c cs)
  then obtain p1 where "perf_act os clock (fst c) p = Some p1"
      "perf_run os clock cs (p1\<lparr>pf_heap := fold ht_step (snd c) (pf_heap p1)\<rparr>) = Some q"
    unfolding perf_run_Cons by blast
  with Cons perf_act_written [of os clock "fst c" p p1 d] perf_act_files [OF assms, of clock "fst c" p p1 d]
  show ?case by auto
qed simp

lemma perf_run_written:
  assumes "append_fs os content" and "d \<noteq> Drop_heap"
  shows "perf_run os clock cs p = Some q \<Longrightarrow> written d p \<Longrightarrow>
    files content q (stat_file os d) = files content p (stat_file os d)"
proof (induction cs arbitrary: p)
  case (Cons c cs)
  then obtain p1 where p1: "perf_act os clock (fst c) p = Some p1"
      "perf_run os clock cs (p1\<lparr>pf_heap := fold ht_step (snd c) (pf_heap p1)\<rparr>) = Some q"
    unfolding perf_run_Cons by blast
  show ?case
  proof (cases "fst c = Exit d")
    case True
    with p1 Cons.prems run_dtor_files [OF assms(1), of clock d p p1] run_dtor_written [of os clock d p p1]
    show ?thesis using Cons.IH [OF p1(2)] assms(2) by simp
  next
    case False
    with Cons p1 perf_act_written [OF p1(1) False] perf_act_files [OF assms(1) p1(1) False]
    show ?thesis by simp
  qed
qed simp

lemma perf_run_append:
  "perf_run os clock (cs @ cs') p =
     (case perf_run os clock cs p of None \<Rightarrow> None | Some p' \<Rightarrow> perf_run os clock cs' p')"
  by (induction cs arbitrary: p) (auto split: bind_split option.split)

section \<open>Each tracker for itself\<close>

text \<open>
  What of a run concerns one tracker: for the heap tracker its own calls and the allocator calls
  of every other call, for the others their own calls.
\<close>

fun own :: "dtor \<Rightarrow> perf_ev \<Rightarrow> bool" where
  "own Drop_counter (Ev_metadata md n) \<longleftrightarrow> True"
| "own Drop_counter (Ev_counter op) \<longleftrightarrow> True"
| "own Drop_heap (Ev_heap e) \<longleftrightarrow> True"
| "own Drop_cycles (Ev_cycles op) \<longleftrightarrow> True"
| "own Drop_coverage (Ev_cov op) \<longleftrightarrow> True"
| "own d e \<longleftrightarrow> False"

fun own_calls :: "dtor \<Rightarrow> perf_call \<Rightarrow> perf_call list" where
  "own_calls d (e, allocs) =
     (if own d e then [(e, [])] else []) @
     (if d = Drop_heap then map (\<lambda>a. (Ev_heap a, [])) allocs else [])"

fun same_part :: "dtor \<Rightarrow> 'fs perf \<Rightarrow> 'fs perf \<Rightarrow> bool" where
  "same_part Drop_counter p q \<longleftrightarrow> pf_counter p = pf_counter q"
| "same_part Drop_heap p q \<longleftrightarrow> pf_heap p = pf_heap q"
| "same_part Drop_cycles p q \<longleftrightarrow> pf_cpu p = pf_cpu q"
| "same_part Drop_coverage p q \<longleftrightarrow> pf_cov p = pf_cov q"

lemma same_part_act:
  assumes "same_part d p p'" and "perf_act os clock e p = Some q" and "e \<noteq> Exit d"
  shows "if own d e then \<exists>q'. perf_act os clock e p' = Some q' \<and> same_part d q q' else same_part d q p'"
proof (cases e)
  case (Exit d')
  with assms show ?thesis by (cases d; cases d') (auto split: bind_splits prod.splits)
qed (use assms in \<open>cases d; auto split: bind_splits\<close>)+

lemma perf_run_allocs:
  "perf_run os clock (map (\<lambda>a. (Ev_heap a, [])) allocs) p =
     Some (p\<lparr>pf_heap := fold ht_step allocs (pf_heap p)\<rparr>)"
  by (induction allocs arbitrary: p) simp_all

lemma same_part_step:
  assumes "same_part d p p'" and "perf_act os clock e p = Some q" and "e \<noteq> Exit d"
  shows "\<exists>q'. perf_run os clock (own_calls d (e, allocs)) p' = Some q' \<and>
    same_part d (q\<lparr>pf_heap := fold ht_step allocs (pf_heap q)\<rparr>) q'"
proof -
  obtain p1 where p1: "perf_run os clock (if own d e then [(e, [])] else []) p' = Some p1"
      "same_part d q p1"
    using same_part_act [OF assms] by (cases "own d e") auto
  then show ?thesis
    by (cases d) (auto simp: perf_run_append perf_run_allocs)
qed

lemma same_part_run:
  "same_part d p p' \<Longrightarrow> perf_run os clock cs p = Some q \<Longrightarrow> Exit d \<notin> fst ` set cs \<Longrightarrow>
   \<exists>q'. perf_run os clock (concat (map (own_calls d) cs)) p' = Some q' \<and> same_part d q q'"
proof (induction cs arbitrary: p p')
  case (Cons c cs)
  obtain e allocs where c: "c = (e, allocs)" by (cases c)
  from Cons.prems(2) obtain p1 where p1: "perf_act os clock e p = Some p1"
      "perf_run os clock cs (p1\<lparr>pf_heap := fold ht_step allocs (pf_heap p1)\<rparr>) = Some q"
    unfolding perf_run_Cons c by auto
  from same_part_step [OF Cons.prems(1) p1(1), of allocs] Cons.prems(3) obtain q' where
      q': "perf_run os clock (own_calls d c) p' = Some q'"
        "same_part d (p1\<lparr>pf_heap := fold ht_step allocs (pf_heap p1)\<rparr>) q'"
    by (auto simp: c)
  from Cons.IH [OF q'(2) p1(2)] Cons.prems(3) show ?case
    by (simp add: perf_run_append q'(1))
qed simp

lemma same_part_report: "same_part d p q \<Longrightarrow> report clock d p = report clock d q"
  by (cases d) auto

section \<open>Properties\<close>

text \<open>
  C3. At exit every tracker's statistics reach its own file, once. Take any single-threaded run of recording
  calls and destructors that does not panic and in which tracker \<open>d\<close>'s first destructor call
  comes after \<open>pre\<close>, from a state in which it has not written yet, on a file system whose opens
  and writes succeed. Then the tracker's file ends up as what it held before followed by one record,
  whatever the other trackers write, and this record is the one the tracker would write after the part of
  \<open>pre\<close> that concerns it alone: for the instruction counter, the cycle counter and the coverage
  tracker their own calls; for the heap tracker, which is the allocator of the process, its own calls
  together with the allocator calls made by every recording and every earlier dump of the others. (The heap
  tracker has no run-once flag, so its destructor is assumed to run once.)
\<close>

theorem exit_statistics:
  assumes fs: "append_fs os content"
    and run: "perf_run os clock (pre @ (Exit d, allocs) # post) p = Some q"
    and first: "Exit d \<notin> fst ` set pre" "\<not> written d p"
    and heap: "d = Drop_heap \<Longrightarrow> Exit d \<notin> fst ` set post"
  shows "\<exists>p'. perf_run os clock (concat (map (own_calls d) pre)) p = Some p' \<and>
    files content q (stat_file os d) = files content p (stat_file os d) @ report clock d p'"
proof -
  from run obtain p1 p2 where p1: "perf_run os clock pre p = Some p1"
      and p2: "run_dtor os clock d p1 = Some p2"
      and p3: "perf_run os clock post (p2\<lparr>pf_heap := fold ht_step allocs (pf_heap p2)\<rparr>) = Some q"
    by (auto simp: perf_run_append split: option.splits bind_splits)
  note pre = perf_run_no_exit [OF fs p1 first(1)]
  have "same_part d p p" by (cases d) auto
  from same_part_run [OF this p1 first(1)] obtain p'
    where p': "perf_run os clock (concat (map (own_calls d) pre)) p = Some p'" "same_part d p1 p'"
    by blast
  have "files content q (stat_file os d) = files content p2 (stat_file os d)"
  proof (cases "d = Drop_heap")
    case True
    with perf_run_no_exit [OF fs p3] heap show ?thesis by simp
  next
    case False
    with perf_run_written [OF fs False p3] run_dtor_written [OF p2] show ?thesis by simp
  qed
  then show ?thesis
    using p' pre first(2) run_dtor_files [OF fs p2] same_part_report [OF p'(2)] by auto
qed

theorem exit_statistics_witness:
  "\<exists>q. perf_run mem_os None [(Ev_cov (Register 3 (Some ''a.rs'')), [Alloc 4096 64]), (Exit Drop_cycles, []),
      (Exit Drop_heap, [Alloc 8192 16, Realloc 4096 64 4096 128]), (Exit Drop_cycles, [])]
      (perf_start Map.empty main_cpu) = Some q \<and>
    mem_content (rt_fs (pf_rt q)) (stat_file mem_os Drop_heap) =
      format_heap_stats (snd (ht_alloc 4096 64 heap_tracker_new)) @ ''\<newline>''"
proof -
  let ?p = "perf_start Map.empty main_cpu"
  let ?pre = "[(Ev_cov (Register 3 (Some ''a.rs'')), [Alloc 4096 64]), (Exit Drop_cycles, [])]"
  let ?run = "?pre @ (Exit Drop_heap, [Alloc 8192 16, Realloc 4096 64 4096 128]) # [(Exit Drop_cycles, [])]"
  have "perf_run mem_os None ?run ?p \<noteq> None"
    by (simp add: cpu_print_def split: prod.split)
  then obtain q where q: "perf_run mem_os None ?run ?p = Some q" by blast
  from exit_statistics [OF mem_fs.append_fs_axioms q]
  have "mem_content (rt_fs (pf_rt q)) (stat_file mem_os Drop_heap) =
      format_heap_stats (snd (ht_alloc 4096 64 heap_tracker_new)) @ ''\<newline>''"
    by (simp add: perf_start_def rt_new_def mem_content_def initialize_runtime_def)
  with q show ?thesis by simp
qed

end
