(* ===== verification/Entry_Points.thy ===== *)
theory Entry_Points
  imports Process_Exit
begin

text \<open>
  The C interface of \<open>unsafe_perf\<close>: the exported functions the compiler passes call, each on the
  process-wide statics (\<open>TRACKER\<close>, \<open>HEAP_TRACKER\<close>, \<open>REGISTRY\<close>, \<open>COVERAGE_TRACKER\<close>), the
  constructor and the destructors; and the unit tests of \<open>lib.rs\<close> as programs over them, with the
  assertions they make proved in the model.
\<close>

section \<open>The constructor\<close>

definition init_unsafe_perf_runtime :: "'fs perf \<Rightarrow> 'fs perf" where
  "init_unsafe_perf_runtime p = p\<lparr>pf_rt := initialize_runtime True (pf_rt p)\<rparr>"

section \<open>Instruction and function counter\<close>

definition unsafe_init_metadata :: "function_metadata list \<Rightarrow> u32 \<Rightarrow> 'fs perf \<Rightarrow> 'fs perf option" where
  "unsafe_init_metadata table n p =
     do { t \<leftarrow> init_metadata table n (pf_counter p); Some (p\<lparr>pf_counter := t\<rparr>) }"

definition unsafe_record_function :: "u32 \<Rightarrow> 'fs perf \<Rightarrow> 'fs perf option" where
  "unsafe_record_function func_id p =
     do { t \<leftarrow> record_function func_id (pf_counter p); Some (p\<lparr>pf_counter := t\<rparr>) }"

definition unsafe_record_block ::
  "u32 \<Rightarrow> u32 \<Rightarrow> u32 \<Rightarrow> u16 \<Rightarrow> u16 \<Rightarrow> u16 \<Rightarrow> u16 \<Rightarrow> u16 \<Rightarrow> u16 \<Rightarrow> 'fs perf \<Rightarrow> 'fs perf option" where
  "unsafe_record_block func_id n_total n_unsafe n_load n_store n_call n_cast n_gep n_other p =
     Some (p\<lparr>pf_counter := record_block func_id
       \<lparr>blk_total = n_total, blk_unsafe_total = n_unsafe, blk_load = n_load,
        blk_store = n_store, blk_call = n_call, blk_cast = n_cast,
        blk_gep = n_gep, blk_other = n_other\<rparr> (pf_counter p)\<rparr>)"

definition unsafe_dump_stats :: "'fs os_calls \<Rightarrow> 'fs perf \<Rightarrow> 'fs perf option" where
  "unsafe_dump_stats os p =
     do { (t, w) \<leftarrow> uc_dump_stats os (pf_counter p) (pf_rt p);
          Some (p\<lparr>pf_counter := t, pf_rt := w\<rparr>) }"

text \<open>The backup destructor.\<close>

definition counter_cleanup :: "'fs os_calls \<Rightarrow> 'fs perf \<Rightarrow> 'fs perf option" where
  "counter_cleanup os p =
     do { (t, w) \<leftarrow> uc_dump_stats os (pf_counter p) (pf_rt p);
          Some (p\<lparr>pf_counter := t, pf_rt := w\<rparr>) }"

section \<open>Heap tracker\<close>

definition dyn_unsafe_mem_access :: "usize \<Rightarrow> bool \<Rightarrow> 'fs perf \<Rightarrow> 'fs perf" where
  "dyn_unsafe_mem_access ptr is_load p =
     p\<lparr>pf_heap := access_unsafe_heap_obj ptr is_load (pf_heap p)\<rparr>"

definition dyn_mem_access :: "usize \<Rightarrow> 'fs perf \<Rightarrow> 'fs perf" where
  "dyn_mem_access ptr p = p\<lparr>pf_heap := access_heap_obj ptr (pf_heap p)\<rparr>"

definition heap_dump_stats :: "'fs os_calls \<Rightarrow> 'fs perf \<Rightarrow> 'fs perf" where
  "heap_dump_stats os p =
     (let (s, w) = ht_dump_stats os (pf_heap p) (pf_rt p) in p\<lparr>pf_heap := s, pf_rt := w\<rparr>)"

section \<open>Cycle counter\<close>

text \<open>
  The thread's identity: \<open>pthread_self\<close> on Unix, elsewhere the standard library's number for the
  thread; both are parameters.
\<close>

definition get_thread_id :: "bool \<Rightarrow> u64 \<Rightarrow> u64 \<Rightarrow> u64" where
  "get_thread_id unix pthread_self thread_current_id =
     (if unix then pthread_self else thread_current_id)"

text \<open>
  The lazily looked-up \<open>pthread_create\<close>: \<open>dlsym\<close> answers an address, null when there is no next
  definition; \<open>transmute\<close> is what the address denotes.
\<close>

definition REAL_PTHREAD_CREATE :: "(string \<Rightarrow> u64) \<Rightarrow> (u64 \<Rightarrow> 'f) \<Rightarrow> 'f option" where
  "REAL_PTHREAD_CREATE dlsym transmute =
     (let symbol = dlsym ''pthread_create'' in if symbol \<noteq> 0 then Some (transmute symbol) else None)"

definition final_cleanup :: "'fs os_calls \<Rightarrow> 'fs perf \<Rightarrow> 'fs perf" where
  "final_cleanup os p =
     (let (r, w) = print_cpu_cycle_stats os (reg (pf_cpu p)) (pf_rt p)
      in p\<lparr>pf_cpu := (pf_cpu p)\<lparr>reg := r\<rparr>, pf_rt := w\<rparr>)"

section \<open>Line coverage\<close>

definition register_unsafe_line :: "64 word \<Rightarrow> string option \<Rightarrow> 'fs perf \<Rightarrow> 'fs perf" where
  "register_unsafe_line line file p = p\<lparr>pf_cov := register_line line file (pf_cov p)\<rparr>"

definition track_unsafe_line_execution :: "64 word \<Rightarrow> string option \<Rightarrow> 'fs perf \<Rightarrow> 'fs perf" where
  "track_unsafe_line_execution line file p = p\<lparr>pf_cov := track_execution line file (pf_cov p)\<rparr>"

definition print_unsafe_coverage_stats :: "'fs os_calls \<Rightarrow> u64 option \<Rightarrow> 'fs perf \<Rightarrow> 'fs perf" where
  "print_unsafe_coverage_stats os clock p =
     (let (t, w) = write_stats os clock (pf_cov p) (pf_rt p) in p\<lparr>pf_cov := t, pf_rt := w\<rparr>)"

definition get_unsafe_coverage_percentage :: "'fs perf \<Rightarrow> rat" where
  "get_unsafe_coverage_percentage p = get_coverage_percentage (pf_cov p)"

definition get_registered_unsafe_lines_count :: "'fs perf \<Rightarrow> nat" where
  "get_registered_unsafe_lines_count p = get_registered_count (pf_cov p)"

definition get_executed_unsafe_lines_count :: "'fs perf \<Rightarrow> nat" where
  "get_executed_unsafe_lines_count p = get_executed_count (pf_cov p)"

definition reset_unsafe_coverage_stats :: "'fs perf \<Rightarrow> 'fs perf" where
  "reset_unsafe_coverage_stats p = p\<lparr>pf_cov := coverage_reset (pf_cov p)\<rparr>"

definition dump_coverage_at_exit :: "'fs os_calls \<Rightarrow> u64 option \<Rightarrow> 'fs perf \<Rightarrow> 'fs perf" where
  "dump_coverage_at_exit os clock p =
     (let (t, w) = write_stats os clock (pf_cov p) (pf_rt p) in p\<lparr>pf_cov := t, pf_rt := w\<rparr>)"

section \<open>The exports are the steps of a process run\<close>

lemma exports_are_steps:
  "unsafe_init_metadata table n p = perf_act os clock (Ev_metadata table n) p"
  "unsafe_record_function f p = perf_act os clock (Ev_counter (Fn f)) p"
  "unsafe_record_block f a b c d e g h i p =
     perf_act os clock (Ev_counter (Blk f \<lparr>blk_total = a, blk_unsafe_total = b, blk_load = c,
       blk_store = d, blk_call = e, blk_cast = g, blk_gep = h, blk_other = i\<rparr>)) p"
  "Some (dyn_mem_access a' p) = perf_act os clock (Ev_heap (Access a')) p"
  "Some (dyn_unsafe_mem_access a' l p) = perf_act os clock (Ev_heap (Unsafe_access a' l)) p"
  "Some (register_unsafe_line k fl p) = perf_act os clock (Ev_cov (Register k fl)) p"
  "Some (track_unsafe_line_execution k fl p) = perf_act os clock (Ev_cov (Track k fl)) p"
  by (simp_all add: unsafe_init_metadata_def unsafe_record_function_def unsafe_record_block_def
      dyn_mem_access_def dyn_unsafe_mem_access_def register_unsafe_line_def
      track_unsafe_line_execution_def)

lemma exports_are_exits:
  "unsafe_dump_stats os p = perf_act os clock (Exit Drop_counter) p"
  "counter_cleanup os p = perf_act os clock (Exit Drop_counter) p"
  "Some (heap_dump_stats os p) = perf_act os clock (Exit Drop_heap) p"
  "Some (final_cleanup os p) = perf_act os clock (Exit Drop_cycles) p"
  "Some (print_unsafe_coverage_stats os clock p) = perf_act os clock (Exit Drop_coverage) p"
  "Some (dump_coverage_at_exit os clock p) = perf_act os clock (Exit Drop_coverage) p"
  by (simp_all add: unsafe_dump_stats_def counter_cleanup_def heap_dump_stats_def final_cleanup_def
      print_unsafe_coverage_stats_def dump_coverage_at_exit_def cpu_print_def cov_dump_def Let_def
      split: prod.splits)

section \<open>The unit tests\<close>

text \<open>A test answers whether its assertions hold; \<open>None\<close> is a panic inside a call.\<close>

definition test_runtime_initialization :: "'fs perf \<Rightarrow> bool" where
  "test_runtime_initialization p \<longleftrightarrow> is_runtime_initialized (pf_rt p)"

definition test_global_skip_tracking :: "'fs rt \<Rightarrow> bool" where
  "test_global_skip_tracking w \<longleftrightarrow>
     \<not> global_skip w \<and>
     (let w = w\<lparr>global_skip := True\<rparr> in global_skip w \<and>
       (let w = w\<lparr>global_skip := False\<rparr> in \<not> global_skip w))"

definition test_heap_tracker_functions_exist :: "'fs perf \<Rightarrow> 'fs perf" where
  "test_heap_tracker_functions_exist p = dyn_unsafe_mem_access 0 False (dyn_mem_access 0 p)"

definition test_cpu_cycle_counter_functions :: "'fs os_calls \<Rightarrow> 'fs perf \<Rightarrow> bool \<times> 'fs perf" where
  "test_cpu_cycle_counter_functions os p =
     (let c = record_program_start (pf_cpu p);
          (start, c) = cpu_cycle_start_measurement c;
          sm = fold (\<lambda>i s. s + of_nat i) [0..<100] (0 :: u64);
          c = cpu_cycle_end_measurement start c;
          (ext_start, c) = external_call_start c;
          sm = fold (\<lambda>i s. s + of_nat i) [0..<50] sm;
          c = external_call_end ext_start c
      in (sm > 0, final_cleanup os (p\<lparr>pf_cpu := c\<rparr>)))"

definition test_unsafe_coverage_functions ::
  "'fs os_calls \<Rightarrow> u64 option \<Rightarrow> 'fs perf \<Rightarrow> bool \<times> 'fs perf" where
  "test_unsafe_coverage_functions os clock p =
     (let p = reset_unsafe_coverage_stats p;
          filename = Some ''test.rs'';
          p = register_unsafe_line 42 filename p;
          p = track_unsafe_line_execution 42 filename p;
          percentage = get_unsafe_coverage_percentage p;
          registered_count = get_registered_unsafe_lines_count p;
          executed_count = get_executed_unsafe_lines_count p
      in (percentage \<ge> 0 \<and> percentage \<le> 100 \<and> registered_count \<ge> 1 \<and> executed_count \<ge> 1 \<and>
            percentage = 100,
          print_unsafe_coverage_stats os clock p))"

definition test_unsafe_counter_functions :: "'fs os_calls \<Rightarrow> 'fs perf \<Rightarrow> 'fs perf option" where
  "test_unsafe_counter_functions os p =
     do { p \<leftarrow> unsafe_init_metadata [] 0 p;
          p \<leftarrow> unsafe_record_function 0 p;
          p \<leftarrow> unsafe_record_block 0 100 10 2 1 3 1 2 1 p;
          unsafe_dump_stats os p }"

definition test_unsafe_counter_two_pass_workflow :: "'fs os_calls \<Rightarrow> 'fs perf \<Rightarrow> 'fs perf option" where
  "test_unsafe_counter_two_pass_workflow os p =
     do { p \<leftarrow> unsafe_init_metadata [] 0 p;
          p \<leftarrow> unsafe_record_function 1 p;
          p \<leftarrow> unsafe_record_function 2 p;
          p \<leftarrow> unsafe_record_function 1 p;
          p \<leftarrow> unsafe_record_block 1 50 5 2 1 1 0 1 0 p;
          p \<leftarrow> unsafe_record_block 1 30 0 0 0 0 0 0 0 p;
          p \<leftarrow> unsafe_record_block 2 40 8 3 2 0 1 1 1 p;
          unsafe_dump_stats os p }"

text \<open>
  The constructor has run before the tests; the tests run in any order, so each is shown to pass
  in every state (the counter tests, while no metadata table was installed, as in a test binary).
\<close>

lemma runtime_test_passes:
  "test_runtime_initialization (init_unsafe_perf_runtime p)"
  "test_global_skip_tracking (pf_rt (perf_start f c))"
  by (simp_all add: test_runtime_initialization_def init_unsafe_perf_runtime_def
      is_runtime_initialized_def initialize_runtime_def test_global_skip_tracking_def perf_start_def
      rt_new_def)

lemma cpu_test_passes: "fst (test_cpu_cycle_counter_functions os p)"
proof -
  have "fold (\<lambda>i s. s + of_nat i) [0..<50] (fold (\<lambda>i s. s + of_nat i) [0..<100] (0 :: u64)) > 0"
    by code_simp
  then show ?thesis
    unfolding test_cpu_cycle_counter_functions_def Let_def by (simp split: prod.split)
qed

lemma coverage_test_passes: "fst (test_unsafe_coverage_functions os clock p)"
  using f64_percent_full [of 1]
  by (simp add: test_unsafe_coverage_functions_def reset_unsafe_coverage_stats_def coverage_reset_def
      register_unsafe_line_def track_unsafe_line_execution_def register_line_def track_execution_def
      get_unsafe_coverage_percentage_def get_registered_unsafe_lines_count_def
      get_executed_unsafe_lines_count_def get_coverage_percentage_def get_registered_count_def
      get_executed_count_def Let_def)

text \<open>Without a table every recording call succeeds, and so does the dump.\<close>

definition no_table :: "'fs perf \<Rightarrow> bool" where
  "no_table p \<longleftrightarrow> metadata_count (pf_counter p) = 0"

lemma no_table_steps:
  assumes "no_table p"
  shows "\<exists>q. unsafe_init_metadata [] 0 p = Some q \<and> no_table q"
    and "\<exists>q. unsafe_record_function i p = Some q \<and> no_table q"
    and "\<exists>q. unsafe_record_block i a b c d e f g h p = Some q \<and> no_table q"
    and "\<exists>q. unsafe_dump_stats os p = Some q \<and> no_table q"
proof -
  show "\<exists>q. unsafe_init_metadata [] 0 p = Some q \<and> no_table q"
    using assms by (simp add: unsafe_init_metadata_def init_metadata_def no_table_def Let_def)
  obtain t where "record_function i (pf_counter p) = Some t" using record_function_Some by blast
  moreover from this have "metadata_count t = metadata_count (pf_counter p)"
    using uc_step_frame [of "Fn i"] by simp
  ultimately show "\<exists>q. unsafe_record_function i p = Some q \<and> no_table q"
    using assms by (simp add: unsafe_record_function_def no_table_def)
  show "\<exists>q. unsafe_record_block i a b c d e f g h p = Some q \<and> no_table q"
    using assms by (simp add: unsafe_record_block_def no_table_def record_block_frame)
  show "\<exists>q. unsafe_dump_stats os p = Some q \<and> no_table q"
    using assms by (simp add: unsafe_dump_stats_def uc_dump_stats_def no_table_def Let_def)
qed

lemma no_table_bind:
  "\<exists>q. m = Some q \<and> no_table q \<Longrightarrow> (\<And>q. no_table q \<Longrightarrow> \<exists>r. f q = Some r) \<Longrightarrow> \<exists>r. m \<bind> f = Some r"
  by auto

lemma counter_tests_pass:
  assumes "no_table p"
  shows "\<exists>q. test_unsafe_counter_functions os p = Some q"
    and "\<exists>q. test_unsafe_counter_two_pass_workflow os p = Some q"
proof -
  show "\<exists>q. test_unsafe_counter_functions os p = Some q"
    unfolding test_unsafe_counter_functions_def
    by (intro no_table_bind no_table_steps assms) (auto dest: no_table_steps(4))
  show "\<exists>q. test_unsafe_counter_two_pass_workflow os p = Some q"
    unfolding test_unsafe_counter_two_pass_workflow_def
    by (intro no_table_bind no_table_steps assms) (auto dest: no_table_steps(4))
qed

end
