(* ===== verification/Semver_Types.thy ===== *)
theory Semver_Types
  imports Utf8 "HOL-Library.List_Lexorder" "HOL-Library.Char_ord" "HOL-Library.Product_Lexorder"
begin

text \<open>
  The data of \<open>semver-1.0.26\<close> (\<open>src/lib.rs\<close>, \<open>src/error.rs\<close>) and its orders
  (\<open>src/impls.rs\<close>). A \<open>str\<close> is the list of its UTF-8 bytes. \<open>Prerelease\<close> and
  \<open>BuildMetadata\<close> wrap the text their \<open>Identifier\<close> holds; the packed representation
  behind it is the subject of the theory \<open>Semver_Identifier\<close>. The orders are proved to be
  linear, and the library's order classes are instantiated with them.
\<close>

section \<open>Data\<close>

datatype prerelease = Prerelease (pre_str: string)

datatype build_metadata = BuildMetadata (build_str: string)

datatype version = Version (v_major: u64) (v_minor: u64) (v_patch: u64)
  (v_pre: prerelease) (v_build: build_metadata)

datatype op = Exact | Op_Greater | GreaterEq | Op_Less | LessEq | Tilde | Caret | Wildcard

record comparator =
  c_op :: op
  c_major :: u64
  c_minor :: "u64 option"
  c_patch :: "u64 option"
  c_pre :: prerelease

record version_req =
  comparators :: "comparator list"

definition pre_EMPTY :: prerelease where
  "pre_EMPTY = Prerelease []"

definition build_EMPTY :: build_metadata where
  "build_EMPTY = BuildMetadata []"

definition pre_is_empty :: "prerelease \<Rightarrow> bool" where
  "pre_is_empty p = (pre_str p = [])"

definition build_is_empty :: "build_metadata \<Rightarrow> bool" where
  "build_is_empty b = (build_str b = [])"

definition version_new :: "u64 \<Rightarrow> u64 \<Rightarrow> u64 \<Rightarrow> version" where
  "version_new major minor patch = Version major minor patch pre_EMPTY build_EMPTY"

definition STAR :: version_req where
  "STAR = \<lparr>comparators = []\<rparr>"

datatype position = Major | Minor | Patch | Pre | Build

text \<open>A \<open>char\<close> is its scalar value.\<close>

datatype error_kind =
    Empty
  | UnexpectedEnd position
  | UnexpectedChar position u32
  | UnexpectedCharAfter position u32
  | ExpectedCommaFound position u32
  | LeadingZero position
  | Overflow position
  | EmptySegment position
  | IllegalCharacter position
  | WildcardNotTheOnlyComparator u32
  | UnexpectedAfterWildcard
  | ExcessiveComparators

section \<open>Comparing identifiers\<close>

text \<open>\<open>str::split('.')\<close>: one piece more than there are dots.\<close>

fun split_on :: "char \<Rightarrow> string \<Rightarrow> string list" where
  "split_on c [] = [[]]"
| "split_on c (x # xs) =
     (if x = c then [] # split_on c xs
      else (case split_on c xs of
              [] \<Rightarrow> [[x]]
            | p # ps \<Rightarrow> (x # p) # ps))"

definition trim_start :: "char \<Rightarrow> string \<Rightarrow> string" where
  "trim_start c s = dropWhile (\<lambda>x. x = c) s"

definition all_digits :: "string \<Rightarrow> bool" where
  "all_digits s = list_all is_digit s"

fun pre_cmp_loop :: "string list \<Rightarrow> string list \<Rightarrow> ordering" where
  "pre_cmp_loop [] rhs = (if rhs = [] then Equal else Less)"
| "pre_cmp_loop (l # lhs) [] = Greater"
| "pre_cmp_loop (l # lhs) (r # rhs) =
     (let string_cmp = ord_cmp l r in
      case (all_digits l, all_digits r) of
        (True, False) \<Rightarrow> Less
      | (False, True) \<Rightarrow> Greater
      | (numeric, _) \<Rightarrow>
          let ordering = (if numeric then then_with (ord_cmp (length l) (length r)) string_cmp
                          else string_cmp)
          in if ordering \<noteq> Equal then ordering else pre_cmp_loop lhs rhs)"

text \<open>
  \<open>same_ptr\<close> is what \<open>ptr_eq\<close> answers on the two identifiers: equal representations hold
  equal texts, and the empty text has one representation only.
\<close>

definition prerelease_cmp :: "bool \<Rightarrow> prerelease \<Rightarrow> prerelease \<Rightarrow> ordering" where
  "prerelease_cmp same_ptr lhs rhs =
     (if same_ptr then Equal
      else if pre_is_empty lhs then Greater
      else if pre_is_empty rhs then Less
      else pre_cmp_loop (split_on CHR ''.'' (pre_str lhs)) (split_on CHR ''.'' (pre_str rhs)))"

fun build_cmp_loop :: "string list \<Rightarrow> string list \<Rightarrow> ordering" where
  "build_cmp_loop [] rhs = (if rhs = [] then Equal else Less)"
| "build_cmp_loop (l # lhs) [] = Greater"
| "build_cmp_loop (l # lhs) (r # rhs) =
     (case (all_digits l, all_digits r) of
        (True, False) \<Rightarrow> Less
      | (False, True) \<Rightarrow> Greater
      | (numeric, _) \<Rightarrow>
          let ordering =
            (if numeric
             then let lhval = trim_start CHR ''0'' l; rhval = trim_start CHR ''0'' r
               in then_with (then_with (ord_cmp (length lhval) (length rhval)) (ord_cmp lhval rhval))
                    (ord_cmp (length l) (length r))
             else ord_cmp l r)
          in if ordering \<noteq> Equal then ordering else build_cmp_loop lhs rhs)"

definition build_cmp :: "bool \<Rightarrow> build_metadata \<Rightarrow> build_metadata \<Rightarrow> ordering" where
  "build_cmp same_ptr lhs rhs =
     (if same_ptr then Equal
      else build_cmp_loop (split_on CHR ''.'' (build_str lhs)) (split_on CHR ''.'' (build_str rhs)))"

text \<open>The comparisons with \<open>same_ptr\<close> as precise as it can be: it is sound either way.\<close>

definition pre_cmp :: "prerelease \<Rightarrow> prerelease \<Rightarrow> ordering" where
  "pre_cmp a b = prerelease_cmp (a = b) a b"

definition build_order :: "build_metadata \<Rightarrow> build_metadata \<Rightarrow> ordering" where
  "build_order a b = build_cmp (a = b) a b"

text \<open>The derived order of versions and the precedence of the specification.\<close>

definition cmp_precedence :: "version \<Rightarrow> version \<Rightarrow> ordering" where
  "cmp_precedence a b =
     then_with (ord_cmp (v_major a) (v_major b))
    (then_with (ord_cmp (v_minor a) (v_minor b))
    (then_with (ord_cmp (v_patch a) (v_patch b))
               (pre_cmp (v_pre a) (v_pre b))))"

definition version_cmp :: "version \<Rightarrow> version \<Rightarrow> ordering" where
  "version_cmp a b =
     then_with (ord_cmp (v_major a) (v_major b))
    (then_with (ord_cmp (v_minor a) (v_minor b))
    (then_with (ord_cmp (v_patch a) (v_patch b))
    (then_with (pre_cmp (v_pre a) (v_pre b))
               (build_order (v_build a) (v_build b)))))"

section \<open>Keys\<close>

text \<open>
  Each comparison is the comparison of keys in a linear order: a segment's key puts numeric
  segments first, orders them by length and then as text (which is by value, as they have no
  leading zero), and the others as text; a list of segments is ordered lexicographically, a
  proper prefix first; the empty pre-release comes last.
\<close>

definition pre_seg_key :: "string \<Rightarrow> bool \<times> nat \<times> string" where
  "pre_seg_key s = (if all_digits s then (False, length s, s) else (True, 0, s))"

definition build_seg_key :: "string \<Rightarrow> bool \<times> nat \<times> string \<times> nat \<times> string" where
  "build_seg_key s =
     (if all_digits s
      then let v = trim_start CHR ''0'' s in (False, length v, v, length s, [])
      else (True, 0, [], 0, s))"

definition pre_key :: "prerelease \<Rightarrow> bool \<times> (bool \<times> nat \<times> string) list" where
  "pre_key p = (pre_is_empty p, map pre_seg_key (split_on CHR ''.'' (pre_str p)))"

definition build_key :: "build_metadata \<Rightarrow> (bool \<times> nat \<times> string \<times> nat \<times> string) list" where
  "build_key b = map build_seg_key (split_on CHR ''.'' (build_str b))"

lemma ord_cmp_pair:
  "ord_cmp (a, b) (c, d) = then_with (ord_cmp a c) (ord_cmp b d)"
  by (auto simp: ord_cmp_def)

lemma ord_cmp_list:
  "ord_cmp [] ys = (if ys = [] then Equal else Less)" "ord_cmp (x # xs) [] = Greater"
  "ord_cmp (x # xs) (y # ys) = then_with (ord_cmp x y) (ord_cmp xs ys)"
  by (cases ys; auto simp: ord_cmp_def)+

lemma split_on_nonempty [simp]: "split_on c s \<noteq> []"
  by (induction s) (auto split: list.splits)

lemma split_on_inj: "split_on c s = split_on c t \<Longrightarrow> s = t"
proof (induction s arbitrary: t)
  case Nil
  show ?case
  proof (cases t)
    case (Cons y t')
    with Nil show ?thesis by (cases "split_on c t'") (auto split: if_splits)
  qed simp
next
  case (Cons x s)
  note Cons1 = Cons
  obtain p ps where ps: "split_on c s = p # ps" by (cases "split_on c s") auto
  show ?case
  proof (cases t)
    case Nil
    with Cons1 ps show ?thesis by (auto split: if_splits)
  next
    case (Cons y t')
    obtain q qs where qs: "split_on c t' = q # qs" by (cases "split_on c t'") auto
    with Cons1 Cons ps show ?thesis by (auto split: if_splits)
  qed
qed

lemma then_with_if: "(if a \<noteq> Equal then a else b) = then_with a b"
  by (cases a) auto

lemma then_with_left [simp]: "then_with Equal a = a" "then_with Less a = Less"
  "then_with Greater a = Greater" "then_with a Equal = a"
  by (cases a; simp)+

lemma then_with_assoc: "then_with (then_with a b) c = then_with a (then_with b c)"
  by (cases a) auto

lemma ord_cmp_bool [simp]:
  "ord_cmp False True = Less" "ord_cmp True False = Greater" "ord_cmp x x = Equal"
  by (simp_all add: ord_cmp_def)

lemma pre_cmp_loop_key:
  "pre_cmp_loop ls rs = ord_cmp (map pre_seg_key ls) (map pre_seg_key rs)"
proof (induction ls arbitrary: rs)
  case (Cons l ls)
  show ?case
  proof (cases rs)
    case (Cons r rs')
    show ?thesis
      by (cases "all_digits l"; cases "all_digits r")
        (simp_all only: Cons pre_cmp_loop.simps Let_def prod.case bool.case if_True if_False
          then_with_if list.map ord_cmp_list pre_seg_key_def [of l] pre_seg_key_def [of r]
          ord_cmp_pair ord_cmp_bool then_with_left then_with_assoc Cons.IH)
  qed (simp add: ord_cmp_list)
qed (simp add: ord_cmp_list)

lemma build_cmp_loop_key:
  "build_cmp_loop ls rs = ord_cmp (map build_seg_key ls) (map build_seg_key rs)"
proof (induction ls arbitrary: rs)
  case (Cons l ls)
  show ?case
  proof (cases rs)
    case (Cons r rs')
    show ?thesis
      by (cases "all_digits l"; cases "all_digits r")
        (simp_all only: Cons build_cmp_loop.simps Let_def prod.case bool.case if_True if_False
          then_with_if list.map ord_cmp_list build_seg_key_def [of l] build_seg_key_def [of r]
          ord_cmp_pair ord_cmp_bool then_with_left then_with_assoc Cons.IH)
  qed (simp add: ord_cmp_list)
qed (simp add: ord_cmp_list)

text \<open>The keys lose nothing.\<close>

lemma inj_pre_seg_key: "inj pre_seg_key"
  by (auto intro!: injI simp: pre_seg_key_def split: if_splits)

lemma zeros_trim:
  "l = replicate (length l - length (trim_start c l)) c @ trim_start c l"
proof -
  have "takeWhile (\<lambda>x. x = c) l = replicate (length (takeWhile (\<lambda>x. x = c) l)) c"
    by (rule replicate_eqI) (auto dest: set_takeWhileD)
  moreover have "length (takeWhile (\<lambda>x. x = c) l) = length l - length (trim_start c l)"
    by (metis add_diff_cancel_right' length_append takeWhile_dropWhile_id trim_start_def)
  ultimately show ?thesis by (metis takeWhile_dropWhile_id trim_start_def)
qed

lemma inj_build_seg_key: "inj build_seg_key"
proof (rule injI)
  fix l r
  assume k: "build_seg_key l = build_seg_key r"
  show "l = r"
  proof (cases "all_digits l")
    case True
    with k have "trim_start CHR ''0'' l = trim_start CHR ''0'' r" "length l = length r"
      by (auto simp: build_seg_key_def Let_def split: if_splits)
    then show ?thesis using zeros_trim [of l "CHR ''0''"] zeros_trim [of r "CHR ''0''"] by simp
  next
    case False
    with k show ?thesis by (auto simp: build_seg_key_def Let_def split: if_splits)
  qed
qed

lemma inj_pre_key: "inj pre_key"
proof (rule injI)
  fix a b
  assume "pre_key a = pre_key b"
  then have "split_on CHR ''.'' (pre_str a) = split_on CHR ''.'' (pre_str b)"
    using inj_map_eq_map [OF inj_pre_seg_key] by (simp add: pre_key_def)
  then show "a = b" by (metis prerelease.expand split_on_inj)
qed

lemma inj_build_key: "inj build_key"
proof (rule injI)
  fix a b
  assume "build_key a = build_key b"
  then have "split_on CHR ''.'' (build_str a) = split_on CHR ''.'' (build_str b)"
    using inj_map_eq_map [OF inj_build_seg_key] by (simp add: build_key_def)
  then show "a = b" by (metis build_metadata.expand split_on_inj)
qed

text \<open>
  Whatever \<open>ptr_eq\<close> answers, as long as it is true only on equal texts and always on two
  empty ones, the comparison is that of the keys.
\<close>

lemma prerelease_cmp_key:
  assumes "same \<Longrightarrow> a = b" and "pre_is_empty a \<Longrightarrow> a = b \<Longrightarrow> same"
  shows "prerelease_cmp same a b = ord_cmp (pre_key a) (pre_key b)"
proof (cases same)
  case False
  have "a = b" if "pre_is_empty a" "pre_is_empty b"
    using that by (cases a; cases b) (simp add: pre_is_empty_def)
  with False assms(2) show ?thesis
    by (auto simp: prerelease_cmp_def pre_key_def ord_cmp_pair pre_cmp_loop_key)
qed (use assms(1) in \<open>simp add: prerelease_cmp_def\<close>)

lemma build_cmp_key:
  "(same \<Longrightarrow> a = b) \<Longrightarrow> build_cmp same a b = ord_cmp (build_key a) (build_key b)"
  by (cases same) (simp_all add: build_cmp_def build_key_def build_cmp_loop_key)

lemma pre_cmp_key: "pre_cmp a b = ord_cmp (pre_key a) (pre_key b)"
  unfolding pre_cmp_def by (rule prerelease_cmp_key) auto

lemma build_order_key: "build_order a b = ord_cmp (build_key a) (build_key b)"
  unfolding build_order_def by (rule build_cmp_key) auto

definition version_key where
  "version_key v = (v_major v, v_minor v, v_patch v, pre_key (v_pre v), build_key (v_build v))"

lemma version_cmp_key: "version_cmp a b = ord_cmp (version_key a) (version_key b)"
  by (simp add: version_cmp_def version_key_def ord_cmp_pair pre_cmp_key build_order_key)

lemma inj_version_key: "inj version_key"
  by (rule injI, rule version.expand)
    (auto simp: version_key_def dest: injD [OF inj_pre_key] injD [OF inj_build_key])

lemma total_cmp_key:
  assumes "\<And>a b. cmp a b = ord_cmp (key a) (key b :: 'k::linorder)" and "inj key"
  shows "total_cmp cmp"
proof
  show "cmp b a = ord_reverse (cmp a b)" for a b
    by (simp add: assms(1) ord_total.cmp_rev [of "key b" "key a"])
  show "cmp a b = Equal \<longleftrightarrow> a = b" for a b
    using assms(2) by (auto simp: assms(1) dest: injD)
  show "cmp a c = Less" if "cmp a b = Less" "cmp b c = Less" for a b c
    using that by (auto simp: assms(1))
qed

interpretation pre_ord: total_cmp pre_cmp
  by (rule total_cmp_key [OF pre_cmp_key inj_pre_key])

interpretation build_ord: total_cmp build_order
  by (rule total_cmp_key [OF build_order_key inj_build_key])

interpretation version_ord: total_cmp version_cmp
  by (rule total_cmp_key [OF version_cmp_key inj_version_key])

section \<open>The order classes\<close>

instantiation prerelease :: linorder
begin

definition less_prerelease :: "prerelease \<Rightarrow> prerelease \<Rightarrow> bool" where
  "less_prerelease a b \<longleftrightarrow> pre_cmp a b = Less"

definition less_eq_prerelease :: "prerelease \<Rightarrow> prerelease \<Rightarrow> bool" where
  "less_eq_prerelease a b \<longleftrightarrow> pre_cmp a b \<noteq> Greater"

instance
  by standard
    (auto simp: less_prerelease_def less_eq_prerelease_def pre_cmp_key not_less
      dest: injD [OF inj_pre_key])

end

instantiation version :: linorder
begin

definition less_version :: "version \<Rightarrow> version \<Rightarrow> bool" where
  "less_version a b \<longleftrightarrow> version_cmp a b = Less"

definition less_eq_version :: "version \<Rightarrow> version \<Rightarrow> bool" where
  "less_eq_version a b \<longleftrightarrow> version_cmp a b \<noteq> Greater"

instance
  by standard
    (auto simp: less_version_def less_eq_version_def version_cmp_key not_less
      dest: injD [OF inj_version_key])

end

section \<open>Numbers inside identifiers\<close>

lemma digit_char_less: "a < b \<Longrightarrow> b < 10 \<Longrightarrow> digit_char a < digit_char b"
  by (simp add: less_char_def)

lemma length_show_nat_mono: "m \<le> n \<Longrightarrow> length (show_nat m) \<le> length (show_nat n)"
proof (induction n arbitrary: m rule: show_nat.induct)
  case (1 n)
  show ?case
  proof (cases "n < 10")
    case True
    with "1.prems" show ?thesis by (simp add: show_nat.simps [of n] show_nat.simps [of m])
  next
    case False
    have "m div 10 \<le> n div 10" using "1.prems" by (rule div_le_mono)
    with 1 False show ?thesis by (simp add: show_nat.simps [of n] show_nat.simps [of m])
  qed
qed

lemma lex_append_same:
  "xs < ys \<Longrightarrow> length xs = length ys \<Longrightarrow> xs @ us < ys @ (vs :: string)"
  by (induction xs ys rule: list_induct2') auto

lemma lex_same_prefix: "xs @ us < xs @ vs \<longleftrightarrow> us < (vs :: string)"
  by (induction xs) auto

lemma show_nat_less:
  "m < n \<Longrightarrow> length (show_nat m) < length (show_nat n) \<or>
    length (show_nat m) = length (show_nat n) \<and> show_nat m < show_nat n"
proof (induction n arbitrary: m rule: show_nat.induct)
  case (1 n)
  show ?case
  proof (cases "n < 10")
    case True
    with "1.prems" show ?thesis
      by (simp add: show_nat.simps [of n] show_nat.simps [of m] digit_char_less)
  next
    case False
    show ?thesis
    proof (cases "m < 10")
      case True
      with False show ?thesis
        by (simp add: show_nat.simps [of n] show_nat.simps [of m])
    next
      case m: False
      have "m div 10 < n div 10 \<or> m div 10 = n div 10 \<and> m mod 10 < n mod 10"
        using "1.prems" by (metis div_le_mono div_mult_mod_eq le_neq_implies_less less_or_eq_imp_le
            nat_add_left_cancel_less)
      then show ?thesis
      proof
        assume "m div 10 < n div 10"
        from "1.IH" [OF False this] show ?thesis
          using m False by (auto simp: show_nat.simps [of n] show_nat.simps [of m] lex_append_same)
      next
        assume "m div 10 = n div 10 \<and> m mod 10 < n mod 10"
        then show ?thesis
          using m False digit_char_less [of "m mod 10" "n mod 10"]
          by (simp add: show_nat.simps [of n] show_nat.simps [of m] lex_same_prefix)
      qed
    qed
  qed
qed

text \<open>By length and then as text, decimal numbers are ordered by value.\<close>

lemma show_nat_cmp:
  "then_with (ord_cmp (length (show_nat m)) (length (show_nat n))) (ord_cmp (show_nat m) (show_nat n))
     = ord_cmp m n"
  using show_nat_less [of m n] show_nat_less [of n m]
  by (cases m n rule: linorder_cases) (auto simp: ord_cmp_def)

lemma all_digits_show_nat [simp]: "all_digits (show_nat n)"
  by (simp add: all_digits_def show_nat_digits)

lemma split_on_no_mem: "c \<notin> set s \<Longrightarrow> split_on c s = [s]"
  by (induction s) auto

lemma show_nat_no_dot: "CHR ''.'' \<notin> set (show_nat n)"
  using show_nat_digits [of n] by (auto simp: list_all_iff is_digit_def)

lemma trim_zeros:
  "trim_start CHR ''0'' (replicate k CHR ''0'' @ show_nat n) = (if n = 0 then [] else show_nat n)"
proof -
  have "trim_start CHR ''0'' (show_nat n) = (if n = 0 then [] else show_nat n)"
  proof (cases "n = 0")
    case True
    then show ?thesis by (simp add: show_nat.simps [of 0] digit_char_0 trim_start_def)
  next
    case False
    then obtain d ds where d: "show_nat n = d # ds" "d \<noteq> CHR ''0''"
      using show_nat_hd_zero [of n] by (cases "show_nat n") auto
    with False show ?thesis by (simp add: trim_start_def)
  qed
  then show ?thesis by (induction k) (auto simp: trim_start_def)
qed

text \<open>
  What a dotted text means to the specification: its segments are numbers, of which the value and
  the number of digits count, and other texts. Numbers come before texts, numbers by value (and
  then by their digits), texts as texts, and a proper prefix of segments before the longer list.
\<close>

datatype ident_seg = Numeric nat nat | Alnum string

definition seg_of :: "string \<Rightarrow> ident_seg" where
  "seg_of s = (if all_digits s then Numeric (val_digits 0 s) (length s) else Alnum s)"

definition segments :: "string \<Rightarrow> ident_seg list" where
  "segments s = map seg_of (split_on CHR ''.'' s)"

fun seg_cmp :: "ident_seg \<Rightarrow> ident_seg \<Rightarrow> ordering" where
  "seg_cmp (Numeric m i) (Numeric n j) = then_with (ord_cmp m n) (ord_cmp i j)"
| "seg_cmp (Numeric m i) (Alnum t) = Less"
| "seg_cmp (Alnum s) (Numeric n j) = Greater"
| "seg_cmp (Alnum s) (Alnum t) = ord_cmp s t"

fun segs_cmp :: "ident_seg list \<Rightarrow> ident_seg list \<Rightarrow> ordering" where
  "segs_cmp [] ys = (if ys = [] then Equal else Less)"
| "segs_cmp (x # xs) [] = Greater"
| "segs_cmp (x # xs) (y # ys) = then_with (seg_cmp x y) (segs_cmp xs ys)"

text \<open>What the parser guarantees of a pre-release: a number of several digits begins with no zero.\<close>

definition no_leading_zeros :: "string \<Rightarrow> bool" where
  "no_leading_zeros s \<longleftrightarrow>
     list_all (\<lambda>x. all_digits x \<and> 1 < length x \<longrightarrow> hd x \<noteq> CHR ''0'') (split_on CHR ''.'' s)"

lemma trim_digits:
  assumes "all_digits s"
  shows "trim_start CHR ''0'' s = (if val_digits 0 s = 0 then [] else show_nat (val_digits 0 s))"
proof -
  let ?t = "trim_start CHR ''0'' s"
  have z: "val_digits 0 (replicate k CHR ''0'' @ t) = val_digits 0 t" for k t
    by (induction k) (simp_all add: digit_val_def)
  have v: "val_digits 0 s = val_digits 0 ?t"
    using z [of "length s - length ?t" ?t] zeros_trim [of s "CHR ''0''"] by simp
  have d: "list_all is_digit ?t"
    using assms by (auto simp: all_digits_def trim_start_def list_all_iff dest: set_dropWhileD)
  have h: "hd ?t \<noteq> CHR ''0''" if "?t \<noteq> []"
    using hd_dropWhile [of "\<lambda>x. x = CHR ''0''" s] that by (simp add: trim_start_def)
  show ?thesis
  proof (cases "?t = []")
    case False
    then show ?thesis
      using val_digits_pos [OF d False] show_nat_val_digits [OF d False] h v by simp
  qed (simp add: v)
qed

lemma trim_cmp:
  assumes "all_digits s" "all_digits t"
  shows "then_with (ord_cmp (length (trim_start CHR ''0'' s)) (length (trim_start CHR ''0'' t)))
      (ord_cmp (trim_start CHR ''0'' s) (trim_start CHR ''0'' t)) =
    ord_cmp (val_digits 0 s) (val_digits 0 t)"
  using show_nat_cmp [of "val_digits 0 s" "val_digits 0 t"]
  by (simp add: trim_digits assms) (auto simp: ord_cmp_def)

lemma build_seg_cmp: "ord_cmp (build_seg_key l) (build_seg_key r) = seg_cmp (seg_of l) (seg_of r)"
  by (simp add: build_seg_key_def seg_of_def Let_def ord_cmp_pair trim_cmp flip: then_with_assoc)

lemma plain_digits:
  assumes "all_digits s" "1 < length s \<Longrightarrow> hd s \<noteq> CHR ''0''" "s \<noteq> []"
  shows "show_nat (val_digits 0 s) = s"
proof -
  have "length s = 1" if "hd s = CHR ''0''"
    using assms(2,3) that by (cases s) (auto simp: not_less)
  then show ?thesis
    using assms(1,3) by (intro show_nat_val_digits) (auto simp: all_digits_def)
qed

lemma pre_seg_cmp:
  assumes "all_digits l \<and> 1 < length l \<longrightarrow> hd l \<noteq> CHR ''0''"
    and "all_digits r \<and> 1 < length r \<longrightarrow> hd r \<noteq> CHR ''0''"
  shows "ord_cmp (pre_seg_key l) (pre_seg_key r) = seg_cmp (seg_of l) (seg_of r)"
proof (cases "all_digits l \<and> all_digits r \<and> l \<noteq> [] \<and> r \<noteq> []")
  case True
  define m n where "m = val_digits 0 l" and "n = val_digits 0 r"
  have "l = show_nat m" "r = show_nat n"
    using True assms plain_digits [of l] plain_digits [of r] by (auto simp: m_def n_def)
  moreover have "then_with (ord_cmp m n) x = ord_cmp m n" if "m \<noteq> n" for x
    using that by (simp add: ord_cmp_def)
  ultimately show ?thesis
    by (cases "m = n") (simp_all add: pre_seg_key_def seg_of_def ord_cmp_pair show_nat_cmp)
next
  case False
  have "0 < val_digits 0 s \<or> s = [] \<or> val_digits 0 s = 0 \<and> s \<noteq> []" for s by auto
  with False show ?thesis
    by (auto simp: pre_seg_key_def seg_of_def ord_cmp_pair ord_cmp_def all_digits_def)
qed

lemma segs_cmp_map:
  assumes "\<And>l r. P l \<Longrightarrow> P r \<Longrightarrow> ord_cmp (key l) (key r :: 'k::linorder) = seg_cmp (seg_of l) (seg_of r)"
  shows "list_all P ls \<Longrightarrow> list_all P rs \<Longrightarrow>
    ord_cmp (map key ls) (map key rs) = segs_cmp (map seg_of ls) (map seg_of rs)"
proof (induction ls arbitrary: rs)
  case (Cons l ls)
  then show ?case by (cases rs) (simp_all add: ord_cmp_list assms)
qed (simp add: ord_cmp_list)

section \<open>Properties\<close>

text \<open>
  C12. The comparison of versions is a linear order whose equality is equality of versions,
  and the precedence of the specification is the same order with the build metadata left out:
  it never contradicts it and identifies exactly the versions that differ in metadata only.
\<close>

theorem version_order_total:
  shows "version_cmp b a = ord_reverse (version_cmp a b) \<and> (version_cmp a b = Equal \<longleftrightarrow> a = b) \<and>
    (version_cmp a b = Less \<and> version_cmp b c = Less \<longrightarrow> version_cmp a c = Less) \<and>
    version_cmp a b = then_with (cmp_precedence a b) (build_order (v_build a) (v_build b)) \<and>
    (cmp_precedence a b = Equal \<longleftrightarrow> v_major a = v_major b \<and> v_minor a = v_minor b \<and>
       v_patch a = v_patch b \<and> v_pre a = v_pre b)"
  using version_ord.cmp_rev [of b a] version_ord.cmp_Equal [of a b] version_ord.cmp_trans [of a b c]
  by (auto simp: version_cmp_def cmp_precedence_def then_with_assoc pre_ord.cmp_Equal)

theorem version_order_total_witness:
  "version_cmp (Version 1 0 0 (Prerelease ''alpha'') build_EMPTY)
     (Version 1 0 0 pre_EMPTY (BuildMetadata ''7'')) = Less"
proof -
  let ?a = "Version 1 0 0 (Prerelease ''alpha'') build_EMPTY"
  let ?b = "Version 1 0 0 (Prerelease ''rc'') build_EMPTY"
  let ?c = "Version 1 0 0 pre_EMPTY (BuildMetadata ''7'')"
  have "version_cmp ?a ?b = Less" "version_cmp ?b ?c = Less" by code_simp+
  then show ?thesis using version_order_total [of ?b ?a ?c] by blast
qed

text \<open>
  C22. Identifiers are compared segment by segment and numbers in them by value, wherever they
  stand, although the code compares lengths and texts. For non-empty pre-releases in which no number
  of several digits begins with a zero, and for all build metadata, leading zeros included, the
  order is: the first segment that differs decides; a number comes before a text; numbers are
  ordered by value and, if equal, by their number of digits; texts are ordered as texts; and a
  proper prefix comes first. An empty pre-release comes after every other.
\<close>

theorem numeric_identifiers_by_value:
  "(s \<noteq> [] \<and> t \<noteq> [] \<and> no_leading_zeros s \<and> no_leading_zeros t \<longrightarrow>
      pre_cmp (Prerelease s) (Prerelease t) = segs_cmp (segments s) (segments t)) \<and>
   (t \<noteq> [] \<longrightarrow> pre_cmp pre_EMPTY (Prerelease t) = Greater) \<and>
   build_order (BuildMetadata s) (BuildMetadata t) = segs_cmp (segments s) (segments t)"
proof (intro conjI impI)
  assume "s \<noteq> [] \<and> t \<noteq> [] \<and> no_leading_zeros s \<and> no_leading_zeros t"
  then show "pre_cmp (Prerelease s) (Prerelease t) = segs_cmp (segments s) (segments t)"
    using segs_cmp_map [where P = "\<lambda>x. all_digits x \<and> 1 < length x \<longrightarrow> hd x \<noteq> CHR ''0''",
        OF pre_seg_cmp, of "split_on CHR ''.'' s" "split_on CHR ''.'' t"]
    by (simp add: pre_cmp_key pre_key_def ord_cmp_pair pre_is_empty_def no_leading_zeros_def segments_def)
next
  show "pre_cmp pre_EMPTY (Prerelease t) = Greater" if "t \<noteq> []"
    using that by (simp add: pre_cmp_def prerelease_cmp_def pre_EMPTY_def pre_is_empty_def)
next
  show "build_order (BuildMetadata s) (BuildMetadata t) = segs_cmp (segments s) (segments t)"
    using segs_cmp_map [where P = "\<lambda>_. True", OF build_seg_cmp, of "split_on CHR ''.'' s" "split_on CHR ''.'' t"]
    by (simp add: build_order_key build_key_def segments_def list_all_iff)
qed

theorem numeric_identifiers_by_value_witness:
  "pre_cmp (Prerelease ''alpha.85'') (Prerelease ''alpha.200.x'') = Less \<and>
   build_order (BuildMetadata ''b.0010'') (BuildMetadata ''b.9'') = Greater"
proof -
  have "no_leading_zeros ''alpha.85''" "no_leading_zeros ''alpha.200.x''"
    "segs_cmp (segments ''alpha.85'') (segments ''alpha.200.x'') = Less"
    "segs_cmp (segments ''b.0010'') (segments ''b.9'') = Greater"
    by code_simp+
  then show ?thesis
    using numeric_identifiers_by_value [of "''alpha.85''" "''alpha.200.x''"]
      numeric_identifiers_by_value [of "''b.0010''" "''b.9''"] by simp
qed

end
