(* ===== verification/Semver_Parse.thy ===== *)
theory Semver_Parse
  imports Semver_Types
begin

text \<open>
  The parser of \<open>semver-1.0.26\<close> (\<open>src/parse.rs\<close>): numbers, identifiers, operators, comparators
  and requirements, with every error it reports, and the \<open>FromStr\<close> entry points. A
  \<open>Result\<close> is a sum with the error on the left. Below the definitions, what each scanner
  accepts is characterised: a number is read exactly when it is written in canonical decimal,
  an identifier exactly when its segments are well-formed.
\<close>

section \<open>Scanners\<close>

definition strip_prefix :: "char \<Rightarrow> string \<Rightarrow> string option" where
  "strip_prefix c s = (case s of [] \<Rightarrow> None | x # xs \<Rightarrow> if x = c then Some xs else None)"

definition starts_with :: "char \<Rightarrow> string \<Rightarrow> bool" where
  "starts_with c s \<longleftrightarrow> s \<noteq> [] \<and> hd s = c"

text \<open>
  \<open>text.chars().next()\<close>. The bytes of a \<open>str\<close> are valid UTF-8, so the replacement
  character in the last case is never seen.
\<close>

definition first_char :: "string \<Rightarrow> u32 option" where
  "first_char s =
     (if s = [] then None
      else case utf8_dec (map of_char s) of
             Some (c, _) \<Rightarrow> Some c
           | None \<Rightarrow> Some 0xFFFD)"

fun num_loop :: "position \<Rightarrow> nat \<Rightarrow> u64 \<Rightarrow> string \<Rightarrow> error_kind + (nat \<times> u64 \<times> string)" where
  "num_loop pos len value [] = Inr (len, value, [])"
| "num_loop pos len value (digit # rest) =
     (if \<not> is_digit digit then Inr (len, value, digit # rest)
      else if value = 0 \<and> len > 0 then Inl (LeadingZero pos)
      else case Option.bind (checked_mul value 10)
                  (\<lambda>value. checked_add value (of_nat (digit_val digit))) of
             Some next_value \<Rightarrow> num_loop pos (len + 1) next_value rest
           | None \<Rightarrow> Inl (Overflow pos))"

definition numeric_identifier :: "string \<Rightarrow> position \<Rightarrow> error_kind + (u64 \<times> string)" where
  "numeric_identifier input pos =
     and_then (num_loop pos 0 0 input) (\<lambda>(len, value, rest).
       if len > 0 then Inr (value, rest)
       else case first_char rest of
              Some unexpected \<Rightarrow> Inl (UnexpectedChar pos unexpected)
            | None \<Rightarrow> Inl (UnexpectedEnd pos))"

definition wildcard :: "string \<Rightarrow> (u32 \<times> string) option" where
  "wildcard input =
     (case strip_prefix CHR ''*'' input of
        Some rest \<Rightarrow> Some (42, rest)
      | None \<Rightarrow> (case strip_prefix CHR ''x'' input of
          Some rest \<Rightarrow> Some (120, rest)
        | None \<Rightarrow> (case strip_prefix CHR ''X'' input of
            Some rest \<Rightarrow> Some (88, rest)
          | None \<Rightarrow> None)))"

definition dot :: "string \<Rightarrow> position \<Rightarrow> error_kind + string" where
  "dot input pos =
     (case strip_prefix CHR ''.'' input of
        Some rest \<Rightarrow> Inr rest
      | None \<Rightarrow>
          (case first_char input of
             Some unexpected \<Rightarrow> Inl (UnexpectedCharAfter pos unexpected)
           | None \<Rightarrow> Inl (UnexpectedEnd pos)))"

definition is_letter :: "char \<Rightarrow> bool" where
  "is_letter c \<longleftrightarrow> (let n = of_char c :: nat in 65 \<le> n \<and> n \<le> 90 \<or> 97 \<le> n \<and> n \<le> 122 \<or> n = 45)"

text \<open>
  The loop of \<open>identifier\<close>; the last argument is \<open>input\<close> from the byte it looks at on.
\<close>

fun ident_loop :: "string \<Rightarrow> position \<Rightarrow> nat \<Rightarrow> nat \<Rightarrow> bool \<Rightarrow> string \<Rightarrow> error_kind + (string \<times> string)"
  where
  "ident_loop input pos accumulated_len segment_len nondigit [] =
     (if segment_len = 0 then
        if accumulated_len = 0 then Inr ([], input) else Inl (EmptySegment pos)
      else if pos = Pre \<and> segment_len > 1 \<and> \<not> nondigit
              \<and> starts_with CHR ''0'' (drop accumulated_len input) then Inl (LeadingZero pos)
      else let accumulated_len = accumulated_len + segment_len
        in Inr (take accumulated_len input, drop accumulated_len input))"
| "ident_loop input pos accumulated_len segment_len nondigit (c # rest) =
     (if is_letter c then ident_loop input pos accumulated_len (segment_len + 1) True rest
      else if is_digit c then ident_loop input pos accumulated_len (segment_len + 1) nondigit rest
      else if segment_len = 0 then
        if accumulated_len = 0 \<and> c \<noteq> CHR ''.'' then Inr ([], input) else Inl (EmptySegment pos)
      else if pos = Pre \<and> segment_len > 1 \<and> \<not> nondigit
              \<and> starts_with CHR ''0'' (drop accumulated_len input) then Inl (LeadingZero pos)
      else let accumulated_len = accumulated_len + segment_len
        in if c = CHR ''.'' then ident_loop input pos (accumulated_len + 1) 0 False rest
           else Inr (take accumulated_len input, drop accumulated_len input))"

definition parse_identifier :: "string \<Rightarrow> position \<Rightarrow> error_kind + (string \<times> string)" where
  "parse_identifier input pos = ident_loop input pos 0 0 False input"

definition prerelease_identifier :: "string \<Rightarrow> error_kind + (prerelease \<times> string)" where
  "prerelease_identifier input =
     and_then (parse_identifier input Pre) (\<lambda>(s, rest). Inr (Prerelease s, rest))"

definition build_identifier :: "string \<Rightarrow> error_kind + (build_metadata \<times> string)" where
  "build_identifier input =
     and_then (parse_identifier input Build) (\<lambda>(s, rest). Inr (BuildMetadata s, rest))"

definition op_DEFAULT :: op where
  "op_DEFAULT = Caret"

definition parse_op :: "string \<Rightarrow> op \<times> string" where
  "parse_op bytes =
     (if starts_with CHR ''='' bytes then (Exact, drop 1 bytes)
      else if starts_with CHR ''>'' bytes then
        (if starts_with CHR ''='' (drop 1 bytes) then (GreaterEq, drop 2 bytes)
         else (Op_Greater, drop 1 bytes))
      else if starts_with CHR ''<'' bytes then
        (if starts_with CHR ''='' (drop 1 bytes) then (LessEq, drop 2 bytes)
         else (Op_Less, drop 1 bytes))
      else if starts_with CHR ''~'' bytes then (Tilde, drop 1 bytes)
      else if starts_with CHR ''^'' bytes then (Caret, drop 1 bytes)
      else (op_DEFAULT, bytes))"

section \<open>Comparators and requirements\<close>

text \<open>
  The three optional parts of a comparator, each with the state it leaves: the operator, the
  position reached, whether the minor number was a wildcard, the value read and the rest.
\<close>

definition comparator_minor ::
  "bool \<Rightarrow> op \<Rightarrow> position \<Rightarrow> string \<Rightarrow> error_kind + (op \<times> position \<times> bool \<times> u64 option \<times> string)"
  where
  "comparator_minor default_op op pos text =
     (case strip_prefix CHR ''.'' text of
        Some text \<Rightarrow>
          let pos = Minor in
          (case wildcard text of
             Some (_, text) \<Rightarrow> Inr (if default_op then Wildcard else op, pos, True, None, text)
           | None \<Rightarrow> and_then (numeric_identifier text pos)
               (\<lambda>(minor, text). Inr (op, pos, False, Some minor, text)))
      | None \<Rightarrow> Inr (op, pos, False, None, text))"

definition comparator_patch ::
  "bool \<Rightarrow> bool \<Rightarrow> op \<Rightarrow> position \<Rightarrow> string \<Rightarrow> error_kind + (op \<times> position \<times> u64 option \<times> string)"
  where
  "comparator_patch default_op has_wildcard op pos text =
     (case strip_prefix CHR ''.'' text of
        Some text \<Rightarrow>
          let pos = Patch in
          (case wildcard text of
             Some (_, text) \<Rightarrow> Inr (if default_op then Wildcard else op, pos, None, text)
           | None \<Rightarrow>
               if has_wildcard then Inl UnexpectedAfterWildcard
               else and_then (numeric_identifier text pos)
                      (\<lambda>(patch, text). Inr (op, pos, Some patch, text)))
      | None \<Rightarrow> Inr (op, pos, None, text))"

definition comparator_pre ::
  "u64 option \<Rightarrow> position \<Rightarrow> string \<Rightarrow> error_kind + (position \<times> prerelease \<times> string)" where
  "comparator_pre patch pos text =
     (if patch \<noteq> None \<and> starts_with CHR ''-'' text then
        let pos = Pre; text = drop 1 text in
        and_then (prerelease_identifier text) (\<lambda>(pre, text).
          if pre_is_empty pre then Inl (EmptySegment pos) else Inr (pos, pre, text))
      else Inr (pos, pre_EMPTY, text))"

definition comparator_build ::
  "u64 option \<Rightarrow> position \<Rightarrow> string \<Rightarrow> error_kind + (position \<times> string)" where
  "comparator_build patch pos text =
     (if patch \<noteq> None \<and> starts_with CHR ''+'' text then
        let pos = Build; text = drop 1 text in
        and_then (build_identifier text) (\<lambda>(build, text).
          if build_is_empty build then Inl (EmptySegment pos) else Inr (pos, text))
      else Inr (pos, text))"

definition parse_comparator :: "string \<Rightarrow> error_kind + (comparator \<times> position \<times> string)" where
  "parse_comparator input =
     (let (op, text) = parse_op input;
          default_op = (length input = length text);
          text = trim_start CHR '' '' text;
          pos = Major
      in and_then (numeric_identifier text pos) (\<lambda>(major, text).
         and_then (comparator_minor default_op op pos text) (\<lambda>(op, pos, has_wildcard, minor, text).
         and_then (comparator_patch default_op has_wildcard op pos text) (\<lambda>(op, pos, patch, text).
         and_then (comparator_pre patch pos text) (\<lambda>(pos, pre, text).
         and_then (comparator_build patch pos text) (\<lambda>(pos, text).
           let text = trim_start CHR '' '' text;
               comparator = \<lparr>c_op = op, c_major = major, c_minor = minor, c_patch = patch,
                             c_pre = pre\<rparr>
           in Inr (comparator, pos, text)))))))"

definition MAX_COMPARATORS :: nat where
  "MAX_COMPARATORS = 32"

lemma length_trim_start: "length (trim_start c s) \<le> length s"
  by (simp add: trim_start_def length_dropWhile_le)

lemma strip_prefix_Some: "strip_prefix c s = Some t \<longleftrightarrow> s = c # t"
  by (auto simp: strip_prefix_def split: list.splits if_splits)

lemma num_loop_shorter:
  "num_loop pos len v s = Inr (len', v', rest) \<Longrightarrow> len' + length rest = len + length s"
  by (induction pos len v s rule: num_loop.induct) (auto split: if_splits option.splits)

lemma numeric_shorter: "numeric_identifier s pos = Inr (v, rest) \<Longrightarrow> length rest < length s"
  by (auto simp: numeric_identifier_def and_then_Inr split: if_splits option.splits
      dest: num_loop_shorter)

lemma wildcard_shorter: "wildcard s = Some (c, rest) \<Longrightarrow> length rest < length s"
  by (auto simp: wildcard_def strip_prefix_Some split: option.splits)

lemma ident_loop_shorter:
  "ident_loop input pos acc seg nd r = Inr (s, rest) \<Longrightarrow> length rest \<le> length input"
  by (induction input pos acc seg nd r rule: ident_loop.induct)
    (auto simp: Let_def split: if_splits)

lemma parse_op_shorter: "length (snd (parse_op s)) \<le> length s"
  by (simp add: parse_op_def)

lemma comparator_minor_shorter:
  "comparator_minor d op pos s = Inr (op', pos', w, m, rest) \<Longrightarrow> length rest \<le> length s"
  by (auto simp: comparator_minor_def strip_prefix_Some and_then_Inr Let_def split: option.splits
      dest: wildcard_shorter numeric_shorter)

lemma comparator_patch_shorter:
  "comparator_patch d w op pos s = Inr (op', pos', m, rest) \<Longrightarrow> length rest \<le> length s"
  by (auto simp: comparator_patch_def strip_prefix_Some and_then_Inr Let_def
      split: option.splits if_splits dest: wildcard_shorter numeric_shorter)

lemma comparator_pre_shorter:
  "comparator_pre p pos s = Inr (pos', pre, rest) \<Longrightarrow> length rest \<le> length s"
  by (auto simp: comparator_pre_def prerelease_identifier_def parse_identifier_def and_then_Inr Let_def
      split: if_splits dest!: ident_loop_shorter)

lemma comparator_build_shorter:
  "comparator_build p pos s = Inr (pos', rest) \<Longrightarrow> length rest \<le> length s"
  by (auto simp: comparator_build_def build_identifier_def parse_identifier_def and_then_Inr Let_def
      split: if_splits dest!: ident_loop_shorter)

lemma comparator_shorter:
  assumes "parse_comparator input = Inr (c, pos, rest)"
  shows "length rest < length input"
proof -
  obtain op t0 where op: "parse_op input = (op, t0)" by force
  from assms obtain major t1 op2 p2 w minor t2 op3 p3 patch t3 p4 pre t4 p5 t5 where
    n: "numeric_identifier (trim_start CHR '' '' t0) Major = Inr (major, t1)"
    and m: "comparator_minor (length input = length t0) op Major t1 = Inr (op2, p2, w, minor, t2)"
    and p: "comparator_patch (length input = length t0) w op2 p2 t2 = Inr (op3, p3, patch, t3)"
    and e: "comparator_pre patch p3 t3 = Inr (p4, pre, t4)"
    and b: "comparator_build patch p4 t4 = Inr (p5, t5)"
    and r: "rest = trim_start CHR '' '' t5"
    by (auto simp: parse_comparator_def op and_then_Inr Let_def)
  have "length rest \<le> length t5" by (simp add: r length_trim_start)
  also have "\<dots> \<le> length t4" by (rule comparator_build_shorter [OF b])
  also have "\<dots> \<le> length t3" by (rule comparator_pre_shorter [OF e])
  also have "\<dots> \<le> length t2" by (rule comparator_patch_shorter [OF p])
  also have "\<dots> \<le> length t1" by (rule comparator_minor_shorter [OF m])
  also have "\<dots> < length (trim_start CHR '' '' t0)" by (rule numeric_shorter [OF n])
  also have "\<dots> \<le> length t0" by (rule length_trim_start)
  also have "\<dots> \<le> length input" using parse_op_shorter [of input] op by simp
  finally show ?thesis .
qed

text \<open>
  The buffer the comparators are collected in: capacity is reserved by the deepest call only,
  whose cells are uninitialised until each call writes its own.
\<close>

definition reserve_exact :: "nat \<Rightarrow> 'a option list \<Rightarrow> 'a option list" where
  "reserve_exact n out = out @ replicate (n - length out) None"

function version_req ::
  "string \<Rightarrow> comparator option list \<Rightarrow> nat \<Rightarrow> error_kind + (nat \<times> comparator option list)" where
  "version_req input out depth =
     (case parse_comparator input of
        Inl error \<Rightarrow>
          Inl (case wildcard input of
                 Some (ch, rest) \<Rightarrow>
                   let rest = trim_start CHR '' '' rest in
                   if rest = [] \<or> starts_with CHR '','' rest
                   then WildcardNotTheOnlyComparator ch else error
               | None \<Rightarrow> error)
      | Inr (comparator, pos, text) \<Rightarrow>
          if text = [] then
            let out = reserve_exact (depth + 1) out
            in Inr (depth + 1, out[depth := Some comparator])
          else (case strip_prefix CHR '','' text of
                  None \<Rightarrow> Inl (ExpectedCommaFound pos (the (first_char text)))
                | Some text \<Rightarrow>
                    let text = trim_start CHR '' '' text in
                    if depth + 1 = MAX_COMPARATORS then Inl ExcessiveComparators
                    else (case version_req text out (depth + 1) of
                            Inl error \<Rightarrow> Inl error
                          | Inr (len, out) \<Rightarrow> Inr (len, out[depth := Some comparator]))))"
  by pat_completeness auto

termination
proof (relation "measure (\<lambda>(input, out, depth). length input)")
  fix input :: string and depth :: nat and z z' pos t t' t''
    and c :: comparator and out :: "comparator option list"
  assume "parse_comparator input = Inr z" "(c, z') = z" "(pos, t) = z'"
    "strip_prefix CHR '','' t = Some t'" "t'' = trim_start CHR '' '' t'"
  then have "length t < length input" "t = CHR '','' # t'" "length t'' \<le> length t'"
    using comparator_shorter [of input c pos t] length_trim_start [of "CHR '' ''" t']
    by (auto simp: strip_prefix_Some)
  then show "((t'', out, depth + 1), (input, out, depth)) \<in> measure (\<lambda>(input, out, depth). length input)"
    by simp
qed simp

declare version_req.simps [simp del]

section \<open>Entry points\<close>

text \<open>The two optional parts of a version, with the position they leave.\<close>

definition version_pre :: "position \<Rightarrow> string \<Rightarrow> error_kind + (position \<times> prerelease \<times> string)" where
  "version_pre pos text =
     (case strip_prefix CHR ''-'' text of
        Some text \<Rightarrow>
          let pos = Pre in
          and_then (prerelease_identifier text) (\<lambda>(pre, text).
            if pre_is_empty pre then Inl (EmptySegment pos) else Inr (pos, pre, text))
      | None \<Rightarrow> Inr (pos, pre_EMPTY, text))"

definition version_build :: "position \<Rightarrow> string \<Rightarrow> error_kind + (position \<times> build_metadata \<times> string)" where
  "version_build pos text =
     (case strip_prefix CHR ''+'' text of
        Some text \<Rightarrow>
          let pos = Build in
          and_then (build_identifier text) (\<lambda>(build, text).
            if build_is_empty build then Inl (EmptySegment pos) else Inr (pos, build, text))
      | None \<Rightarrow> Inr (pos, build_EMPTY, text))"

definition version_from_str :: "string \<Rightarrow> error_kind + version" where
  "version_from_str text =
     (if text = [] then Inl Empty
      else
        let pos = Major in
        and_then (numeric_identifier text pos) (\<lambda>(major, text).
        and_then (dot text pos) (\<lambda>text.
        let pos = Minor in
        and_then (numeric_identifier text pos) (\<lambda>(minor, text).
        and_then (dot text pos) (\<lambda>text.
        let pos = Patch in
        and_then (numeric_identifier text pos) (\<lambda>(patch, text).
        if text = [] then Inr (version_new major minor patch)
        else
        and_then (version_pre pos text) (\<lambda>(pos, pre, text).
        and_then (version_build pos text) (\<lambda>(pos, build, text).
        case first_char text of
          Some unexpected \<Rightarrow> Inl (UnexpectedCharAfter pos unexpected)
        | None \<Rightarrow> Inr (Version major minor patch pre build)))))))))"

definition req_from_str :: "string \<Rightarrow> error_kind + version_req" where
  "req_from_str text =
     (let text = trim_start CHR '' '' text in
      case wildcard text of
        Some (ch, text) \<Rightarrow>
          let rest = trim_start CHR '' '' text in
          if rest = [] then Inr STAR
          else if starts_with CHR '','' rest then Inl (WildcardNotTheOnlyComparator ch)
          else Inl UnexpectedAfterWildcard
      | None \<Rightarrow>
          and_then (version_req text [] 0) (\<lambda>(len, cells).
            Inr \<lparr>comparators = map the (take len cells)\<rparr>))"

definition comparator_from_str :: "string \<Rightarrow> error_kind + comparator" where
  "comparator_from_str text =
     (let text = trim_start CHR '' '' text in
      and_then (parse_comparator text) (\<lambda>(comparator, pos, rest).
        if rest \<noteq> [] then Inl (UnexpectedCharAfter pos (the (first_char rest)))
        else Inr comparator))"

definition prerelease_from_str :: "string \<Rightarrow> error_kind + prerelease" where
  "prerelease_from_str text =
     and_then (prerelease_identifier text) (\<lambda>(pre, rest).
       if rest \<noteq> [] then Inl (IllegalCharacter Pre) else Inr pre)"

definition build_from_str :: "string \<Rightarrow> error_kind + build_metadata" where
  "build_from_str text =
     and_then (build_identifier text) (\<lambda>(build, rest).
       if rest \<noteq> [] then Inl (IllegalCharacter Build) else Inr build)"

section \<open>What the scanners accept\<close>

definition no_digit_next :: "string \<Rightarrow> bool" where
  "no_digit_next s \<longleftrightarrow> s = [] \<or> \<not> is_digit (hd s)"

lemma val_digits_step:
  assumes "is_digit d" and "val_digits (unat v * 10 + digit_val d) ds < 2 ^ 64"
  shows "\<exists>w. Option.bind (checked_mul v 10) (\<lambda>v. checked_add v (of_nat (digit_val d))) = Some w \<and>
    unat (w :: u64) = unat v * 10 + digit_val d"
proof -
  have u: "unat (of_nat (digit_val d) :: u64) = digit_val d"
    using digit_val_less [OF assms(1)] by (intro of_nat_checked) simp
  have lt: "unat v * 10 + digit_val d < 2 ^ 64"
    using assms(2) val_digits_mono [of "unat v * 10 + digit_val d" ds] by simp
  then have m: "checked_mul v 10 = Some (v * 10)" by (simp add: checked_mul_def)
  have v10: "unat (v * 10) = unat v * 10" using checked_mul_Some [OF m] by simp
  then have a: "checked_add (v * 10) (of_nat (digit_val d)) = Some (v * 10 + of_nat (digit_val d))"
    using lt by (simp add: checked_add_def u)
  show ?thesis using checked_add_Some [OF a] by (simp add: m a v10 u)
qed

lemma num_loop_accepts:
  "list_all is_digit ds \<Longrightarrow> no_digit_next rest \<Longrightarrow> val_digits (unat v) ds < 2 ^ 64 \<Longrightarrow>
   (v = 0 \<and> len > 0 \<longrightarrow> ds = []) \<Longrightarrow> (v = 0 \<and> ds \<noteq> [] \<and> hd ds = CHR ''0'' \<longrightarrow> length ds = 1) \<Longrightarrow>
   num_loop pos len v (ds @ rest) = Inr (len + length ds, of_nat (val_digits (unat v) ds), rest)"
proof (induction ds arbitrary: v len)
  case Nil
  then show ?case by (cases rest) (auto simp: no_digit_next_def)
next
  case (Cons d ds)
  from Cons.prems val_digits_step [of d v ds] obtain w where
    w: "Option.bind (checked_mul v 10) (\<lambda>v. checked_add v (of_nat (digit_val d))) = Some w"
      "unat w = unat v * 10 + digit_val d" by auto
  have z: "ds = []" if "w = 0"
  proof -
    from that w(2) have "v = 0" "digit_val d = 0" by (simp_all add: unat_eq_0)
    moreover from this Cons.prems(1) have "d = CHR ''0''"
      using digit_char_digit_val [of d] by (simp add: digit_char_0)
    ultimately show ?thesis using Cons.prems(5) by simp
  qed
  have "num_loop pos (len + 1) w (ds @ rest) =
      Inr (len + 1 + length ds, of_nat (val_digits (unat w) ds), rest)"
    by (rule Cons.IH) (use Cons.prems z in \<open>auto simp: w(2)\<close>)
  with Cons.prems w show ?case by simp
qed

lemma num_loop_sound:
  "num_loop pos len v s = Inr (len', v', rest) \<Longrightarrow>
   \<exists>ds. s = ds @ rest \<and> list_all is_digit ds \<and> len' = len + length ds \<and>
     unat v' = val_digits (unat v) ds \<and> no_digit_next rest \<and> (v = 0 \<and> len > 0 \<longrightarrow> ds = []) \<and>
     (v = 0 \<and> ds \<noteq> [] \<and> hd ds = CHR ''0'' \<longrightarrow> length ds = 1)"
proof (induction pos len v s rule: num_loop.induct)
  case (2 pos len v d s)
  show ?case
  proof (cases "is_digit d")
    case True
    with "2.prems" obtain w where nz: "\<not> (v = 0 \<and> len > 0)"
      and w: "Option.bind (checked_mul v 10) (\<lambda>v. checked_add v (of_nat (digit_val d))) = Some w"
      and l: "num_loop pos (len + 1) w s = Inr (len', v', rest)"
      by (auto split: if_splits option.splits)
    obtain ds where ds: "s = ds @ rest" "list_all is_digit ds" "len' = len + 1 + length ds"
      "unat v' = val_digits (unat w) ds" "no_digit_next rest" "w = 0 \<longrightarrow> ds = []"
      using "2.IH" [OF _ nz w l] True by auto
    have u: "unat (of_nat (digit_val d) :: u64) = digit_val d"
      using digit_val_less [OF True] by (intro of_nat_checked) simp
    from w obtain x where x: "checked_mul v 10 = Some x" "checked_add x (of_nat (digit_val d)) = Some w"
      by (auto split: bind_splits)
    then have uw: "unat w = unat v * 10 + digit_val d"
      using checked_mul_Some [OF x(1)] checked_add_Some [OF x(2)] by (simp add: u)
    have "w = 0" if "v = 0" "d = CHR ''0''"
      using uw that by (simp add: digit_val_def unat_eq_0)
    then show ?thesis
      using True ds nz uw by (intro exI [of _ "d # ds"]) auto
  next
    case False
    with "2.prems" show ?thesis
      by (intro exI [of _ "[]"]) (auto simp: no_digit_next_def)
  qed
qed (auto simp: no_digit_next_def)

text \<open>A number is accepted exactly when it is the canonical decimal form of a \<open>u64\<close>.\<close>

lemma numeric_accepts:
  "no_digit_next rest \<Longrightarrow> numeric_identifier (show_word w @ rest) pos = Inr (w, rest)"
  using num_loop_accepts [of "show_nat (unat w)" rest 0 0 pos] show_nat_digits [of "unat w"]
    show_nat_zero_alone [of "unat w"] unat_bound [of w]
  by (simp add: numeric_identifier_def show_word_def)

lemma numeric_sound:
  assumes "numeric_identifier s pos = Inr (w, rest)"
  shows "s = show_word w @ rest \<and> no_digit_next rest"
proof -
  from assms obtain len where l: "num_loop pos 0 0 s = Inr (len, w, rest)" "0 < len"
    by (auto simp: numeric_identifier_def and_then_Inr split: if_splits option.splits)
  from num_loop_sound [OF l(1)] l(2) obtain ds where
    "s = ds @ rest" "list_all is_digit ds" "ds \<noteq> []" "unat w = val_digits 0 ds" "no_digit_next rest"
    "hd ds = CHR ''0'' \<longrightarrow> length ds = 1" by auto
  then show ?thesis by (simp add: show_word_def show_nat_val_digits)
qed

text \<open>
  An identifier: nothing, or segments of letters, digits and hyphens between dots, none empty
  and, in a pre-release, none numeric with a leading zero.
\<close>

definition is_ident_char :: "char \<Rightarrow> bool" where
  "is_ident_char c \<longleftrightarrow> is_letter c \<or> is_digit c"

definition seg_ok :: "position \<Rightarrow> string \<Rightarrow> bool" where
  "seg_ok pos s \<longleftrightarrow> s \<noteq> [] \<and> list_all is_ident_char s \<and>
     \<not> (pos = Pre \<and> length s > 1 \<and> all_digits s \<and> hd s = CHR ''0'')"

definition ident_ok :: "position \<Rightarrow> string \<Rightarrow> bool" where
  "ident_ok pos s \<longleftrightarrow> s = [] \<or> list_all (seg_ok pos) (split_on CHR ''.'' s)"

definition no_ident_next :: "string \<Rightarrow> bool" where
  "no_ident_next s \<longleftrightarrow> s = [] \<or> \<not> is_ident_char (hd s) \<and> hd s \<noteq> CHR ''.''"

lemma dot_not_ident [simp]: "\<not> is_ident_char CHR ''.''" "\<not> is_letter CHR ''.''" "\<not> is_digit CHR ''.''"
  by (simp_all add: is_ident_char_def is_letter_def is_digit_def)

lemma letter_not_digit: "is_letter c \<Longrightarrow> \<not> is_digit c"
  by (auto simp: is_letter_def is_digit_def Let_def)

lemma split_on_no: "c \<notin> set g \<Longrightarrow> split_on c g = [g]"
  by (induction g) auto

lemma split_on_app: "c \<notin> set g \<Longrightarrow> split_on c (g @ c # t) = g # split_on c t"
  by (induction g) auto

lemma seg_no_dot: "list_all is_ident_char g \<Longrightarrow> CHR ''.'' \<notin> set g"
  by (auto simp: list_all_iff)

lemma split_on_chars: "x \<in> set s \<Longrightarrow> x = c \<or> (\<exists>p \<in> set (split_on c s). x \<in> set p)"
  by (induction s) (auto split: list.splits)

lemma segs_chars:
  "list_all (seg_ok pos) (split_on CHR ''.'' s) \<Longrightarrow> x \<in> set s \<Longrightarrow> x = CHR ''.'' \<or> is_ident_char x"
  using split_on_chars [of x s "CHR ''.''"] by (fastforce simp: list_all_iff seg_ok_def)

text \<open>The loop with \<open>g\<close> the open segment, \<open>done\<close> what precedes it and \<open>t\<close> what follows.\<close>

lemma ident_loop_accepts:
  assumes "no_ident_next tail"
  shows "list_all is_ident_char g \<Longrightarrow> list_all (seg_ok pos) (split_on CHR ''.'' (g @ t)) \<Longrightarrow>
    input = before @ g @ t @ tail \<Longrightarrow>
    ident_loop input pos (length before) (length g) (\<not> all_digits g) (t @ tail) =
      Inr (before @ g @ t, tail)"
proof (induction t arbitrary: g before)
  case Nil
  then have "seg_ok pos g" using split_on_no [OF seg_no_dot] by simp
  moreover have "ident_loop input pos (length before) (length g) (\<not> all_digits g) tail =
      (if pos = Pre \<and> length g > 1 \<and> all_digits g \<and> starts_with CHR ''0'' (drop (length before) input)
       then Inl (LeadingZero pos) else Inr (before @ g, tail))"
    using assms Nil.prems(3) \<open>seg_ok pos g\<close>
    by (cases tail) (auto simp: no_ident_next_def is_ident_char_def seg_ok_def)
  ultimately show ?case
    using Nil.prems(3) by (auto simp: seg_ok_def starts_with_def)
next
  case (Cons x t)
  show ?case
  proof (cases "x = CHR ''.''")
    case True
    then have s: "split_on CHR ''.'' (g @ x # t) = g # split_on CHR ''.'' t"
      using split_on_app [OF seg_no_dot [OF Cons.prems(1)]] by simp
    with Cons.prems(2) have g: "seg_ok pos g" by simp
    have "ident_loop input pos (length (before @ g @ [x])) (length ([] :: string)) (\<not> all_digits []) (t @ tail) =
        Inr ((before @ g @ [x]) @ [] @ t, tail)"
      by (rule Cons.IH) (use Cons.prems s in simp_all)
    then show ?thesis
      using g Cons.prems(3) True
      by (auto simp: seg_ok_def starts_with_def all_digits_def)
  next
    case False
    have x: "is_ident_char x"
      using segs_chars [OF Cons.prems(2), of x] False by simp
    have "ident_loop input pos (length before) (length (g @ [x])) (\<not> all_digits (g @ [x])) (t @ tail) =
        Inr (before @ (g @ [x]) @ t, tail)"
      by (rule Cons.IH) (use Cons.prems x in simp_all)
    then show ?thesis
      using x by (auto simp: is_ident_char_def all_digits_def letter_not_digit)
  qed
qed

lemma ident_loop_sound:
  "ident_loop input pos (length before) (length g) nd r = Inr (a, b) \<Longrightarrow>
    input = before @ g @ r \<Longrightarrow> list_all is_ident_char g \<Longrightarrow> nd = (\<not> all_digits g) \<Longrightarrow>
    before = [] \<and> g = [] \<and> a = [] \<and> b = input \<and> no_ident_next input \<or>
    (\<exists>t. r = t @ b \<and> a = before @ g @ t \<and> no_ident_next b \<and>
       list_all (seg_ok pos) (split_on CHR ''.'' (g @ t)))"
proof (induction r arbitrary: before g nd)
  case Nil
  then show ?case
    using split_on_no [OF seg_no_dot [OF Nil.prems(3)]]
    by (auto simp: no_ident_next_def seg_ok_def starts_with_def Let_def split: if_splits)
next
  case (Cons x r)
  note nodot = seg_no_dot [OF Cons.prems(3)]
  show ?case
  proof (cases "is_ident_char x")
    case True
    with Cons.prems have "ident_loop input pos (length before) (length (g @ [x]))
        (\<not> all_digits (g @ [x])) r = Inr (a, b)"
      by (auto simp: is_ident_char_def all_digits_def letter_not_digit split: if_splits)
    from Cons.IH [OF this] Cons.prems True show ?thesis by fastforce
  next
    case False
    then have x: "\<not> is_letter x" "\<not> is_digit x" by (simp_all add: is_ident_char_def)
    show ?thesis
    proof (cases "g = []")
      case True
      with Cons.prems False show ?thesis
        by (auto simp: is_ident_char_def no_ident_next_def split: if_splits)
    next
      case g: False
      have ok: "seg_ok pos g"
        using Cons.prems x g by (auto simp: seg_ok_def starts_with_def split: if_splits)
      show ?thesis
      proof (cases "x = CHR ''.''")
        case True
        have "ident_loop input pos (length (before @ g @ [x])) (length ([] :: string))
            (\<not> all_digits []) r = Inr (a, b)"
          using Cons.prems g False True
          by (simp add: is_ident_char_def all_digits_def Let_def split: if_splits)
        from Cons.IH [OF this] Cons.prems(2) obtain t where
          "r = t @ b" "a = before @ g @ x # t" "no_ident_next b"
          "list_all (seg_ok pos) (split_on CHR ''.'' t)" by auto
        then show ?thesis
          using ok split_on_app [OF nodot, of t] True by auto
      next
        case nd: False
        then have "a = before @ g" "b = x # r"
          using Cons.prems(1,2) g x by (auto simp: Let_def split: if_splits)
        then show ?thesis
          using ok split_on_no [OF nodot] nd False by (simp add: no_ident_next_def)
      qed
    qed
  qed
qed

lemma identifier_accepts:
  assumes "ident_ok pos s" and "no_ident_next rest"
  shows "parse_identifier (s @ rest) pos = Inr (s, rest)"
proof (cases "s = []")
  case True
  with assms show ?thesis
    by (cases rest) (auto simp: parse_identifier_def no_ident_next_def is_ident_char_def)
next
  case False
  with assms ident_loop_accepts [OF assms(2), of "[]" pos s "s @ rest" "[]"] show ?thesis
    by (simp add: ident_ok_def parse_identifier_def all_digits_def)
qed

lemma identifier_sound:
  assumes "parse_identifier input pos = Inr (s, rest)"
  shows "input = s @ rest \<and> ident_ok pos s \<and> no_ident_next rest"
  using assms ident_loop_sound [of input pos "[]" "[]" False input s rest]
  by (auto simp: parse_identifier_def ident_ok_def all_digits_def)

end
