(* ===== verification/Semver_Display.thy ===== *)
theory Semver_Display
  imports Semver_Parse
begin

text \<open>
  Printing in \<open>semver-1.0.26\<close> (\<open>src/display.rs\<close> and the messages of \<open>src/error.rs\<close>):
  versions, with padding to a minimum width, comparators, requirements and errors. The formatter
  is the options it carries; a sink that fails is outside the model. The round trips with the
  parser are the properties of this theory.
\<close>

section \<open>Printing\<close>

datatype alignment = Left | Right | Center

record format_spec =
  fmt_width :: "nat option"
  fmt_align :: "alignment option"
  fmt_fill :: string

definition fmt_default :: format_spec where
  "fmt_default = \<lparr>fmt_width = None, fmt_align = None, fmt_fill = '' ''\<rparr>"

function digits :: "u64 \<Rightarrow> nat" where
  "digits val = (if val < 10 then 1 else 1 + digits (val div 10))"
  by pat_completeness auto

termination
proof (relation "measure unat")
  fix val :: u64
  assume "\<not> val < 10"
  then have "unat val div 10 < unat val" by (auto simp: word_less_nat_alt)
  then show "(val div 10, val) \<in> measure unat" by (simp add: unat_div_distrib)
qed simp

declare digits.simps [simp del]

text \<open>The closures \<open>do_display\<close> and \<open>do_len\<close> of \<open>Version\<close>'s \<open>fmt\<close>.\<close>

definition version_do_display :: "version \<Rightarrow> string" where
  "version_do_display v =
     show_word (v_major v) @ ''.'' @ show_word (v_minor v) @ ''.'' @ show_word (v_patch v) @
     (if \<not> pre_is_empty (v_pre v) then ''-'' @ pre_str (v_pre v) else []) @
     (if \<not> build_is_empty (v_build v) then ''+'' @ build_str (v_build v) else [])"

definition version_do_len :: "version \<Rightarrow> nat" where
  "version_do_len v =
     digits (v_major v) + 1 + digits (v_minor v) + 1 + digits (v_patch v)
       + (if \<not> pre_is_empty (v_pre v) then 1 else 0) + length (pre_str (v_pre v))
       + (if \<not> build_is_empty (v_build v) then 1 else 0) + length (build_str (v_build v))"

definition pad :: "format_spec \<Rightarrow> string \<Rightarrow> nat \<Rightarrow> string" where
  "pad formatter displayed len =
     (case fmt_width formatter of
        None \<Rightarrow> displayed
      | Some min_width \<Rightarrow>
          if len \<ge> min_width then displayed
          else
            let align = (case fmt_align formatter of Some a \<Rightarrow> a | None \<Rightarrow> Left);
                padding = min_width - len;
                (pre_pad, post_pad) =
                  (case align of
                     Left \<Rightarrow> (0, padding)
                   | Right \<Rightarrow> (padding, 0)
                   | Center \<Rightarrow> (padding div 2, (padding + 1) div 2));
                fill = fmt_fill formatter
            in concat (replicate pre_pad fill) @ displayed @ concat (replicate post_pad fill))"

definition version_fmt :: "format_spec \<Rightarrow> version \<Rightarrow> string" where
  "version_fmt formatter v = pad formatter (version_do_display v) (version_do_len v)"

fun op_str :: "op \<Rightarrow> string" where
  "op_str Exact = ''=''"
| "op_str Op_Greater = ''>''"
| "op_str GreaterEq = ''>=''"
| "op_str Op_Less = ''<''"
| "op_str LessEq = ''<=''"
| "op_str Tilde = ''~''"
| "op_str Caret = ''^''"
| "op_str Wildcard = ''''"

definition comparator_fmt :: "comparator \<Rightarrow> string" where
  "comparator_fmt c =
     op_str (c_op c) @ show_word (c_major c) @
     (case c_minor c of
        Some minor \<Rightarrow> ''.'' @ show_word minor @
          (case c_patch c of
             Some patch \<Rightarrow> ''.'' @ show_word patch @
               (if \<not> pre_is_empty (c_pre c) then ''-'' @ pre_str (c_pre c) else [])
           | None \<Rightarrow> if c_op c = Wildcard then ''.*'' else [])
      | None \<Rightarrow> if c_op c = Wildcard then ''.*'' else [])"

text \<open>The loop over \<open>enumerate()\<close>: a separator before every comparator but the first.\<close>

fun req_loop :: "nat \<Rightarrow> comparator list \<Rightarrow> string" where
  "req_loop i [] = []"
| "req_loop i (c # cs) = (if i > 0 then '', '' else []) @ comparator_fmt c @ req_loop (i + 1) cs"

definition req_fmt :: "version_req \<Rightarrow> string" where
  "req_fmt r = (if comparators r = [] then ''*'' else req_loop 0 (comparators r))"

fun position_fmt :: "position \<Rightarrow> string" where
  "position_fmt Major = ''major version number''"
| "position_fmt Minor = ''minor version number''"
| "position_fmt Patch = ''patch version number''"
| "position_fmt Pre = ''pre-release identifier''"
| "position_fmt Build = ''build metadata''"

text \<open>
  \<open>char_debug\<close> is the standard library's \<open>{:?}\<close> of a character; a character printed with
  \<open>{}\<close> is its UTF-8 encoding.
\<close>

definition quoted_char :: "(u32 \<Rightarrow> string) \<Rightarrow> u32 \<Rightarrow> string" where
  "quoted_char char_debug ch = (if ch = 0 then [CHR 39, CHR 92, CHR ''0'', CHR 39] else char_debug ch)"

definition char_str :: "u32 \<Rightarrow> string" where
  "char_str ch = map (\<lambda>b. char_of (unat b)) (utf8_enc ch)"

fun error_fmt :: "(u32 \<Rightarrow> string) \<Rightarrow> error_kind \<Rightarrow> string" where
  "error_fmt dbg Empty = ''empty string, expected a semver version''"
| "error_fmt dbg (UnexpectedEnd pos) =
     ''unexpected end of input while parsing '' @ position_fmt pos"
| "error_fmt dbg (UnexpectedChar pos ch) =
     ''unexpected character '' @ quoted_char dbg ch @ '' while parsing '' @ position_fmt pos"
| "error_fmt dbg (UnexpectedCharAfter pos ch) =
     ''unexpected character '' @ quoted_char dbg ch @ '' after '' @ position_fmt pos"
| "error_fmt dbg (ExpectedCommaFound pos ch) =
     ''expected comma after '' @ position_fmt pos @ '', found '' @ quoted_char dbg ch"
| "error_fmt dbg (LeadingZero pos) = ''invalid leading zero in '' @ position_fmt pos"
| "error_fmt dbg (Overflow pos) = ''value of '' @ position_fmt pos @ '' exceeds u64::MAX''"
| "error_fmt dbg (EmptySegment pos) = ''empty identifier segment in '' @ position_fmt pos"
| "error_fmt dbg (IllegalCharacter pos) = ''unexpected character in '' @ position_fmt pos"
| "error_fmt dbg (WildcardNotTheOnlyComparator ch) =
     ''wildcard req ('' @ char_str ch @
     '') must be the only comparator in the version req''"
| "error_fmt dbg UnexpectedAfterWildcard =
     ''unexpected character after wildcard in version req''"
| "error_fmt dbg ExcessiveComparators = ''excessive number of version comparators''"

section \<open>Lengths\<close>

lemma digits_length: "digits w = length (show_word w)"
proof (induction w rule: digits.induct)
  case (1 w)
  show ?case
  proof (cases "w < 10")
    case True
    then show ?thesis
      by (simp add: digits.simps [of w] show_word_def show_nat.simps [of "unat w"] word_less_nat_alt)
  next
    case False
    with 1 show ?thesis
      by (simp add: digits.simps [of w] show_word_def show_nat.simps [of "unat w"] word_less_nat_alt
          unat_div_distrib)
  qed
qed

lemma version_do_len_exact: "version_do_len v = length (version_do_display v)"
  by (simp add: version_do_len_def version_do_display_def digits_length pre_is_empty_def
      build_is_empty_def)

lemma length_fill: "length f = 1 \<Longrightarrow> length (concat (replicate n f)) = n"
  by (induction n) auto

section \<open>Round trips\<close>

text \<open>Versions and comparators whose identifiers the parser would accept.\<close>

definition version_ok :: "version \<Rightarrow> bool" where
  "version_ok v \<longleftrightarrow> ident_ok Pre (pre_str (v_pre v)) \<and> ident_ok Build (build_str (v_build v))"

lemma is_digit_simps [simp]:
  "\<not> is_digit CHR ''-''" "\<not> is_digit CHR ''+''" "\<not> is_digit CHR '',''" "\<not> is_digit CHR '' ''"
  "\<not> is_digit CHR ''*''"
  by (simp_all add: is_digit_def)

lemma no_digit_next_simps [simp]:
  "no_digit_next []" "no_digit_next (c # s) \<longleftrightarrow> \<not> is_digit c"
  by (simp_all add: no_digit_next_def)

lemma no_ident_next_simps [simp]:
  "no_ident_next []" "no_ident_next (CHR ''+'' # s)" "no_ident_next (CHR '','' # s)"
  "no_ident_next (CHR '' '' # s)"
  by (simp_all add: no_ident_next_def is_ident_char_def is_letter_def)

lemma strip_prefix_simps [simp]:
  "strip_prefix c [] = None" "strip_prefix c (x # xs) = (if x = c then Some xs else None)"
  by (simp_all add: strip_prefix_def)

lemma first_char_None [simp]: "first_char s = None \<longleftrightarrow> s = []" "first_char [] = None"
  by (simp_all add: first_char_def split: option.splits)

lemma dot_simp [simp]: "dot (CHR ''.'' # s) pos = Inr s"
  by (simp add: dot_def)

lemma prerelease_accepts:
  "ident_ok Pre s \<Longrightarrow> no_ident_next rest \<Longrightarrow> prerelease_identifier (s @ rest) = Inr (Prerelease s, rest)"
  by (simp add: prerelease_identifier_def identifier_accepts)

lemma build_accepts:
  "ident_ok Build s \<Longrightarrow> no_ident_next rest \<Longrightarrow> build_identifier (s @ rest) = Inr (BuildMetadata s, rest)"
  by (simp add: build_identifier_def identifier_accepts)

lemmas accepts_end = numeric_accepts [of "[]", simplified] prerelease_accepts [of _ "[]", simplified]
  build_accepts [of _ "[]", simplified]

lemma show_word_nonempty [simp]: "show_word w \<noteq> []"
  by (simp add: show_word_def)

lemma version_parse_display:
  assumes "version_ok v"
  shows "version_from_str (version_do_display v) = Inr v"
proof -
  obtain a b c p m where v: "v = Version a b c (Prerelease p) (BuildMetadata m)"
    by (metis build_metadata.exhaust prerelease.exhaust version.exhaust)
  from assms have ok: "ident_ok Pre p" "ident_ok Build m" by (simp_all add: version_ok_def v)
  show ?thesis
    using ok
    by (cases "p = []"; cases "m = []")
      (simp_all add: version_from_str_def version_pre_def version_build_def version_do_display_def v numeric_accepts accepts_end
        prerelease_accepts build_accepts pre_is_empty_def build_is_empty_def version_new_def
        pre_EMPTY_def build_EMPTY_def Let_def)
qed

lemma version_pre_sound:
  "version_pre pos s = Inr (pos', pre, rest) \<Longrightarrow>
   s = (if pre_is_empty pre then [] else ''-'' @ pre_str pre) @ rest \<and> ident_ok Pre (pre_str pre)"
  by (auto simp: version_pre_def strip_prefix_Some and_then_Inr prerelease_identifier_def
      pre_is_empty_def pre_EMPTY_def ident_ok_def [of _ "[]"] Let_def dest: identifier_sound
      split: option.splits if_splits)

lemma version_build_sound:
  "version_build pos s = Inr (pos', build, rest) \<Longrightarrow>
   s = (if build_is_empty build then [] else ''+'' @ build_str build) @ rest \<and>
   ident_ok Build (build_str build)"
  by (auto simp: version_build_def strip_prefix_Some and_then_Inr build_identifier_def
      build_is_empty_def build_EMPTY_def ident_ok_def [of _ "[]"] Let_def dest: identifier_sound
      split: option.splits if_splits)

lemma dot_Inr: "dot s pos = Inr t \<longleftrightarrow> s = CHR ''.'' # t"
  by (auto simp: dot_def strip_prefix_Some split: option.splits)

lemma version_display_parse:
  assumes "version_from_str s = Inr v"
  shows "version_do_display v = s \<and> version_ok v"
proof -
  obtain a t1 b t3 c t5 where
    n: "numeric_identifier s Major = Inr (a, CHR ''.'' # t1)"
      "numeric_identifier t1 Minor = Inr (b, CHR ''.'' # t3)"
      "numeric_identifier t3 Patch = Inr (c, t5)"
    and r: "t5 = [] \<and> v = version_new a b c \<or>
      (\<exists>pos pre t6 pos' build. version_pre Patch t5 = Inr (pos, pre, t6) \<and>
        version_build pos t6 = Inr (pos', build, []) \<and> v = Version a b c pre build)"
    using assms
    by (force simp: version_from_str_def and_then_Inr Let_def dot_Inr split: if_splits option.splits)
  have s: "s = show_word a @ ''.'' @ show_word b @ ''.'' @ show_word c @ t5"
    using numeric_sound [OF n(1)] numeric_sound [OF n(2)] numeric_sound [OF n(3)] by simp
  from r show ?thesis
  proof (elim disjE exE conjE)
    assume "t5 = []" "v = version_new a b c"
    then show ?thesis
      by (simp add: s version_do_display_def version_new_def version_ok_def ident_ok_def
          pre_is_empty_def build_is_empty_def pre_EMPTY_def build_EMPTY_def)
  next
    fix pos pre t6 pos' build
    assume "version_pre Patch t5 = Inr (pos, pre, t6)" "version_build pos t6 = Inr (pos', build, [])"
      and v: "v = Version a b c pre build"
    from version_pre_sound [OF this(1)] version_build_sound [OF this(2)] show ?thesis
      by (simp add: s v version_do_display_def version_ok_def)
  qed
qed

text \<open>Comparators the parser can produce, written with their operator.\<close>

definition comparator_ok :: "comparator \<Rightarrow> bool" where
  "comparator_ok c \<longleftrightarrow> ident_ok Pre (pre_str (c_pre c)) \<and>
     (c_minor c = None \<longrightarrow> c_patch c = None) \<and> (c_patch c = None \<longrightarrow> pre_is_empty (c_pre c)) \<and>
     (c_op c = Wildcard \<longrightarrow> c_patch c = None)"

definition comma_or_end :: "string \<Rightarrow> bool" where
  "comma_or_end s \<longleftrightarrow> s = [] \<or> hd s = CHR '',''"

lemma show_word_Cons: "\<exists>d ds. show_word w = d # ds \<and> is_digit d"
  using show_nat_digits [of "unat w"]
  by (cases "show_nat (unat w)") (auto simp: show_word_def)

lemma digit_chars:
  "is_digit d \<Longrightarrow> d \<noteq> CHR ''='' \<and> d \<noteq> CHR ''>'' \<and> d \<noteq> CHR ''<'' \<and> d \<noteq> CHR ''~'' \<and>
     d \<noteq> CHR ''^'' \<and> d \<noteq> CHR '' '' \<and> d \<noteq> CHR ''*'' \<and> d \<noteq> CHR ''x'' \<and> d \<noteq> CHR ''X''"
  by (auto simp: is_digit_def)

lemma starts_with_simps [simp]:
  "starts_with c (x # xs) = (x = c)" "\<not> starts_with c []"
  by (auto simp: starts_with_def)

lemma parse_op_str:
  "parse_op (op_str op @ show_word w @ r) = (if op = Wildcard then Caret else op, show_word w @ r)"
  using show_word_Cons [of w] by (cases op) (auto simp: parse_op_def op_DEFAULT_def dest: digit_chars)

lemma parse_op_word: "parse_op (show_word w @ r) = (Caret, show_word w @ r)"
  using parse_op_str [of Wildcard] by simp

lemma trim_show_word [simp]: "trim_start CHR '' '' (show_word w @ r) = show_word w @ r"
  using show_word_Cons [of w] by (auto simp: trim_start_def dest: digit_chars)

lemma wildcard_show_word [simp]: "wildcard (show_word w @ r) = None"
  using show_word_Cons [of w] by (auto simp: wildcard_def dest: digit_chars)

lemma wildcard_star [simp]: "wildcard (CHR ''*'' # r) = Some (42, r)"
  by (simp add: wildcard_def)

lemma comparator_parse_fmt:
  assumes "comparator_ok c" and "comma_or_end rest"
  shows "\<exists>pos. parse_comparator (comparator_fmt c @ rest) = Inr (c, pos, rest)"
proof -
  obtain op a mi pa p where c: "c = \<lparr>c_op = op, c_major = a, c_minor = mi, c_patch = pa,
      c_pre = Prerelease p\<rparr>"
    by (metis comparator.surjective old.unit.exhaust prerelease.exhaust)
  have r: "no_digit_next rest" "no_ident_next rest" "strip_prefix CHR ''.'' rest = None"
    "\<not> starts_with CHR ''-'' rest" "\<not> starts_with CHR ''+'' rest" "trim_start CHR '' '' rest = rest"
    using assms(2) by (cases rest; auto simp: comma_or_end_def trim_start_def)+
  note defs = parse_comparator_def comparator_fmt_def c comparator_minor_def comparator_patch_def
    comparator_pre_def comparator_build_def numeric_accepts r Let_def parse_op_str parse_op_word
  show ?thesis
  proof (cases mi)
    case None
    with assms(1) show ?thesis
      by (cases "op = Wildcard")
        (auto simp: defs comparator_ok_def pre_is_empty_def pre_EMPTY_def prerelease.expand)
  next
    case (Some m)
    note mi = this
    show ?thesis
    proof (cases pa)
      case None
      with assms(1) mi show ?thesis
        by (cases "op = Wildcard")
          (auto simp: defs comparator_ok_def pre_is_empty_def pre_EMPTY_def)
    next
      case (Some k)
      with assms(1) mi show ?thesis
        by (cases "p = []")
          (auto simp: defs comparator_ok_def pre_is_empty_def pre_EMPTY_def prerelease_accepts)
    qed
  qed
qed

section \<open>Requirements\<close>

fun req_text :: "comparator list \<Rightarrow> string" where
  "req_text [] = []"
| "req_text (c # cs) = comparator_fmt c @ (if cs = [] then [] else '', '' @ req_text cs)"

lemma req_loop_Suc: "req_loop (Suc i) cs = (if cs = [] then [] else '', '' @ req_text cs)"
  by (induction cs arbitrary: i) auto

lemma req_loop_text: "req_loop 0 cs = req_text cs"
  by (cases cs) (auto simp: req_loop_Suc)

lemma comparator_fmt_start:
  "\<exists>x xs. comparator_fmt c = x # xs \<and> x \<noteq> CHR '' '' \<and> x \<noteq> CHR ''*'' \<and> x \<noteq> CHR ''x'' \<and> x \<noteq> CHR ''X''"
proof -
  obtain d ds where d: "show_word (c_major c) = d # ds" "is_digit d"
    using show_word_Cons by blast
  then show ?thesis using digit_chars [OF d(2)] by (cases "c_op c") (simp_all add: comparator_fmt_def d(1))
qed

lemma comparator_fmt_trim [simp]: "trim_start CHR '' '' (comparator_fmt c @ r) = comparator_fmt c @ r"
  using comparator_fmt_start [of c] by (auto simp: trim_start_def)

lemma comparator_fmt_wildcard [simp]: "wildcard (comparator_fmt c @ r) = None"
  using comparator_fmt_start [of c] by (auto simp: wildcard_def)

lemma req_text_trim [simp]: "cs \<noteq> [] \<Longrightarrow> trim_start CHR '' '' (req_text cs) = req_text cs"
  by (cases cs) auto

lemma fill_cell: "(replicate (Suc d) None @ xs)[d := y] = replicate d None @ y # xs"
  by (induction d) auto

lemma reserve_last: "(reserve_exact (Suc d) [])[d := x] = replicate d None @ [x]"
  using fill_cell [of d "[]" x] by (simp only: reserve_exact_def append_Nil append_Nil2 length_0_conv list.size diff_zero)

lemma version_req_accepts:
  "list_all comparator_ok cs \<Longrightarrow> cs \<noteq> [] \<Longrightarrow> depth < MAX_COMPARATORS \<Longrightarrow>
   version_req (req_text cs) [] depth =
     (if depth + length cs \<le> MAX_COMPARATORS
      then Inr (depth + length cs, replicate depth None @ map Some cs)
      else Inl ExcessiveComparators)"
proof (induction cs arbitrary: depth)
  case (Cons c cs)
  let ?rest = "if cs = [] then [] else '', '' @ req_text cs"
  have ok: "comparator_ok c" using Cons.prems(1) by simp
  have "comma_or_end ?rest" by (simp add: comma_or_end_def)
  from comparator_parse_fmt [OF ok this] obtain pos
    where p: "parse_comparator (comparator_fmt c @ ?rest) = Inr (c, pos, ?rest)" by blast
  show ?case
  proof (cases "cs = []")
    case True
    with p Cons.prems(3) show ?thesis
      by (subst version_req.simps) (simp add: reserve_last)
  next
    case False
    have t: "trim_start CHR '' '' ('' '' @ req_text cs) = req_text cs"
      using False req_text_trim [OF False] by (simp add: trim_start_def)
    show ?thesis
    proof (cases "depth + 1 = MAX_COMPARATORS")
      case True
      with p False t show ?thesis by (subst version_req.simps) (cases cs, auto simp: Let_def)
    next
      case nlast: False
      have IH: "version_req (req_text cs) [] (Suc depth) =
          (if Suc depth + length cs \<le> MAX_COMPARATORS
           then Inr (Suc depth + length cs, replicate (Suc depth) None @ map Some cs)
           else Inl ExcessiveComparators)"
        by (rule Cons.IH) (use Cons.prems False nlast in auto)
      have r: "(replicate (Suc depth) None @ map Some cs)[depth := Some c] =
          replicate depth None @ map Some (c # cs)"
        using fill_cell [of depth "map Some cs" "Some c"] by (simp only: list.map)
      from p False t nlast show ?thesis
        by (subst version_req.simps)
          (simp add: Let_def IH r del: replicate_Suc list_update.simps list.map)
    qed
  qed
qed simp

definition req_ok :: "version_req \<Rightarrow> bool" where
  "req_ok r \<longleftrightarrow> list_all comparator_ok (comparators r) \<and> length (comparators r) \<le> MAX_COMPARATORS"

lemma req_parse_fmt: "req_ok r \<Longrightarrow> req_from_str (req_fmt r) = Inr r"
proof (cases "comparators r")
  case Nil
  then show ?thesis
    by (simp add: req_fmt_def req_from_str_def trim_start_def wildcard_def STAR_def Let_def)
next
  case (Cons c cs)
  assume ok: "req_ok r"
  have w: "wildcard (req_text (c # cs)) = None" by simp
  have "version_req (req_text (c # cs)) [] 0 = Inr (length (c # cs), map Some (c # cs))"
    using version_req_accepts [of "c # cs" 0] ok
    by (simp add: req_ok_def Cons MAX_COMPARATORS_def del: req_text.simps)
  then show ?thesis
    using Cons w req_text_trim [of "c # cs"]
    by (cases r) (simp add: req_fmt_def req_loop_text req_from_str_def comp_def
        del: req_text.simps req_loop.simps)
qed

section \<open>What the parser produces\<close>

lemma comparator_minor_sound:
  "comparator_minor d op pos s = Inr (op', pos', w, m, rest) \<Longrightarrow>
   (w \<longrightarrow> m = None) \<and> (m \<noteq> None \<longrightarrow> op' = op) \<and> (m = None \<and> \<not> w \<longrightarrow> op' = op \<and> rest = s \<and> strip_prefix CHR ''.'' s = None)"
  by (auto simp: comparator_minor_def and_then_Inr Let_def split: option.splits)

lemma comparator_patch_sound:
  "comparator_patch d w op pos s = Inr (op', pos', k, rest) \<Longrightarrow>
   (w \<longrightarrow> k = None) \<and> (strip_prefix CHR ''.'' s = None \<longrightarrow> k = None) \<and> (k \<noteq> None \<longrightarrow> op' = op)"
  by (auto simp: comparator_patch_def and_then_Inr Let_def split: option.splits if_splits)

lemma comparator_pre_sound:
  "comparator_pre k pos s = Inr (pos', p, rest) \<Longrightarrow>
   ident_ok Pre (pre_str p) \<and> (k = None \<longrightarrow> pre_is_empty p)"
  by (auto simp: comparator_pre_def and_then_Inr Let_def prerelease_identifier_def pre_EMPTY_def
      pre_is_empty_def ident_ok_def [of _ "[]"] dest: identifier_sound split: if_splits)

lemma parse_op_not_wildcard: "fst (parse_op s) \<noteq> Wildcard"
  by (simp add: parse_op_def op_DEFAULT_def)

lemma comparator_produces:
  assumes "parse_comparator s = Inr (c, pos, rest)"
  shows "comparator_ok c"
proof -
  obtain op t0 where op: "parse_op s = (op, t0)" by force
  have nw: "op \<noteq> Wildcard" using parse_op_not_wildcard [of s] op by simp
  from assms obtain a t1 op2 p2 w m t2 op3 p3 k t3 p4 p t4 p5 t5 where
    m: "comparator_minor (length s = length t0) op Major t1 = Inr (op2, p2, w, m, t2)"
    and k: "comparator_patch (length s = length t0) w op2 p2 t2 = Inr (op3, p3, k, t3)"
    and e: "comparator_pre k p3 t3 = Inr (p4, p, t4)"
    and c: "c = \<lparr>c_op = op3, c_major = a, c_minor = m, c_patch = k, c_pre = p\<rparr>"
    by (auto simp: parse_comparator_def op and_then_Inr Let_def)
  show ?thesis
    using comparator_minor_sound [OF m] comparator_patch_sound [OF k] comparator_pre_sound [OF e] nw
    by (auto simp: comparator_ok_def c)
qed

lemma version_req_produces:
  "version_req s [] depth = Inr (len, cells) \<Longrightarrow> depth < MAX_COMPARATORS \<Longrightarrow>
   \<exists>cs. cs \<noteq> [] \<and> list_all comparator_ok cs \<and> len = depth + length cs \<and> len \<le> MAX_COMPARATORS \<and>
     cells = replicate depth None @ map Some cs"
proof (induction s "[] :: comparator option list" depth arbitrary: len cells rule: version_req.induct)
  case (1 s depth)
  obtain c pos t where p: "parse_comparator s = Inr (c, pos, t)"
    using "1.prems"(1) by (subst (asm) version_req.simps) (auto split: sum.splits)
  note ok = comparator_produces [OF p]
  show ?case
  proof (cases "t = []")
    case True
    with "1.prems" p show ?thesis
      by (subst (asm) version_req.simps, intro exI [of _ "[c]"])
        (auto simp: ok reserve_last)
  next
    case False
    with "1.prems"(1) p obtain t' cells' where
      t: "strip_prefix CHR '','' t = Some t'" "depth + 1 \<noteq> MAX_COMPARATORS"
      and r: "version_req (trim_start CHR '' '' t') [] (depth + 1) = Inr (len, cells')"
      and cells: "cells = cells'[depth := Some c]"
      by (subst (asm) version_req.simps) (auto simp: Let_def split: option.splits if_splits sum.splits)
    obtain cs where cs: "cs \<noteq> []" "list_all comparator_ok cs" "len = depth + 1 + length cs"
      "len \<le> MAX_COMPARATORS" "cells' = replicate (depth + 1) None @ map Some cs"
      using "1.hyps" [OF p _ _ False t(1) refl t(2) r] "1.prems"(2) t(2) by fastforce
    then show ?thesis
      using fill_cell [of depth "map Some cs" "Some c"]
      by (intro exI [of _ "c # cs"]) (simp add: ok cells del: replicate_Suc list_update.simps)
  qed
qed

lemma req_produces:
  assumes "req_from_str s = Inr r"
  shows "req_ok r"
proof (cases "wildcard (trim_start CHR '' '' s)")
  case None
  with assms obtain len cells where v: "version_req (trim_start CHR '' '' s) [] 0 = Inr (len, cells)"
    and r: "r = \<lparr>comparators = map the (take len cells)\<rparr>"
    by (auto simp: req_from_str_def and_then_Inr)
  from version_req_produces [OF v] r show ?thesis
    by (auto simp: req_ok_def MAX_COMPARATORS_def comp_def)
next
  case (Some p)
  with assms show ?thesis
    by (auto simp: req_from_str_def Let_def STAR_def req_ok_def split: if_splits prod.splits)
qed

section \<open>Properties\<close>

text \<open>
  C7. Parsing and printing of versions are inverse to each other: a text is accepted with
  result \<open>v\<close> exactly when \<open>v\<close> has well-formed identifiers and the text is its printed
  form. In particular every other spelling (leading zeros, spaces, numbers beyond \<open>u64\<close>,
  empty or ill-formed segments, trailing text) is rejected.
\<close>

theorem version_parse_iff:
  "version_from_str s = Inr v \<longleftrightarrow> version_ok v \<and> s = version_fmt fmt_default v"
  using version_parse_display [of v] version_display_parse [of s v]
  by (auto simp: version_fmt_def pad_def fmt_default_def)

text \<open>
  C17. What the parsers produce and what survives printing and parsing are the same things: a
  requirement is the answer to some text exactly when printing and parsing it gives it back, and
  both exactly when it has at most 32 comparators, each with a valid pre-release identifier, a
  patch number only after a minor one, a pre-release only after a patch and no complete wildcard.
  The same holds of a single comparator.
\<close>

theorem req_round_trip:
  "(req_from_str (req_fmt r) = Inr r \<longleftrightarrow> req_ok r) \<and>
   ((\<exists>s. req_from_str s = Inr r) \<longleftrightarrow> req_ok r) \<and>
   (comparator_from_str (comparator_fmt c) = Inr c \<longleftrightarrow> comparator_ok c) \<and>
   ((\<exists>s. comparator_from_str s = Inr c) \<longleftrightarrow> comparator_ok c)"
proof -
  have c: "comparator_from_str (comparator_fmt c) = Inr c" if "comparator_ok c"
    using comparator_parse_fmt [OF that, of "[]"] comparator_fmt_trim [of c "[]"]
    by (auto simp: comparator_from_str_def comma_or_end_def Let_def)
  have p: "comparator_ok c" if "comparator_from_str s = Inr c" for s
    using that comparator_produces
    by (auto simp: comparator_from_str_def and_then_Inr Let_def split: if_splits)
  have r: "(req_from_str (req_fmt r) = Inr r \<longleftrightarrow> req_ok r) \<and> ((\<exists>s. req_from_str s = Inr r) \<longleftrightarrow> req_ok r)"
    using req_parse_fmt req_produces by blast
  show ?thesis using r c p by blast
qed

text \<open>
  C23. The recursion that collects comparators leaves no uninitialised cell behind and is
  bounded: a list of \<open>n\<close> printed comparators gives a buffer of exactly \<open>n\<close> written
  cells when \<open>n\<close> is at most 32, and the error \<open>ExcessiveComparators\<close> otherwise.
\<close>

theorem comparators_bounded:
  assumes "list_all comparator_ok cs" and "cs \<noteq> []"
  shows "version_req (req_fmt \<lparr>comparators = cs\<rparr>) [] 0 =
    (if length cs \<le> 32 then Inr (length cs, map Some cs) else Inl ExcessiveComparators)"
  using version_req_accepts [OF assms, of 0] assms(2)
  by (simp add: req_fmt_def req_loop_text MAX_COMPARATORS_def del: req_loop.simps)

theorem comparators_bounded_witness:
  "version_req (req_fmt \<lparr>comparators = replicate 33
      \<lparr>c_op = Exact, c_major = 1, c_minor = None, c_patch = None, c_pre = pre_EMPTY\<rparr>\<rparr>) [] 0
   = Inl ExcessiveComparators"
  by (subst comparators_bounded)
    (auto simp: list_all_iff comparator_ok_def pre_EMPTY_def ident_ok_def pre_is_empty_def)

text \<open>
  Padding: with a one-byte fill character the printed version is as long as the longer of
  the version and the requested width, and it contains the unpadded form; the length the padding
  is computed from is the length of what is printed.
\<close>

theorem version_padding:
  assumes "length (fmt_fill f) = 1"
  shows "version_do_len v = length (version_do_display v) \<and>
    length (version_fmt f v) =
      max (length (version_do_display v)) (case fmt_width f of None \<Rightarrow> 0 | Some w \<Rightarrow> w) \<and>
    (\<exists>xs ys. version_fmt f v = xs @ version_do_display v @ ys)"
proof -
  have "\<exists>i j. version_fmt f v = concat (replicate i (fmt_fill f)) @ version_do_display v @
        concat (replicate j (fmt_fill f)) \<and>
      i + j + length (version_do_display v) =
        max (length (version_do_display v)) (case fmt_width f of None \<Rightarrow> 0 | Some w \<Rightarrow> w)"
  proof (cases "fmt_width f")
    case None
    then show ?thesis
      by (intro exI [of _ 0]) (simp add: version_fmt_def pad_def)
  next
    case (Some w)
    define len where "len = length (version_do_display v)"
    define n where "n = w - len"
    show ?thesis
    proof (cases "w \<le> len")
      case True
      with Some show ?thesis
        by (intro exI [of _ 0]) (simp add: version_fmt_def pad_def version_do_len_exact len_def max_def)
    next
      case False
      define i where "i = (case fmt_align f of None \<Rightarrow> 0 | Some Left \<Rightarrow> 0 | Some Right \<Rightarrow> n
        | Some Center \<Rightarrow> n div 2)"
      have i: "i \<le> n" by (auto simp: i_def split: option.splits alignment.splits)
      have "version_fmt f v = concat (replicate i (fmt_fill f)) @ version_do_display v @
          concat (replicate (n - i) (fmt_fill f))"
      proof -
        have half: "Suc n div 2 = n - n div 2" by presburger
        have l: "version_do_len v = len" by (simp add: version_do_len_exact len_def)
        show ?thesis
          using False Some half
          by (auto simp: version_fmt_def pad_def l n_def [symmetric] i_def Let_def
              split: option.splits alignment.splits)
      qed
      moreover have "i + (n - i) + len = max len w" using i False by (simp add: n_def max_def)
      ultimately show ?thesis using Some by (auto simp: len_def)
    qed
  qed
  then show ?thesis
    using length_fill [OF assms] version_do_len_exact by (force simp: add.assoc)
qed

theorem version_padding_witness:
  "version_fmt (fmt_default\<lparr>fmt_width := Some 8, fmt_align := Some Center\<rparr>) (version_new 1 2 3)
     = '' 1.2.3  '' \<and>
   length (version_fmt (fmt_default\<lparr>fmt_width := Some 8, fmt_align := Some Center\<rparr>)
     (version_new 1 2 3)) = 8"
proof -
  let ?f = "fmt_default\<lparr>fmt_width := Some 8, fmt_align := Some Center\<rparr>"
  have d: "version_do_display (version_new 1 2 3) = ''1.2.3''" by code_simp
  have "length (version_fmt ?f (version_new 1 2 3)) = 8"
    using version_padding [of ?f "version_new 1 2 3"] by (simp add: fmt_default_def d)
  moreover have "version_fmt ?f (version_new 1 2 3) = '' 1.2.3  ''"
    by code_simp
  ultimately show ?thesis by blast
qed

end
