(* ===== verification/Semver_Eval.thy ===== *)
theory Semver_Eval
  imports Semver_Display
begin

text \<open>
  Matching versions against requirements (\<open>src/eval.rs\<close> of \<open>semver-1.0.26\<close>), and the
  specification the crate documents for it: every operator on a partial version is an
  abbreviation of full comparisons, listed on \<open>Op\<close> in \<open>src/lib.rs\<close>.
\<close>

section \<open>Matching\<close>

definition matches_exact :: "comparator \<Rightarrow> version \<Rightarrow> bool" where
  "matches_exact cmp ver =
     (if v_major ver \<noteq> c_major cmp then False
      else if (case c_minor cmp of Some minor \<Rightarrow> v_minor ver \<noteq> minor | None \<Rightarrow> False) then False
      else if (case c_patch cmp of Some patch \<Rightarrow> v_patch ver \<noteq> patch | None \<Rightarrow> False) then False
      else v_pre ver = c_pre cmp)"

definition matches_greater :: "comparator \<Rightarrow> version \<Rightarrow> bool" where
  "matches_greater cmp ver =
     (if v_major ver \<noteq> c_major cmp then v_major ver > c_major cmp
      else case c_minor cmp of
        None \<Rightarrow> False
      | Some minor \<Rightarrow>
          if v_minor ver \<noteq> minor then v_minor ver > minor
          else (case c_patch cmp of
              None \<Rightarrow> False
            | Some patch \<Rightarrow>
                if v_patch ver \<noteq> patch then v_patch ver > patch
                else v_pre ver > c_pre cmp))"

definition matches_less :: "comparator \<Rightarrow> version \<Rightarrow> bool" where
  "matches_less cmp ver =
     (if v_major ver \<noteq> c_major cmp then v_major ver < c_major cmp
      else case c_minor cmp of
        None \<Rightarrow> False
      | Some minor \<Rightarrow>
          if v_minor ver \<noteq> minor then v_minor ver < minor
          else (case c_patch cmp of
              None \<Rightarrow> False
            | Some patch \<Rightarrow>
                if v_patch ver \<noteq> patch then v_patch ver < patch
                else v_pre ver < c_pre cmp))"

definition matches_tilde :: "comparator \<Rightarrow> version \<Rightarrow> bool" where
  "matches_tilde cmp ver =
     (if v_major ver \<noteq> c_major cmp then False
      else if (case c_minor cmp of Some minor \<Rightarrow> v_minor ver \<noteq> minor | None \<Rightarrow> False) then False
      else case c_patch cmp of
          Some patch \<Rightarrow>
            if v_patch ver \<noteq> patch then v_patch ver > patch else v_pre ver \<ge> c_pre cmp
        | None \<Rightarrow> v_pre ver \<ge> c_pre cmp)"

definition matches_caret :: "comparator \<Rightarrow> version \<Rightarrow> bool" where
  "matches_caret cmp ver =
     (if v_major ver \<noteq> c_major cmp then False
      else case c_minor cmp of
        None \<Rightarrow> True
      | Some minor \<Rightarrow>
        (case c_patch cmp of
          None \<Rightarrow> if c_major cmp > 0 then v_minor ver \<ge> minor else v_minor ver = minor
        | Some patch \<Rightarrow>
            if c_major cmp > 0 then
              if v_minor ver \<noteq> minor then v_minor ver > minor
              else if v_patch ver \<noteq> patch then v_patch ver > patch
              else v_pre ver \<ge> c_pre cmp
            else if minor > 0 then
              if v_minor ver \<noteq> minor then False
              else if v_patch ver \<noteq> patch then v_patch ver > patch
              else v_pre ver \<ge> c_pre cmp
            else if v_minor ver \<noteq> minor \<or> v_patch ver \<noteq> patch then False
            else v_pre ver \<ge> c_pre cmp))"

definition pre_is_compatible :: "comparator \<Rightarrow> version \<Rightarrow> bool" where
  "pre_is_compatible cmp ver \<longleftrightarrow>
     c_major cmp = v_major ver \<and> c_minor cmp = Some (v_minor ver) \<and>
     c_patch cmp = Some (v_patch ver) \<and> \<not> pre_is_empty (c_pre cmp)"

definition matches_impl :: "comparator \<Rightarrow> version \<Rightarrow> bool" where
  "matches_impl cmp ver =
     (case c_op cmp of
        Exact \<Rightarrow> matches_exact cmp ver
      | Wildcard \<Rightarrow> matches_exact cmp ver
      | Op_Greater \<Rightarrow> matches_greater cmp ver
      | GreaterEq \<Rightarrow> matches_exact cmp ver \<or> matches_greater cmp ver
      | Op_Less \<Rightarrow> matches_less cmp ver
      | LessEq \<Rightarrow> matches_exact cmp ver \<or> matches_less cmp ver
      | Tilde \<Rightarrow> matches_tilde cmp ver
      | Caret \<Rightarrow> matches_caret cmp ver)"

text \<open>The two loops of \<open>matches_req\<close>.\<close>

fun all_match :: "comparator list \<Rightarrow> version \<Rightarrow> bool" where
  "all_match [] ver = True"
| "all_match (cmp # cmps) ver = (if \<not> matches_impl cmp ver then False else all_match cmps ver)"

fun any_compatible :: "comparator list \<Rightarrow> version \<Rightarrow> bool" where
  "any_compatible [] ver = False"
| "any_compatible (cmp # cmps) ver =
     (if pre_is_compatible cmp ver then True else any_compatible cmps ver)"

definition matches_req :: "version_req \<Rightarrow> version \<Rightarrow> bool" where
  "matches_req req ver =
     (if \<not> all_match (comparators req) ver then False
      else if pre_is_empty (v_pre ver) then True
      else any_compatible (comparators req) ver)"

definition matches_comparator :: "comparator \<Rightarrow> version \<Rightarrow> bool" where
  "matches_comparator cmp ver \<longleftrightarrow>
     matches_impl cmp ver \<and> (pre_is_empty (v_pre ver) \<or> pre_is_compatible cmp ver)"

section \<open>The documented meaning\<close>

text \<open>
  Full comparators, with all three numbers: \<open>=\<close>, \<open>>\<close>, \<open>>=\<close>, \<open><\<close> and
  \<open><=\<close> on versions by precedence (build metadata does not count).
\<close>

definition full :: "op \<Rightarrow> u64 \<Rightarrow> u64 \<Rightarrow> u64 \<Rightarrow> prerelease \<Rightarrow> comparator" where
  "full op a b c p = \<lparr>c_op = op, c_major = a, c_minor = Some b, c_patch = Some c, c_pre = p\<rparr>"

definition release :: "op \<Rightarrow> u64 \<Rightarrow> u64 \<Rightarrow> u64 \<Rightarrow> comparator" where
  "release op a b c = full op a b c pre_EMPTY"

fun precedence_holds :: "op \<Rightarrow> ordering \<Rightarrow> bool" where
  "precedence_holds Exact o1 = (o1 = Equal)"
| "precedence_holds Op_Greater o1 = (o1 = Greater)"
| "precedence_holds GreaterEq o1 = (o1 \<noteq> Less)"
| "precedence_holds Op_Less o1 = (o1 = Less)"
| "precedence_holds LessEq o1 = (o1 \<noteq> Greater)"
| "precedence_holds _ o1 = False"

text \<open>The table of \<open>Op\<close>: what each comparator abbreviates.\<close>

definition expand :: "comparator \<Rightarrow> comparator list" where
  "expand c =
     (let a = c_major c;
          series = (\<lambda>a. [release GreaterEq a 0 0, release Op_Less (a + 1) 0 0]);
          minor_series = (\<lambda>a b. [release GreaterEq a b 0, release Op_Less a (b + 1) 0])
      in case (c_minor c, c_patch c) of
        (Some b, Some k) \<Rightarrow>
          (case c_op c of
             Tilde \<Rightarrow> [full GreaterEq a b k (c_pre c), release Op_Less a (b + 1) 0]
           | Caret \<Rightarrow>
               if a > 0 then [full GreaterEq a b k (c_pre c), release Op_Less (a + 1) 0 0]
               else if b > 0 then [full GreaterEq a b k (c_pre c), release Op_Less a (b + 1) 0]
               else [full Exact a b k (c_pre c)]
           | Wildcard \<Rightarrow> [full Exact a b k (c_pre c)]
           | op \<Rightarrow> [full op a b k (c_pre c)])
      | (Some b, None) \<Rightarrow>
          (case c_op c of
             Exact \<Rightarrow> minor_series a b
           | Op_Greater \<Rightarrow> [release GreaterEq a (b + 1) 0]
           | GreaterEq \<Rightarrow> [release GreaterEq a b 0]
           | Op_Less \<Rightarrow> [release Op_Less a b 0]
           | LessEq \<Rightarrow> [release Op_Less a (b + 1) 0]
           | Tilde \<Rightarrow> minor_series a b
           | Caret \<Rightarrow>
               if a > 0 then [release GreaterEq a b 0, release Op_Less (a + 1) 0 0]
               else minor_series a b
           | Wildcard \<Rightarrow> minor_series a b)
      | (None, _) \<Rightarrow>
          (case c_op c of
             Op_Greater \<Rightarrow> [release GreaterEq (a + 1) 0 0]
           | GreaterEq \<Rightarrow> [release GreaterEq a 0 0]
           | Op_Less \<Rightarrow> [release Op_Less a 0 0]
           | LessEq \<Rightarrow> [release Op_Less (a + 1) 0 0]
           | _ \<Rightarrow> series a))"

text \<open>
  The one row the code does not follow: \<open>^0.0.K\<close> with a pre-release.
\<close>

definition zero_caret :: "comparator \<Rightarrow> bool" where
  "zero_caret c \<longleftrightarrow> c_op c = Caret \<and> c_major c = 0 \<and> c_minor c = Some 0 \<and> c_patch c \<noteq> None \<and>
     c_pre c \<noteq> pre_EMPTY"

text \<open>The successors the table speaks of exist.\<close>

definition bumpable :: "comparator \<Rightarrow> bool" where
  "bumpable c \<longleftrightarrow> c_major c < - 1 \<and>
     (\<forall>b. c_minor c = Some b \<longrightarrow> b < - 1) \<and> (\<forall>k. c_patch c = Some k \<longrightarrow> k < - 1)"

lemma all_match_iff: "all_match cs v \<longleftrightarrow> list_all (\<lambda>c. matches_impl c v) cs"
  by (induction cs) auto

lemma any_compatible_iff: "any_compatible cs v \<longleftrightarrow> list_ex (\<lambda>c. pre_is_compatible c v) cs"
  by (induction cs) auto

lemma pre_cmp_ord: "pre_cmp a b = ord_cmp a b"
  using pre_ord.cmp_Equal [of a b] pre_ord.cmp_rev [of b a]
  by (cases "pre_cmp a b") (auto simp: ord_cmp_def less_prerelease_def)

lemma pre_key_EMPTY: "pre_is_empty p \<longleftrightarrow> p = pre_EMPTY"
  by (cases p) (simp add: pre_is_empty_def pre_EMPTY_def)

lemma pre_empty_max [simp]: "p \<le> pre_EMPTY" "\<not> pre_EMPTY < p" "p < pre_EMPTY \<longleftrightarrow> p \<noteq> pre_EMPTY"
proof -
  show le: "p \<le> pre_EMPTY"
    by (cases "p = pre_EMPTY")
      (auto simp: less_eq_prerelease_def pre_cmp_def prerelease_cmp_def pre_key_EMPTY)
  then show "\<not> pre_EMPTY < p" "p < pre_EMPTY \<longleftrightarrow> p \<noteq> pre_EMPTY" by auto
qed

text \<open>A full comparator is the comparison by precedence with the version it names.\<close>

lemma full_matches:
  assumes "op \<in> {Exact, Op_Greater, GreaterEq, Op_Less, LessEq}"
  shows "matches_impl (full op a b c p) v =
    precedence_holds op (cmp_precedence v (Version a b c p m))"
  using assms
  by (auto simp: matches_impl_def full_def matches_exact_def matches_greater_def matches_less_def
      cmp_precedence_def ord_cmp_def pre_cmp_ord split: if_splits)

lemma release_matches:
  "matches_impl (release Exact a b c) v \<longleftrightarrow>
     v_major v = a \<and> v_minor v = b \<and> v_patch v = c \<and> v_pre v = pre_EMPTY"
  "matches_impl (release GreaterEq a b c) v \<longleftrightarrow> v_major v > a \<or> v_major v = a \<and>
     (v_minor v > b \<or> v_minor v = b \<and> (v_patch v > c \<or> v_patch v = c \<and> v_pre v = pre_EMPTY))"
  "matches_impl (release Op_Less a b c) v \<longleftrightarrow> v_major v < a \<or> v_major v = a \<and>
     (v_minor v < b \<or> v_minor v = b \<and> (v_patch v < c \<or> v_patch v = c \<and> v_pre v \<noteq> pre_EMPTY))"
  by (auto simp: matches_impl_def release_def full_def matches_exact_def matches_greater_def
      matches_less_def)

lemma release_not_compatible [simp]: "\<not> pre_is_compatible (release op a b c) v"
  by (simp add: pre_is_compatible_def release_def full_def pre_key_EMPTY)

lemma full_compatible [simp]:
  "pre_is_compatible (full op a b c p) v \<longleftrightarrow>
     a = v_major v \<and> b = v_minor v \<and> c = v_patch v \<and> p \<noteq> pre_EMPTY"
  by (auto simp: pre_is_compatible_def full_def pre_key_EMPTY)

lemma word_bump:
  assumes "a < (- 1 :: u64)"
  shows "x < a + 1 \<longleftrightarrow> x \<le> a" "a + 1 \<le> x \<longleftrightarrow> a < x" "a < a + 1"
    "a + 1 < x \<longleftrightarrow> a < x \<and> x \<noteq> a + 1"
proof -
  have "unat (- 1 :: u64) = 2 ^ 64 - 1"
    by (simp add: unsigned_minus_1_eq_mask mask_eq_exp_minus_1)
  then have "unat a + 1 < 2 ^ 64" using assms by (simp add: word_less_nat_alt)
  then have s: "unat (a + 1) = unat a + 1" by (simp add: unat_word_ariths)
  show "x < a + 1 \<longleftrightarrow> x \<le> a" "a + 1 \<le> x \<longleftrightarrow> a < x" "a < a + 1"
    by (simp_all add: word_less_nat_alt word_le_nat_alt s less_Suc_eq_le Suc_le_eq)
  then show "a + 1 < x \<longleftrightarrow> a < x \<and> x \<noteq> a + 1" by (auto simp: order_less_le)
qed

section \<open>The table of abbreviations\<close>

lemma single_release:
  "pre_is_empty (v_pre v) \<Longrightarrow> matches_req \<lparr>comparators = cs\<rparr> v = list_all (\<lambda>c. matches_impl c v) cs"
  by (simp add: matches_req_def all_match_iff)

lemma single_prerelease:
  "\<not> pre_is_empty (v_pre v) \<Longrightarrow> matches_req \<lparr>comparators = cs\<rparr> v =
    (list_all (\<lambda>c. matches_impl c v) cs \<and> list_ex (\<lambda>c. pre_is_compatible c v) cs)"
  by (simp add: matches_req_def all_match_iff any_compatible_iff)

lemma partial_not_compatible:
  "c_patch c = None \<Longrightarrow> \<not> pre_is_compatible c v"
  by (simp add: pre_is_compatible_def)

lemma expand_partial_not_compatible:
  "c_patch c = None \<Longrightarrow> \<not> list_ex (\<lambda>c. pre_is_compatible c v) (expand c)"
  by (cases "c_op c"; cases "c_minor c") (auto simp: expand_def Let_def)

text \<open>On a release the table holds by comparing the three numbers.\<close>

lemma expand_release_partial:
  assumes "comparator_ok c" "bumpable c" "c_patch c = None" "v_pre v = pre_EMPTY"
  shows "matches_impl c v = list_all (\<lambda>c. matches_impl c v) (expand c)"
proof -
  have p: "c_pre c = pre_EMPTY" using assms(1,3) by (simp add: comparator_ok_def pre_key_EMPTY)
  have a: "c_major c < - 1" using assms(2) by (simp add: bumpable_def)
  show ?thesis
  proof (cases "c_minor c")
    case None
    then show ?thesis
      by (cases "c_op c")
        (auto simp: expand_def Let_def assms(3,4) p release_matches word_bump [OF a] matches_impl_def [of c]
          matches_exact_def [of c] matches_greater_def [of c] matches_less_def [of c]
          matches_tilde_def [of c] matches_caret_def [of c]
          word_gt_0)
  next
    case (Some b)
    with assms(2) have b: "b < - 1" by (simp add: bumpable_def)
    show ?thesis
      by (cases "c_op c")
        (auto simp: expand_def Let_def Some assms(3,4) p release_matches word_bump [OF a]
          word_bump [OF b] matches_impl_def [of c] matches_exact_def [of c]
          matches_greater_def [of c] matches_less_def [of c] matches_tilde_def [of c]
          matches_caret_def [of c] word_gt_0)
  qed
qed

lemma full_impl:
  "matches_impl (full Exact a b c p) v \<longleftrightarrow>
     v_major v = a \<and> v_minor v = b \<and> v_patch v = c \<and> v_pre v = p"
  "matches_impl (full GreaterEq a b c p) v \<longleftrightarrow> v_major v > a \<or> v_major v = a \<and>
     (v_minor v > b \<or> v_minor v = b \<and> (v_patch v > c \<or> v_patch v = c \<and> v_pre v \<ge> p))"
  by (auto simp: matches_impl_def full_def matches_exact_def matches_greater_def)

lemma basic_expand:
  assumes "c_minor c = Some b" "c_patch c = Some k" "c_op c \<in> {Exact, Op_Greater, GreaterEq, Op_Less, LessEq}"
  shows "expand c = [c]"
proof -
  have "full (c_op c) (c_major c) b k (c_pre c) = c" using assms by (cases c) (simp add: full_def)
  with assms show ?thesis by (auto simp: expand_def Let_def)
qed

lemma expand_full:
  assumes "bumpable c" "c_minor c = Some b" "c_patch c = Some k" "c_op c \<noteq> Wildcard"
    and "v_pre v = pre_EMPTY \<or> pre_is_compatible c v" and "\<not> zero_caret c"
  shows "matches_impl c v = list_all (\<lambda>c. matches_impl c v) (expand c)"
proof -
  have s: "c_major c < - 1" "b < - 1" "k < - 1" using assms(1-3) by (simp_all add: bumpable_def)
  note bump = word_bump [OF s(1)] word_bump [OF s(2)] word_bump [OF s(3)]
  have cases: "v_pre v = pre_EMPTY \<or>
      v_major v = c_major c \<and> v_minor v = b \<and> v_patch v = k \<and> c_pre c \<noteq> pre_EMPTY"
    using assms(2,3,5) by (auto simp: pre_is_compatible_def pre_key_EMPTY)
  show ?thesis
  proof (cases "c_op c \<in> {Exact, Op_Greater, GreaterEq, Op_Less, LessEq}")
    case True
    then show ?thesis using basic_expand [OF assms(2,3)] by simp
  next
    case False
    with assms(4) consider "c_op c = Tilde" | "c_op c = Caret" by (cases "c_op c") auto
    then show ?thesis
    proof cases
      case 1
      with cases show ?thesis
        by (auto simp: expand_def Let_def assms(2,3) full_impl release_matches bump
            matches_impl_def [of c] matches_tilde_def [of c])
    next
      case 2
      with cases assms(6) show ?thesis
        by (auto simp: expand_def Let_def assms(2,3) full_impl release_matches bump zero_caret_def
            matches_impl_def [of c] matches_caret_def [of c] pre_key_EMPTY word_gt_0)
    qed
  qed
qed

lemma expand_compatible:
  assumes "comparator_ok c"
  shows "list_ex (\<lambda>c. pre_is_compatible c v) (expand c) \<longleftrightarrow> pre_is_compatible c v"
proof (cases "c_patch c")
  case None
  then show ?thesis using expand_partial_not_compatible partial_not_compatible by simp
next
  case (Some k)
  with assms obtain b where b: "c_minor c = Some b" and w: "c_op c \<noteq> Wildcard"
    by (auto simp: comparator_ok_def)
  show ?thesis
  proof (cases "c_op c \<in> {Exact, Op_Greater, GreaterEq, Op_Less, LessEq}")
    case True
    then show ?thesis using basic_expand [OF b Some] by simp
  next
    case False
    with w consider "c_op c = Tilde" | "c_op c = Caret" by (cases "c_op c") auto
    then show ?thesis
      by cases (auto simp: expand_def Let_def b Some pre_is_compatible_def [of c] pre_key_EMPTY)
  qed
qed

lemma expand_release:
  assumes "comparator_ok c" "bumpable c" "\<not> zero_caret c" "v_pre v = pre_EMPTY"
  shows "matches_impl c v = list_all (\<lambda>c. matches_impl c v) (expand c)"
proof (cases "c_patch c")
  case None
  with assms show ?thesis by (intro expand_release_partial) auto
next
  case (Some k)
  with assms(1) obtain b where "c_minor c = Some b" "c_op c \<noteq> Wildcard"
    by (auto simp: comparator_ok_def)
  with assms Some show ?thesis by (intro expand_full) auto
qed

lemma expand_single:
  assumes "comparator_ok c" and "bumpable c" and "\<not> zero_caret c"
  shows "matches_req \<lparr>comparators = [c]\<rparr> v = matches_req \<lparr>comparators = expand c\<rparr> v"
proof (cases "pre_is_empty (v_pre v)")
  case True
  then have e: "v_pre v = pre_EMPTY" by (simp add: pre_key_EMPTY)
  with assms have "matches_impl c v = list_all (\<lambda>c. matches_impl c v) (expand c)"
    by (intro expand_release) auto
  with True show ?thesis by (simp add: single_release)
next
  case False
  have "matches_impl c v = list_all (\<lambda>c. matches_impl c v) (expand c)" if c: "pre_is_compatible c v"
  proof -
    from c obtain k where k: "c_patch c = Some k" by (auto simp: pre_is_compatible_def)
    with assms(1) obtain b where "c_minor c = Some b" "c_op c \<noteq> Wildcard"
      by (auto simp: comparator_ok_def)
    with assms(2,3) k c show ?thesis by (intro expand_full) auto
  qed
  with False show ?thesis by (auto simp: single_prerelease expand_compatible [OF assms(1)])
qed

text \<open>What the code does for \<open>^0.0.K-pre\<close>: \<open>>=0.0.K-pre, <0.0.(K+1)\<close>.\<close>

lemma zero_caret_single:
  assumes "zero_caret c" "bumpable c" "c_patch c = Some k"
  shows "matches_req \<lparr>comparators = [c]\<rparr> v =
    matches_req \<lparr>comparators = [full GreaterEq 0 0 k (c_pre c), release Op_Less 0 0 (k + 1)]\<rparr> v"
proof -
  have k: "k < - 1" using assms(2,3) by (simp add: bumpable_def)
  have c: "c_op c = Caret" "c_major c = 0" "c_minor c = Some 0" "c_pre c \<noteq> pre_EMPTY"
    using assms(1) by (auto simp: zero_caret_def)
  have i: "matches_impl c v \<longleftrightarrow> v_major v = 0 \<and> v_minor v = 0 \<and> v_patch v = k \<and> v_pre v \<ge> c_pre c"
    by (auto simp: matches_impl_def matches_caret_def c assms(3))
  have l: "matches_impl (release Op_Less 0 0 (k + 1)) v \<longleftrightarrow> v_major v = 0 \<and> v_minor v = 0 \<and>
      (v_patch v \<le> k \<or> v_patch v = k + 1 \<and> v_pre v \<noteq> pre_EMPTY)"
    by (auto simp: release_matches word_bump [OF k] word_gt_0)
  have p: "pre_is_compatible c v \<longleftrightarrow> 0 = v_major v \<and> 0 = v_minor v \<and> k = v_patch v"
    using c assms(3) by (auto simp: pre_is_compatible_def pre_key_EMPTY)
  show ?thesis
  proof (cases "pre_is_empty (v_pre v)")
    case True
    then show ?thesis by (auto simp: single_release i l full_impl pre_key_EMPTY)
  next
    case False
    then show ?thesis using c(4) by (auto simp: single_prerelease i l p full_impl)
  qed
qed

lemma zero_caret_differs:
  assumes "zero_caret c" "c_patch c = Some k"
  shows "matches_req \<lparr>comparators = [c]\<rparr> (version_new 0 0 k)"
    and "\<not> matches_req \<lparr>comparators = expand c\<rparr> (version_new 0 0 k)"
proof -
  have c: "c_op c = Caret" "c_major c = 0" "c_minor c = Some 0" "c_pre c \<noteq> pre_EMPTY"
    using assms(1) by (auto simp: zero_caret_def)
  have e: "pre_is_empty (v_pre (version_new 0 0 k))"
    by (simp add: version_new_def pre_key_EMPTY)
  show "matches_req \<lparr>comparators = [c]\<rparr> (version_new 0 0 k)"
    by (simp add: single_release [OF e] matches_impl_def matches_caret_def c assms(2))
      (simp add: version_new_def)
  have x: "expand c = [full Exact 0 0 k (c_pre c)]"
    by (simp add: expand_def c assms(2))
  show "\<not> matches_req \<lparr>comparators = expand c\<rparr> (version_new 0 0 k)"
    unfolding x single_release [OF e] using c(4) by (simp add: full_impl) (simp add: version_new_def)
qed

section \<open>Properties\<close>

text \<open>
  C8. Matching implements the table the crate documents on its operators, but for one row. For
  every comparator the parser can produce (and whose numbers have a successor), matching it alone,
  as a comparator or as the requirement made of it, is matching the comparisons on full versions
  the table lists for it, for releases and pre-releases alike, unless it is \<open>^0.0.K\<close> with a
  pre-release. There the table says \<open>=0.0.K-pre\<close> and the code matches
  \<open>>=0.0.K-pre, <0.0.(K+1)\<close>; the release \<open>0.0.K\<close> is a version on which the two differ.
\<close>

theorem op_table:
  assumes "comparator_ok c" and "bumpable c"
  shows "matches_comparator c v = matches_req \<lparr>comparators = [c]\<rparr> v \<and>
    (\<not> zero_caret c \<longrightarrow>
      matches_req \<lparr>comparators = [c]\<rparr> v = matches_req \<lparr>comparators = expand c\<rparr> v) \<and>
    (\<forall>k. zero_caret c \<and> c_patch c = Some k \<longrightarrow>
      matches_req \<lparr>comparators = [c]\<rparr> v =
        matches_req \<lparr>comparators = [full GreaterEq 0 0 k (c_pre c), release Op_Less 0 0 (k + 1)]\<rparr> v \<and>
      matches_req \<lparr>comparators = [c]\<rparr> (version_new 0 0 k) \<and>
      \<not> matches_req \<lparr>comparators = expand c\<rparr> (version_new 0 0 k))"
proof -
  have "matches_comparator c v = matches_req \<lparr>comparators = [c]\<rparr> v"
    by (simp add: matches_comparator_def matches_req_def)
  then show ?thesis
    using expand_single [OF assms] zero_caret_single [OF _ assms(2)] zero_caret_differs by blast
qed

definition caret_0_2 :: comparator where
  "caret_0_2 = \<lparr>c_op = Caret, c_major = 0, c_minor = Some 2, c_patch = None, c_pre = pre_EMPTY\<rparr>"

theorem op_table_witness:
  "matches_comparator caret_0_2 (version_new 0 2 7) = matches_req \<lparr>comparators =
     [release GreaterEq 0 2 0, release Op_Less 0 3 0]\<rparr> (version_new 0 2 7)"
proof -
  have "comparator_ok caret_0_2"
    by (simp add: caret_0_2_def comparator_ok_def pre_EMPTY_def ident_ok_def pre_is_empty_def)
  moreover have "bumpable caret_0_2"
    by (simp add: caret_0_2_def bumpable_def word_less_nat_alt unsigned_minus_1_eq_mask
        mask_eq_exp_minus_1)
  moreover have "expand caret_0_2 = [release GreaterEq 0 2 0, release Op_Less 0 3 0]"
    by (simp add: caret_0_2_def expand_def)
  moreover have "\<not> zero_caret caret_0_2" by (simp add: zero_caret_def caret_0_2_def)
  ultimately show ?thesis using op_table [of caret_0_2 "version_new 0 2 7"] by simp
qed

text \<open>
  C18. A comparator with all three numbers and one of the operators \<open>=\<close>, \<open>>\<close>, \<open>>=\<close>, \<open><\<close>, \<open><=\<close>
  matches a release exactly when the comparison by precedence that its operator names holds, and a pre-release exactly when moreover the comparator
  names a pre-release of the same three numbers. A requirement matches a version exactly when all
  its comparators do by themselves and, for a pre-release, at least one of them, wherever it stands
  in the list, has the same three numbers and a pre-release. The requirement \<open>*\<close> is \<open>>=0.0.0\<close>.
\<close>

theorem full_comparators:
  assumes "op \<in> {Exact, Op_Greater, GreaterEq, Op_Less, LessEq}"
  shows "(matches_impl (full op a b c p) v \<longleftrightarrow>
      precedence_holds op (cmp_precedence v (Version a b c p m))) \<and>
    (matches_comparator (full op a b c p) v \<longleftrightarrow>
      precedence_holds op (cmp_precedence v (Version a b c p m)) \<and>
      (v_pre v = pre_EMPTY \<or>
       v_major v = a \<and> v_minor v = b \<and> v_patch v = c \<and> p \<noteq> pre_EMPTY)) \<and>
    (matches_req r v \<longleftrightarrow>
      (\<forall>cmp \<in> set (comparators r). matches_impl cmp v) \<and>
      (v_pre v = pre_EMPTY \<or>
       (\<exists>cmp \<in> set (comparators r). c_major cmp = v_major v \<and> c_minor cmp = Some (v_minor v) \<and>
          c_patch cmp = Some (v_patch v) \<and> c_pre cmp \<noteq> pre_EMPTY))) \<and>
    matches_req STAR v = matches_req \<lparr>comparators = [release GreaterEq 0 0 0]\<rparr> v"
proof -
  have impl: "matches_impl (full op a b c p) v \<longleftrightarrow>
      precedence_holds op (cmp_precedence v (Version a b c p m))"
    by (rule full_matches [OF assms])
  then have "matches_comparator (full op a b c p) v \<longleftrightarrow>
      precedence_holds op (cmp_precedence v (Version a b c p m)) \<and>
      (v_pre v = pre_EMPTY \<or>
       v_major v = a \<and> v_minor v = b \<and> v_patch v = c \<and> p \<noteq> pre_EMPTY)"
    by (auto simp: matches_comparator_def pre_key_EMPTY)
  moreover have "matches_req r v \<longleftrightarrow>
      (\<forall>cmp \<in> set (comparators r). matches_impl cmp v) \<and>
      (v_pre v = pre_EMPTY \<or>
       (\<exists>cmp \<in> set (comparators r). c_major cmp = v_major v \<and> c_minor cmp = Some (v_minor v) \<and>
          c_patch cmp = Some (v_patch v) \<and> c_pre cmp \<noteq> pre_EMPTY))"
    by (auto simp: matches_req_def all_match_iff any_compatible_iff list_all_iff list_ex_iff
        pre_key_EMPTY pre_is_compatible_def)
  moreover have "matches_req STAR v = matches_req \<lparr>comparators = [release GreaterEq 0 0 0]\<rparr> v"
    by (cases "v_pre v = pre_EMPTY")
      (auto simp: matches_req_def STAR_def release_matches pre_key_EMPTY word_gt_0)
  ultimately show ?thesis using impl by blast
qed

theorem full_comparators_witness:
  "matches_comparator (full GreaterEq 1 2 3 pre_EMPTY) (version_new 1 10 0)"
  using full_comparators [of GreaterEq 1 2 3 pre_EMPTY "version_new 1 10 0" build_EMPTY]
  by (simp add: cmp_precedence_def version_new_def ord_cmp_def)

text \<open>
  C40. How far the table carries into longer requirements. On releases a requirement means
  the same when every comparator is replaced by what the table lists for it (comparators the parser
  can produce, whose numbers have a successor, and none of them \<open>^0.0.K-pre\<close>). On pre-releases
  it cannot: for all \<open>I\<close>, \<open>J\<close> and every non-empty pre-release \<open>pre\<close>, \<open><I.J\<close> is documented as
  \<open><I.J.0\<close>, yet \<open>=I.J.0-pre, <I.J\<close> refuses the version \<open>I.J.0-pre\<close> and \<open>=I.J.0-pre, <I.J.0\<close>
  accepts it.
\<close>

theorem op_table_not_compositional:
  assumes "p \<noteq> pre_EMPTY"
    and "\<forall>c \<in> set cs. comparator_ok c \<and> bumpable c \<and> \<not> zero_caret c"
  shows "(\<forall>v. v_pre v = pre_EMPTY \<longrightarrow>
      matches_req \<lparr>comparators = cs\<rparr> v =
        matches_req \<lparr>comparators = concat (map expand cs)\<rparr> v) \<and>
    (let exact = full Exact I J 0 p;
         below = \<lparr>c_op = Op_Less, c_major = I, c_minor = Some J, c_patch = None, c_pre = pre_EMPTY\<rparr>;
         v = Version I J 0 p b
     in expand below = [release Op_Less I J 0] \<and>
       \<not> matches_req \<lparr>comparators = [exact, below]\<rparr> v \<and>
       matches_req \<lparr>comparators = [exact, release Op_Less I J 0]\<rparr> v)"
proof -
  have "list_all (\<lambda>c. matches_impl c v) cs =
      list_all (\<lambda>c. matches_impl c v) (concat (map expand cs))"
    if "v_pre v = pre_EMPTY" for v
    using assms(2) by (induction cs) (simp_all add: expand_release [OF _ _ _ that])
  moreover have "matches_req \<lparr>comparators = cs\<rparr> v = list_all (\<lambda>c. matches_impl c v) cs"
    if "v_pre v = pre_EMPTY" for v cs
    using that by (simp add: single_release pre_key_EMPTY)
  moreover have "\<not> matches_impl
      \<lparr>c_op = Op_Less, c_major = I, c_minor = Some J, c_patch = None, c_pre = pre_EMPTY\<rparr>
      (Version I J 0 p b)"
    by (simp add: matches_impl_def matches_less_def)
  moreover have "expand
      \<lparr>c_op = Op_Less, c_major = I, c_minor = Some J, c_patch = None, c_pre = pre_EMPTY\<rparr> =
      [release Op_Less I J 0]"
    by (simp add: expand_def)
  ultimately show ?thesis
    using assms(1)
    by (simp add: matches_req_def Let_def full_impl release_matches pre_key_EMPTY)
qed

text \<open>For instance \<open>=1.2.0-alpha, <1.2\<close> and the version \<open>1.2.0-alpha\<close>.\<close>

theorem op_table_not_compositional_witness:
  "\<not> matches_req \<lparr>comparators = [full Exact 1 2 0 (Prerelease ''alpha''),
       \<lparr>c_op = Op_Less, c_major = 1, c_minor = Some 2, c_patch = None, c_pre = pre_EMPTY\<rparr>]\<rparr>
     (Version 1 2 0 (Prerelease ''alpha'') build_EMPTY)"
  using op_table_not_compositional [of "Prerelease ''alpha''" "[]" 1 2 build_EMPTY]
  by (simp add: Let_def pre_EMPTY_def)

end
