(* ===== verification/Semver_Identifier.thy ===== *)
theory Semver_Identifier
  imports Semver_Types "HOL-Library.Log_Nat" "HOL-Library.Monad_Syntax"
begin

text \<open>
  The packed representation behind \<open>Prerelease\<close> and \<open>BuildMetadata\<close>
  (\<open>src/identifier.rs\<close> of \<open>semver-1.0.26\<close>) on a 64-bit little-endian target: one 64-bit
  word that is all ones for the empty text, holds up to eight ASCII bytes itself, or is a
  rotated pointer to an allocation with a base-128 length in front of the bytes. The allocator
  is a parameter; the heap maps the base of each live allocation to its cells, of which the
  unwritten ones are \<open>None\<close>. A function answers \<open>None\<close> where the code aborts or would read
  or free memory it does not own.
\<close>

section \<open>Memory\<close>

type_synonym heap = "u64 \<Rightarrow> u8 option list option"

type_synonym allocator = "nat \<Rightarrow> heap \<Rightarrow> u64"

text \<open>
  What \<open>alloc\<close> promises for a non-zero size and alignment 2: null, or an even address of an
  allocation of its own that does not wrap around the address space.
\<close>

definition alloc_ok :: "allocator \<Rightarrow> bool" where
  "alloc_ok alloc \<longleftrightarrow> (\<forall>size h. size > 0 \<longrightarrow> alloc size h \<noteq> 0 \<longrightarrow>
     h (alloc size h) = None \<and> even (alloc size h) \<and> unat (alloc size h) + size \<le> 2 ^ 64)"

definition bytes_of :: "string \<Rightarrow> u8 list" where
  "bytes_of s = map of_char s"

definition str_of :: "u8 list \<Rightarrow> string" where
  "str_of bs = map (\<lambda>b. char_of (unat b)) bs"

text \<open>The bytes of a word, least significant first.\<close>

fun le_word :: "u8 list \<Rightarrow> u64" where
  "le_word [] = 0"
| "le_word (b # bs) = cast b + push_bit 8 (le_word bs)"

fun le_bytes :: "nat \<Rightarrow> u64 \<Rightarrow> u8 list" where
  "le_bytes 0 w = []"
| "le_bytes (Suc n) w = cast w # le_bytes n (drop_bit 8 w)"

definition leading_zeros :: "u64 \<Rightarrow> nat" where
  "leading_zeros w = 64 - floorlog 2 (unat w)"

section \<open>Operations\<close>

definition ident_empty :: u64 where
  "ident_empty = NOT 0"

definition ident_is_empty :: "u64 \<Rightarrow> bool" where
  "ident_is_empty repr = (repr = ident_empty)"

definition is_inline :: "u64 \<Rightarrow> bool" where
  "is_inline repr = (drop_bit 63 repr = 0)"

definition is_empty_or_inline :: "u64 \<Rightarrow> bool" where
  "is_empty_or_inline repr = (ident_is_empty repr \<or> is_inline repr)"

definition ptr_to_repr :: "u64 \<Rightarrow> u64" where
  "ptr_to_repr original =
     (let modified = word_rotr 1 (original OR 1);
          diff = modified - original
      in original + diff)"

definition repr_to_ptr :: "u64 \<Rightarrow> u64" where
  "repr_to_ptr modified =
     (let original = push_bit 1 modified;
          diff = original - modified
      in modified + diff)"

definition bytes_for_varint :: "u64 \<Rightarrow> nat" where
  "bytes_for_varint len =
     (let usize_bits = 64;
          len_bits = usize_bits - leading_zeros len
      in (len_bits + 6) div 7)"

text \<open>The loop that writes the header: cell \<open>write\<close> of the allocation gets the next digit.\<close>

function write_varint :: "u64 \<Rightarrow> nat \<Rightarrow> u8 option list \<Rightarrow> nat \<times> u8 option list" where
  "write_varint varint_remaining write cells =
     (if varint_remaining > 0
      then write_varint (drop_bit 7 varint_remaining) (write + 1)
             (cells[write := Some (cast varint_remaining OR 0x80)])
      else (write, cells))"
  by pat_completeness auto

lemma unat_shift7: "unat (drop_bit 7 (w :: u64)) = unat w div 128"
  by (simp add: unat_drop_bit)

termination write_varint
proof (relation "measure (\<lambda>(w, _, _). unat w)")
  fix w :: u64 and p :: nat and cells :: "u8 option list"
  assume "0 < w"
  then have "0 < unat w" by (simp add: word_less_nat_alt)
  then show "((drop_bit 7 w, p + 1, cells[p := Some (cast w OR 0x80)]), (w, p, cells))
      \<in> measure (\<lambda>(w, _, _). unat w)"
    by (simp add: unat_shift7)
qed simp

declare write_varint.simps [simp del]

definition new_unchecked :: "allocator \<Rightarrow> string \<Rightarrow> heap \<Rightarrow> (u64 \<times> heap) option" where
  "new_unchecked alloc s h =
     (let len = length s in
      if len = 0 then Some (ident_empty, h)
      else if len \<le> 8 then
        let bytes = blit (bytes_of s) 0 (replicate 8 0) in Some (le_word bytes, h)
      else if len \<le> 0xffffffffffffff then
        let size = bytes_for_varint (of_nat len) + len;
            ptr = alloc size h
        in if ptr = 0 then None
           else
             let cells = replicate size None;
                 (write, cells) = write_varint (of_nat len) 0 cells;
                 cells = blit (map Some (bytes_of s)) write cells
             in Some (ptr_to_repr ptr, h(ptr \<mapsto> cells))
      else None)"

text \<open>The varint reader: each cell read has to exist and to be written.\<close>

fun read_cell :: "u8 option list \<Rightarrow> nat \<Rightarrow> u8 option" where
  "read_cell [] i = None"
| "read_cell (c # cs) 0 = c"
| "read_cell (c # cs) (Suc i) = read_cell cs i"

fun decode_len_cold :: "u8 option list \<Rightarrow> u64 \<Rightarrow> nat \<Rightarrow> u64 option" where
  "decode_len_cold [] len shift = None"
| "decode_len_cold (None # cells) len shift = None"
| "decode_len_cold (Some byte # cells) len shift =
     (if byte < 0x80 then Some len
      else decode_len_cold cells (len + push_bit shift (cast (byte AND 0x7f))) (shift + 7))"

definition decode_len :: "u8 option list \<Rightarrow> u64 option" where
  "decode_len cells =
     (case (read_cell cells 0, read_cell cells 1) of
        (Some first, Some second) \<Rightarrow>
          if second < 0x80 then Some (cast (first AND 0x7f)) else decode_len_cold cells 0 0
      | _ \<Rightarrow> None)"

definition inline_len :: "u64 \<Rightarrow> nat" where
  "inline_len repr =
     (let zero_bits_on_string_end = leading_zeros repr in 8 - zero_bits_on_string_end div 8)"

definition inline_as_str :: "u64 \<Rightarrow> string" where
  "inline_as_str repr = str_of (le_bytes (inline_len repr) repr)"

definition ptr_as_str :: "heap \<Rightarrow> u64 \<Rightarrow> string option" where
  "ptr_as_str h repr =
     do { cells \<leftarrow> h (repr_to_ptr repr);
          len \<leftarrow> decode_len cells;
          let header = bytes_for_varint len;
          if header + unat len \<le> length cells
          then map_option str_of (those (take (unat len) (drop header cells)))
          else None }"

definition ident_as_str :: "heap \<Rightarrow> u64 \<Rightarrow> string option" where
  "ident_as_str h repr =
     (if ident_is_empty repr then Some []
      else if is_inline repr then Some (inline_as_str repr)
      else ptr_as_str h repr)"

definition ident_clone :: "allocator \<Rightarrow> heap \<Rightarrow> u64 \<Rightarrow> (u64 \<times> heap) option" where
  "ident_clone alloc h repr =
     (if is_empty_or_inline repr then Some (repr, h)
      else
        do { cells \<leftarrow> h (repr_to_ptr repr);
             len \<leftarrow> decode_len cells;
             let size = bytes_for_varint len + unat len;
             let clone = alloc size h;
             if clone = 0 \<or> length cells < size then None
             else Some (ptr_to_repr clone, h(clone \<mapsto> take size cells)) })"

text \<open>\<open>dealloc\<close> has to be given the layout of the allocation.\<close>

definition ident_drop :: "heap \<Rightarrow> u64 \<Rightarrow> heap option" where
  "ident_drop h repr =
     (if is_empty_or_inline repr then Some h
      else
        do { cells \<leftarrow> h (repr_to_ptr repr);
             len \<leftarrow> decode_len cells;
             let size = bytes_for_varint len + unat len;
             if length cells = size then Some (h(repr_to_ptr repr := None)) else None })"

definition ident_eq :: "heap \<Rightarrow> u64 \<Rightarrow> u64 \<Rightarrow> bool option" where
  "ident_eq h a b =
     (if a = b then Some True
      else if is_empty_or_inline a \<or> is_empty_or_inline b then Some False
      else
        do { s \<leftarrow> ptr_as_str h a;
             t \<leftarrow> ptr_as_str h b;
             Some (s = t) })"

section \<open>The inline form\<close>

lemma unat_cast_u8: "unat (cast (w :: u64) :: u8) = unat w mod 256"
  by (simp add: unsigned_ucast_eq take_bit_eq_mod [where 'a = nat])

lemma unat_cast_u64: "unat (cast (b :: u8) :: u64) = unat b"
  using unat_bound [of b]
  by (simp add: unsigned_ucast_eq take_bit_eq_mod [where 'a = nat])

lemma le_word_bound:
  "length bs \<le> 8 \<Longrightarrow> unat (le_word bs) < 256 ^ length bs \<and>
    (\<forall>b cs. bs = b # cs \<longrightarrow> unat (le_word bs) = unat b + 256 * unat (le_word cs))"
proof (induction bs)
  case (Cons b bs)
  have lt: "unat (le_word bs) < 256 ^ length bs" using Cons by simp
  have "(256 :: nat) ^ length bs \<le> 256 ^ 7" using Cons.prems by (intro power_increasing) simp_all
  with lt have small: "unat (le_word bs) * 256 < 2 ^ 64 - 255" by simp
  have p: "unat (push_bit 8 (le_word bs)) = unat (le_word bs) * 256"
    using small by (simp add: push_bit_eq_mult unat_word_ariths)
  have "unat (le_word (b # bs)) = unat b + 256 * unat (le_word bs)"
    using small unat_bound [of b] p by (simp add: unat_word_ariths unat_cast_u64)
  moreover have "unat b + 256 * unat (le_word bs) < 256 ^ length (b # bs)"
    using lt unat_bound [of b] by simp
  ultimately show ?case by simp
qed simp

lemma unat_le_word_Cons:
  "length bs < 8 \<Longrightarrow> unat (le_word (b # bs)) = unat b + 256 * unat (le_word bs)"
  using le_word_bound [of "b # bs"] by simp

lemma le_bytes_word:
  "n \<le> length bs \<Longrightarrow> length bs \<le> 8 \<Longrightarrow> le_bytes n (le_word bs) = take n bs"
proof (induction n arbitrary: bs)
  case (Suc n)
  then obtain b cs where bs: "bs = b # cs" by (cases bs) auto
  have u: "unat (le_word bs) = unat b + 256 * unat (le_word cs)"
    using unat_le_word_Cons [of cs b] Suc.prems by (simp add: bs)
  have "unat (cast (le_word bs) :: u8) = unat b"
    using unat_bound [of b] by (simp add: unat_cast_u8 u)
  then have "(cast (le_word bs) :: u8) = b" by (simp add: unsigned_word_eqI)
  moreover have "unat (drop_bit 8 (le_word bs)) = unat (le_word cs)"
    using unat_bound [of b] by (simp add: unat_drop_bit u)
  then have "drop_bit 8 (le_word bs) = le_word cs" by (rule unsigned_word_eqI)
  ultimately show ?case using Suc by (simp add: bs)
qed simp

lemma le_word_lower:
  "length bs \<le> 8 \<Longrightarrow> bs \<noteq> [] \<Longrightarrow> unat (last bs) * 256 ^ (length bs - 1) \<le> unat (le_word bs) \<and>
    unat (le_word bs) < (unat (last bs) + 1) * 256 ^ (length bs - 1)"
proof (induction bs)
  case (Cons b bs)
  show ?case
  proof (cases "bs = []")
    case True
    then show ?thesis using unat_cast_u64 [of b] by simp
  next
    case False
    let ?l = "unat (last bs)" and ?k = "length bs - 1"
    have IH: "?l * 256 ^ ?k \<le> unat (le_word bs)" "unat (le_word bs) < (?l + 1) * 256 ^ ?k"
      using Cons False by simp_all
    have k: "length (b # bs) - 1 = Suc ?k" using False by (cases bs) auto
    have u: "unat (le_word (b # bs)) = unat b + 256 * unat (le_word bs)"
      using unat_le_word_Cons [of bs b] Cons.prems by simp
    have "unat (le_word bs) + 1 \<le> (?l + 1) * 256 ^ ?k" using IH(2) by simp
    then have "256 * unat (le_word bs) + 256 \<le> 256 * ((?l + 1) * 256 ^ ?k)" by linarith
    then have "unat (le_word (b # bs)) < 256 * ((?l + 1) * 256 ^ ?k)"
      using u unat_bound [of b] by simp
    moreover have "256 * (?l * 256 ^ ?k) \<le> unat (le_word (b # bs))"
      using u IH(1) by simp
    moreover have "(256 :: nat) ^ length bs = 256 * 256 ^ ?k"
      using False by (cases bs) simp_all
    ultimately show ?thesis
      using False k by (simp only: list.size last.simps if_False) (simp add: algebra_simps del: le_word.simps)
  qed
qed simp

lemma le_word_pad: "le_word (bs @ replicate k 0) = le_word bs"
proof (induction bs)
  case Nil
  show ?case by (induction k) auto
qed simp

lemma floorlog_between: "2 ^ a \<le> n \<Longrightarrow> n < 2 ^ b \<Longrightarrow> a < floorlog 2 n \<and> floorlog 2 n \<le> b"
proof -
  assume n: "2 ^ a \<le> n" "n < 2 ^ b"
  have "0 < n" using n(1) by (rule order_less_le_trans [rotated]) simp
  then have f: "2 ^ (floorlog 2 n - 1) \<le> n" "n < 2 ^ floorlog 2 n"
    using floorlog_bounds [of n 2] by auto
  have "2 ^ a < (2 :: nat) ^ floorlog 2 n" using n(1) f(2) by (rule order_le_less_trans)
  then have "a < floorlog 2 n" by (simp add: power_strict_increasing_iff)
  moreover have "2 ^ (floorlog 2 n - 1) < (2 :: nat) ^ b" using f(1) n(2) by (rule order_le_less_trans)
  then have "floorlog 2 n - 1 < b" by (simp add: power_strict_increasing_iff)
  ultimately show ?thesis by simp
qed

text \<open>A short text of ASCII bytes is recovered from its word, which is neither empty nor heap.\<close>

lemma inline_len_word:
  assumes "bs \<noteq> []" "length bs \<le> 8" "0 < last bs"
  shows "inline_len (le_word bs) = length bs"
proof -
  obtain k where k: "length bs = Suc k" using assms(1) by (cases bs) auto
  have l: "1 \<le> unat (last bs)" "unat (last bs) + 1 \<le> 256"
    using assms(3) unat_bound [of "last bs"] by (simp_all add: word_less_nat_alt Suc_le_eq)
  have "256 ^ k \<le> unat (last bs) * 256 ^ k" using mult_le_mono1 [OF l(1), of "256 ^ k"] by simp
  also have lo: "\<dots> \<le> unat (le_word bs)" using le_word_lower [OF assms(2,1)] by (simp add: k)
  finally have b1: "(2 :: nat) ^ (8 * k) \<le> unat (le_word bs)" by (simp add: power_mult)
  have "unat (le_word bs) < (unat (last bs) + 1) * 256 ^ k"
    using le_word_lower [OF assms(2,1)] by (simp add: k)
  also have "\<dots> \<le> 256 * 256 ^ k" by (rule mult_le_mono1 [OF l(2)])
  finally have b2: "unat (le_word bs) < 2 ^ (8 * k + 8)" by (simp add: power_mult power_add)
  note b = b1 b2
  define f where "f = floorlog 2 (unat (le_word bs))"
  from floorlog_between [OF b] have f: "8 * k < f" "f \<le> 8 * k + 8" by (simp_all add: f_def)
  have k7: "k \<le> 7" using assms(2) k by simp
  then have "64 - f = (8 * k + 8 - f) + (7 - k) * 8" using f by arith
  then have "(64 - f) div 8 = (8 * k + 8 - f) div 8 + (7 - k)" by (simp only: div_mult_self1)
  also have "(8 * k + 8 - f) div 8 = 0" using f by simp
  finally show ?thesis
    using k k7 by (simp add: inline_len_def leading_zeros_def Let_def f_def [symmetric])
qed

definition ascii :: "string \<Rightarrow> bool" where
  "ascii s \<longleftrightarrow> list_all (\<lambda>c. 0 < (of_char c :: nat) \<and> (of_char c :: nat) < 128) s"

lemma unat_of_char: "unat (of_char c :: u8) = of_char c"
proof -
  have "(of_char c :: u8) = of_nat (of_char c)" by (simp only: of_nat_of_char)
  moreover have "(of_char c :: nat) < 256" by simp
  ultimately show ?thesis by (simp only: unat_u8)
qed

lemma str_of_bytes [simp, codec_simps]: "str_of (bytes_of s) = s"
  by (simp add: str_of_def bytes_of_def comp_def unat_of_char)

lemma length_bytes_of [simp]: "length (bytes_of s) = length s"
  by (simp add: bytes_of_def)

lemma ascii_last:
  "ascii s \<Longrightarrow> s \<noteq> [] \<Longrightarrow> 0 < last (bytes_of s) \<and> unat (last (bytes_of s)) < 128"
  by (auto simp: ascii_def list_all_iff bytes_of_def last_map word_less_nat_alt unat_of_char)

lemma inline_text:
  assumes "ascii s" "s \<noteq> []" "length s \<le> 8"
  shows "inline_as_str (le_word (bytes_of s)) = s \<and> is_inline (le_word (bytes_of s)) \<and>
    \<not> ident_is_empty (le_word (bytes_of s))"
proof -
  let ?bs = "bytes_of s"
  have bs: "?bs \<noteq> []" "length ?bs \<le> 8" using assms by (simp_all add: bytes_of_def)
  have l: "0 < last ?bs" "unat (last ?bs) + 1 \<le> 128" using ascii_last [OF assms(1,2)] by simp_all
  have str: "inline_as_str (le_word ?bs) = s"
    by (simp add: inline_as_str_def inline_len_word [OF bs l(1)] le_bytes_word assms(3))
  have "unat (le_word ?bs) < (unat (last ?bs) + 1) * 256 ^ (length ?bs - 1)"
    using le_word_lower [OF bs(2,1)] by simp
  then have "unat (le_word ?bs) < 128 * 256 ^ (length ?bs - 1)"
    using mult_le_mono1 [OF l(2), of "256 ^ (length ?bs - 1)"] by linarith
  moreover have "(256 :: nat) ^ (length ?bs - 1) \<le> 256 ^ 7"
    using bs(2) by (intro power_increasing) auto
  ultimately have "unat (le_word ?bs) < 128 * 256 ^ 7" by linarith
  then have small: "unat (le_word ?bs) < 2 ^ 63" by simp
  then have "unat (drop_bit 63 (le_word ?bs)) = 0" by (simp add: unat_drop_bit)
  then have "is_inline (le_word ?bs)" by (simp add: is_inline_def unat_eq_0)
  moreover have "le_word ?bs \<noteq> - 1"
  proof
    assume "le_word ?bs = - 1"
    then have "unat (le_word ?bs) = 2 ^ 64 - 1"
      by (simp add: unsigned_minus_1_eq_mask mask_eq_exp_minus_1)
    with small show False by simp
  qed
  ultimately show ?thesis using str by (simp add: ident_is_empty_def ident_empty_def)
qed

section \<open>The pointer form\<close>

lemma ptr_repr_value: "ptr_to_repr p = word_rotr 1 (p OR 1)" "repr_to_ptr r = push_bit 1 r"
  by (simp_all add: ptr_to_repr_def repr_to_ptr_def Let_def)

lemma repr_ptr [simp, codec_simps]:
  assumes "even p"
  shows "repr_to_ptr (ptr_to_repr p) = p"
proof -
  have "bit (push_bit 1 (word_rotr 1 (p OR 1))) n \<longleftrightarrow> bit p n" if "n < 64" for n
  proof (cases n)
    case 0
    with assms show ?thesis by (simp add: bit_push_bit_iff bit_0)
  next
    case (Suc m)
    with that show ?thesis
      by (simp only: bit_push_bit_iff bit_word_rotr_iff) (simp add: bit_or_iff bit_1_iff)
  qed
  then show ?thesis by (intro bit_word_eqI) (simp add: ptr_repr_value)
qed

lemma repr_not_inline: "\<not> is_inline (ptr_to_repr p)"
proof -
  have "bit (ptr_to_repr p) 63" by (simp add: ptr_repr_value bit_word_rotr_iff bit_or_iff bit_1_iff)
  then have "bit (drop_bit 63 (ptr_to_repr p)) 0" by (simp add: bit_drop_bit_eq)
  then show ?thesis by (auto simp: is_inline_def)
qed

lemma repr_not_empty:
  assumes "even p" and "p \<noteq> - 2"
  shows "\<not> ident_is_empty (ptr_to_repr p)"
proof
  assume "ident_is_empty (ptr_to_repr p)"
  then have "repr_to_ptr (ptr_to_repr p) = push_bit 1 (- 1)"
    by (simp add: ident_is_empty_def ident_empty_def ptr_repr_value(2))
  with assms show False by simp
qed

section \<open>The length header\<close>

function varint :: "u64 \<Rightarrow> u8 list" where
  "varint w = (if w > 0 then (cast w OR 0x80) # varint (drop_bit 7 w) else [])"
  by pat_completeness auto

termination
proof (relation "measure unat")
  fix w :: u64
  assume "0 < w"
  then have "0 < unat w" by (simp add: word_less_nat_alt)
  then show "(drop_bit 7 w, w) \<in> measure unat" by (simp add: unat_shift7)
qed simp

declare varint.simps [simp del]

lemma write_varint_blit:
  "p + length (varint w) \<le> length cells \<Longrightarrow>
   write_varint w p cells = (p + length (varint w), blit (map Some (varint w)) p cells)"
proof (induction w p cells rule: write_varint.induct)
  case (1 w p cells)
  show ?case
  proof (cases "w > 0")
    case True
    then have v: "varint w = (cast w OR 0x80) # varint (drop_bit 7 w)" by (simp add: varint.simps)
    with 1 True show ?thesis by (simp add: write_varint.simps [of w] blit_Cons)
  next
    case False
    then show ?thesis by (simp add: write_varint.simps [of w] varint.simps [of w])
  qed
qed

lemma floorlog_shift7: "floorlog 2 (n div 128) = floorlog 2 n - 7"
proof (cases "n < 128")
  case True
  then have "floorlog 2 n \<le> 7"
    using floorlog_between [of 0 n 7] by (cases "n = 0") (auto simp: floorlog_def)
  with True show ?thesis by (simp add: floorlog_def)
next
  case False
  define f where "f = floorlog 2 n"
  have b: "2 ^ (f - 1) \<le> n" "n < 2 ^ f" using floorlog_bounds [of n 2] False by (simp_all add: f_def)
  have "7 < f" using floorlog_between [of 7 n f] False b(2) by (simp add: f_def)
  then obtain g where g: "f = g + 8" using less_imp_Suc_add [of 7 f] by auto
  have "2 ^ g \<le> n div 128" using b(1) by (simp add: g power_add less_eq_div_iff_mult_less_eq)
  moreover have "n div 128 < 2 ^ (g + 1)"
    using b(2) by (simp add: g power_add less_mult_imp_div_less)
  ultimately have "g < floorlog 2 (n div 128) \<and> floorlog 2 (n div 128) \<le> g + 1"
    by (rule floorlog_between)
  then show ?thesis by (simp add: f_def [symmetric] g)
qed

lemma floorlog_u64: "floorlog 2 (unat (w :: u64)) \<le> 64"
  using floorlog_between [of 0 "unat w" 64] unat_bound [of w]
  by (cases "unat w = 0") (auto simp: floorlog_def)

lemma bytes_for_varint_floorlog: "bytes_for_varint w = (floorlog 2 (unat w) + 6) div 7"
  using floorlog_u64 [of w] by (simp add: bytes_for_varint_def leading_zeros_def Let_def)

lemma bytes_for_varint_le: "bytes_for_varint w \<le> 10"
  using floorlog_u64 [of w] div_le_mono [of "floorlog 2 (unat w) + 6" 70 7]
  by (simp add: bytes_for_varint_floorlog)

lemma length_varint: "length (varint w) = bytes_for_varint w"
proof (induction w rule: varint.induct)
  case (1 w)
  show ?case
  proof (cases "w > 0")
    case True
    define f where "f = floorlog 2 (unat w)"
    have "0 < unat w" using True by (simp add: word_less_nat_alt)
    then have "0 < f" using floorlog_eq_zero_iff [of 2 "unat w"] by (simp add: f_def)
    then have "Suc ((f - 7 + 6) div 7) = (f + 6) div 7"
    proof (cases "f < 7")
      case True
      with \<open>0 < f\<close> have "(f + 6) div 7 = 1" by (intro div_nat_eqI) simp_all
      with True show ?thesis by simp
    next
      case False
      then obtain g where "f = g + 7" by (metis add.commute le_Suc_ex not_less)
      then show ?thesis using div_add_self2 [of 7 "g + 6"] by (simp add: add.commute)
    qed
    with 1 True show ?thesis
      by (simp add: varint.simps [of w] bytes_for_varint_floorlog unat_shift7 floorlog_shift7 f_def)
  next
    case False
    then have "w = 0" by (simp add: word_gt_0)
    then show ?thesis by (simp add: varint.simps [of 0] bytes_for_varint_floorlog floorlog_def)
  qed
qed

lemma or_80: "\<not> (b OR 0x80 < (0x80 :: u8))" "(b OR 0x80) AND 0x7f = b AND (0x7f :: u8)"
proof -
  have "(0x80 :: u8) \<le> b OR 0x80" by (metis le_word_or1 le_word_or2 or.commute)
  then show "\<not> (b OR 0x80 < (0x80 :: u8))" by (simp add: not_less)
  have "(0x80 :: u8) AND 0x7f = 0" by simp
  then show "(b OR 0x80) AND 0x7f = b AND (0x7f :: u8)" by (simp add: bit.conj_disj_distrib2)
qed

lemma low_digit: "(cast ((cast w :: u8) AND 0x7f) :: u64) = take_bit 7 w"
proof -
  have m: "(0x7f :: u8) = mask 7" by (simp add: mask_eq_exp_minus_1)
  show ?thesis
    by (rule bit_word_eqI) (auto simp: m bit_simps)
qed

lemma decode_cold_varint:
  assumes "hd bs < 0x80" "bs \<noteq> []"
  shows "decode_len_cold (map Some (varint w @ bs)) len shift = Some (len + push_bit shift w)"
proof (induction w arbitrary: len shift rule: varint.induct)
  case (1 w)
  show ?case
  proof (cases "w > 0")
    case True
    have "push_bit shift (take_bit 7 w) + push_bit (shift + 7) (drop_bit 7 w) =
        push_bit shift (take_bit 7 w + push_bit 7 (drop_bit 7 w))"
      by (simp add: push_bit_add add.commute [of shift 7])
    also have "take_bit 7 w + push_bit 7 (drop_bit 7 w) = w"
      using bits_ident [of 7 w] by (simp only: add.commute)
    finally show ?thesis
      using 1 True by (simp add: varint.simps [of w] or_80 low_digit add.assoc)
  next
    case False
    then have "w = 0" by (simp add: word_gt_0)
    then show ?thesis using assms by (cases bs) (simp_all add: varint.simps [of 0])
  qed
qed

lemma decode_varint:
  assumes "hd bs < 0x80" "bs \<noteq> []" "0 < w"
  shows "decode_len (map Some (varint w @ bs)) = Some w"
proof (cases "drop_bit 7 w = 0")
  case True
  have "take_bit 7 w = w" using bits_ident [of 7 w] True by simp
  moreover have "varint w = [cast w OR 0x80]"
    using True assms(3) by (simp add: varint.simps [of w] varint.simps [of 0])
  ultimately show ?thesis
    using assms(1,2) by (cases bs) (simp_all add: decode_len_def or_80 low_digit)
next
  case False
  then have "0 < drop_bit 7 w" by (simp add: word_gt_0)
  then obtain rest where v: "varint w = (cast w OR 0x80) # (cast (drop_bit 7 w) OR 0x80) # rest"
    using assms(3) by (simp add: varint.simps [of w] varint.simps [of "drop_bit 7 w"])
  show ?thesis
    using decode_cold_varint [OF assms(1,2), of w 0 0]
    by (simp add: decode_len_def v or_80)
qed

section \<open>What a representation stands for\<close>

definition MAX_LEN :: nat where
  "MAX_LEN = 0xffffffffffffff"

definition heap_text :: "heap \<Rightarrow> u64 \<Rightarrow> string \<Rightarrow> bool" where
  "heap_text h p s \<longleftrightarrow> even p \<and> p \<noteq> - 2 \<and>
     h p = Some (map Some (varint (of_nat (length s)) @ bytes_of s))"

definition rep :: "heap \<Rightarrow> u64 \<Rightarrow> string \<Rightarrow> bool" where
  "rep h r s \<longleftrightarrow> ascii s \<and> length s \<le> MAX_LEN \<and>
     (if s = [] then r = ident_empty
      else if length s \<le> 8 then r = le_word (bytes_of s)
      else \<exists>p. r = ptr_to_repr p \<and> heap_text h p s)"

lemma rep_short:
  "rep h r s \<Longrightarrow> length s \<le> 8 \<Longrightarrow> is_empty_or_inline r \<and> (ident_is_empty r \<longleftrightarrow> s = [])"
  using inline_text [of s]
  by (cases "s = []")
    (auto simp: rep_def is_empty_or_inline_def ident_is_empty_def ident_empty_def)

lemma rep_long:
  assumes "rep h r s" "\<not> length s \<le> 8"
  obtains p where "r = ptr_to_repr p" "repr_to_ptr r = p" "heap_text h p s"
    "\<not> ident_is_empty r" "\<not> is_inline r" "\<not> is_empty_or_inline r"
proof -
  have "s \<noteq> []" using assms(2) by auto
  with assms obtain p where p: "r = ptr_to_repr p" "heap_text h p s" by (auto simp: rep_def)
  then have "even p" "p \<noteq> - 2" by (simp_all add: heap_text_def)
  then have "\<not> ident_is_empty r" "\<not> is_inline r" "repr_to_ptr r = p"
    by (simp_all add: p(1) repr_not_empty repr_not_inline)
  with p that show ?thesis by (simp add: is_empty_or_inline_def)
qed

lemma length_word:
  "length s \<le> MAX_LEN \<Longrightarrow> unat (of_nat (length s) :: u64) = length s"
  by (rule of_nat_checked) (simp add: MAX_LEN_def)

lemma ascii_hd: "ascii s \<Longrightarrow> s \<noteq> [] \<Longrightarrow> hd (bytes_of s) < 0x80"
  by (cases s) (auto simp: ascii_def bytes_of_def word_less_nat_alt unat_of_char)

lemma heap_text_len:
  assumes "heap_text h p s" "ascii s" "length s \<le> MAX_LEN" "s \<noteq> []"
  shows "decode_len (map Some (varint (of_nat (length s)) @ bytes_of s)) = Some (of_nat (length s))"
proof (rule decode_varint)
  show "hd (bytes_of s) < 0x80" using assms(2,4) by (rule ascii_hd)
  show "bytes_of s \<noteq> []" using assms(4) by (simp add: bytes_of_def)
  have "unat (of_nat (length s) :: u64) = length s" using assms(3) by (rule length_word)
  then show "0 < (of_nat (length s) :: u64)" using assms(4) by (simp add: word_less_nat_alt)
qed

lemma rep_ptr_str:
  assumes "rep h r s" "\<not> length s \<le> 8"
  shows "ptr_as_str h r = Some s"
proof -
  obtain p where p: "repr_to_ptr r = p" "heap_text h p s" using rep_long [OF assms] .
  have s: "ascii s" "length s \<le> MAX_LEN" "s \<noteq> []" using assms by (auto simp: rep_def)
  let ?l = "of_nat (length s) :: u64"
  have h: "h p = Some (map Some (varint ?l @ bytes_of s))" using p(2) by (simp add: heap_text_def)
  have "take (length s) (drop (length (varint ?l)) (map Some (varint ?l @ bytes_of s)))
      = map Some (bytes_of s)" by simp
  then show ?thesis
    using h heap_text_len [OF p(2) s]
    by (simp add: ptr_as_str_def p(1) length_word [OF s(2)] length_varint [symmetric])
qed

text \<open>Reading back, the emptiness test and equality are those of the texts.\<close>

lemma rep_as_str: "rep h r s \<Longrightarrow> ident_as_str h r = Some s"
proof (cases "length s \<le> 8")
  case True
  assume r: "rep h r s"
  show ?thesis
    using r True inline_text [of s]
    by (cases "s = []") (auto simp: rep_def ident_as_str_def ident_is_empty_def)
next
  case False
  assume r: "rep h r s"
  from rep_long [OF r False] show ?thesis
    using rep_ptr_str [OF r False] by (auto simp: ident_as_str_def)
qed

lemma rep_is_empty: "rep h r s \<Longrightarrow> ident_is_empty r \<longleftrightarrow> s = []"
  by (cases "length s \<le> 8") (auto dest: rep_short elim: rep_long)

lemma rep_eq:
  assumes "rep h a s" "rep h b t"
  shows "ident_eq h a b = Some (s = t)"
proof (cases "a = b")
  case True
  then show ?thesis using rep_as_str [OF assms(1)] rep_as_str [OF assms(2)] by (simp add: ident_eq_def)
next
  case False
  show ?thesis
  proof (cases "length s \<le> 8 \<or> length t \<le> 8")
    case True
    then have "is_empty_or_inline a \<or> is_empty_or_inline b"
      using rep_short [OF assms(1)] rep_short [OF assms(2)] by auto
    moreover have "s \<noteq> t" using True False assms by (auto simp: rep_def split: if_splits)
    ultimately show ?thesis using False by (simp add: ident_eq_def)
  next
    case long: False
    then show ?thesis
      using False rep_ptr_str [OF assms(1)] rep_ptr_str [OF assms(2)]
        rep_long [OF assms(1)] rep_long [OF assms(2)]
      by (auto simp: ident_eq_def)
  qed
qed

section \<open>Creating, copying and freeing\<close>

lemma heap_layout:
  assumes "s \<noteq> []" "length s \<le> MAX_LEN" "ptr \<noteq> 0" "alloc_ok alloc"
    and "ptr = alloc (bytes_for_varint (of_nat (length s)) + length s) h"
  shows "h ptr = None \<and> even ptr \<and> (length s > 8 \<longrightarrow> ptr \<noteq> - 2)"
proof -
  let ?size = "bytes_for_varint (of_nat (length s)) + length s"
  have "?size > 0" using assms(1) by simp
  with assms(3-5) have a: "h ptr = None" "even ptr" "unat ptr + ?size \<le> 2 ^ 64"
    by (auto simp: alloc_ok_def)
  have "unat (- 2 :: u64) = 2 ^ 64 - 2" by (simp add: unsigned_minus_1_eq_mask)
  then have "ptr \<noteq> - 2" if "length s > 8" using a(3) that by auto
  with a show ?thesis by simp
qed

lemma new_unchecked_ok:
  assumes "new_unchecked alloc s h = Some (r, h')" "alloc_ok alloc" "ascii s"
  shows "rep h' r s \<and> (length s \<le> 8 \<longrightarrow> h' = h) \<and>
    (length s > 8 \<longrightarrow> (\<exists>p. h p = None \<and> repr_to_ptr r = p \<and>
      h' = h(p \<mapsto> map Some (varint (of_nat (length s)) @ bytes_of s))))"
proof (cases "length s \<le> 8")
  case True
  show ?thesis
  proof (cases "s = []")
    case True
    with assms show ?thesis
      by (simp add: new_unchecked_def rep_def MAX_LEN_def)
  next
    case False
    have "blit (bytes_of s) 0 (replicate 8 0) = bytes_of s @ replicate (8 - length s) 0"
      by (simp add: blit_def)
    then show ?thesis
      using assms True False by (auto simp: new_unchecked_def rep_def MAX_LEN_def le_word_pad)
  qed
next
  case False
  then have s: "s \<noteq> []" "length s > 8" by auto
  let ?l = "of_nat (length s) :: u64"
  let ?size = "bytes_for_varint ?l + length s"
  let ?p = "alloc ?size h"
  let ?cells = "map Some (varint ?l @ bytes_of s)"
  have w: "write_varint ?l 0 (replicate ?size None) =
      (length (varint ?l), blit (map Some (varint ?l)) 0 (replicate ?size None))"
    by (subst write_varint_blit) (simp_all add: length_varint)
  have b: "blit (map Some (bytes_of s)) (length (varint ?l))
      (blit (map Some (varint ?l)) 0 (replicate ?size None)) = ?cells"
    by (simp add: blit_def length_varint)
  from assms(1) False have len: "length s \<le> MAX_LEN" and p: "?p \<noteq> 0"
    and r: "r = ptr_to_repr ?p" "h' = h(?p \<mapsto> ?cells)"
    by (auto simp: new_unchecked_def MAX_LEN_def w b [simplified] Let_def split: if_splits)
  have lay: "h ?p = None" "even ?p" "?p \<noteq> - 2"
    using heap_layout [OF s(1) len p assms(2) refl] s(2) by auto
  then have "rep h' r s" using assms(3) len s by (auto simp: rep_def r heap_text_def)
  then show ?thesis using False lay by (auto simp: r)
qed

text \<open>A representation does not depend on the other allocations.\<close>

lemma rep_frame:
  assumes "rep h r s" "length s > 8 \<Longrightarrow> h' (repr_to_ptr r) = h (repr_to_ptr r)"
  shows "rep h' r s"
proof (cases "length s \<le> 8")
  case True
  with assms(1) show ?thesis by (auto simp: rep_def)
next
  case False
  from rep_long [OF assms(1) False] obtain p where
    p: "r = ptr_to_repr p" "repr_to_ptr r = p" "heap_text h p s" by blast
  with assms False show ?thesis by (auto simp: rep_def heap_text_def)
qed

lemma clone_ok:
  assumes "rep h r s" "alloc_ok alloc" "ident_clone alloc h r = Some (q, h')"
  shows "rep h' q s \<and> (length s \<le> 8 \<longrightarrow> q = r \<and> h' = h) \<and>
    (length s > 8 \<longrightarrow> (\<exists>p. h p = None \<and> repr_to_ptr q = p \<and>
      h' = h(p \<mapsto> map Some (varint (of_nat (length s)) @ bytes_of s))))"
proof (cases "length s \<le> 8")
  case True
  with assms rep_short [OF assms(1)] show ?thesis by (simp add: ident_clone_def)
next
  case False
  obtain p where p: "repr_to_ptr r = p" "heap_text h p s" "\<not> is_empty_or_inline r"
    using rep_long [OF assms(1) False] .
  have s: "ascii s" "length s \<le> MAX_LEN" "s \<noteq> []" using assms(1) False by (auto simp: rep_def)
  let ?l = "of_nat (length s) :: u64"
  let ?cells = "map Some (varint ?l @ bytes_of s)"
  let ?q = "alloc (bytes_for_varint ?l + length s) h"
  have h: "h p = Some ?cells" using p(2) by (simp add: heap_text_def)
  have sz: "length ?cells = bytes_for_varint ?l + length s" by (simp add: length_varint)
  have r: "?q \<noteq> 0" "q = ptr_to_repr ?q" "h' = h(?q \<mapsto> ?cells)"
    using assms(3) h heap_text_len [OF p(2) s]
    by (auto simp: ident_clone_def p length_word [OF s(2)] length_varint Let_def split: if_splits)
  have lay: "h ?q = None" "even ?q" "?q \<noteq> - 2"
    using heap_layout [OF s(3,2) r(1) assms(2) refl] False by auto
  then have "rep h' q s" using s False by (auto simp: rep_def r heap_text_def)
  then show ?thesis using False lay by (auto simp: r)
qed

lemma drop_ok:
  assumes "rep h r s"
  shows "ident_drop h r = Some (if length s > 8 then h(repr_to_ptr r := None) else h)"
proof (cases "length s \<le> 8")
  case True
  with rep_short [OF assms] show ?thesis by (simp add: ident_drop_def)
next
  case False
  obtain p where p: "repr_to_ptr r = p" "heap_text h p s" "\<not> is_empty_or_inline r"
    using rep_long [OF assms False] .
  have s: "ascii s" "length s \<le> MAX_LEN" "s \<noteq> []" using assms(1) False by (auto simp: rep_def)
  have h: "h p = Some (map Some (varint (of_nat (length s)) @ bytes_of s))"
    using p(2) by (simp add: heap_text_def)
  show ?thesis
    using h heap_text_len [OF p(2) s] False
    by (simp add: ident_drop_def p length_word [OF s(2)] length_varint)
qed

section \<open>The interface of a text\<close>

text \<open>
  What the rest of the crate relies on: a value that stands for a text, can be read, compared
  and copied. The laws make reading and comparing agree on copies.
\<close>

locale shared_text =
  fixes stands_for :: "'h \<Rightarrow> 'r \<Rightarrow> string \<Rightarrow> bool"
    and get_text :: "'h \<Rightarrow> 'r \<Rightarrow> string option"
    and same_text :: "'h \<Rightarrow> 'r \<Rightarrow> 'r \<Rightarrow> bool option"
    and copy :: "'h \<Rightarrow> 'r \<Rightarrow> ('r \<times> 'h) option"
  assumes get_text: "stands_for h r s \<Longrightarrow> get_text h r = Some s"
    and same_text: "stands_for h r s \<Longrightarrow> stands_for h q t \<Longrightarrow> same_text h r q = Some (s = t)"
    and copy: "stands_for h r s \<Longrightarrow> copy h r = Some (q, h') \<Longrightarrow> stands_for h' q s \<and> stands_for h' r s"
begin

lemma copy_same:
  "stands_for h r s \<Longrightarrow> copy h r = Some (q, h') \<Longrightarrow>
   get_text h' q = Some s \<and> get_text h' r = Some s \<and> same_text h' r q = Some True"
  using copy [of h r s q h'] by (auto simp: get_text same_text)

lemma text_unique: "stands_for h r s \<Longrightarrow> stands_for h r t \<Longrightarrow> s = t"
  using get_text [of h r s] get_text [of h r t] by simp

end

lemma clone_keeps:
  assumes "rep h r s" "alloc_ok alloc" "ident_clone alloc h r = Some (q, h')"
  shows "rep h' r s"
proof (rule rep_frame [OF assms(1)])
  assume "length s > 8"
  then have long: "\<not> length s \<le> 8" by simp
  obtain p where p: "repr_to_ptr r = p" "heap_text h p s"
    using rep_long [OF assms(1) long] .
  then have "h p \<noteq> None" by (simp add: heap_text_def)
  moreover obtain p' cells where "h p' = None" "h' = h(p' \<mapsto> cells)"
    using clone_ok [OF assms] long by auto
  ultimately show "h' (repr_to_ptr r) = h (repr_to_ptr r)" by (auto simp: p(1))
qed

interpretation ident: shared_text "\<lambda>h r s. alloc_ok alloc \<and> rep h r s" ident_as_str ident_eq
  "ident_clone alloc" for alloc
proof unfold_locales
  show "ident_as_str h r = Some s" if "alloc_ok alloc \<and> rep h r s" for h r s
    using that by (simp add: rep_as_str)
  show "ident_eq h r q = Some (s = t)" if "alloc_ok alloc \<and> rep h r s" "alloc_ok alloc \<and> rep h q t"
    for h r s q t using that rep_eq [of h r s q t] by simp
  show "(alloc_ok alloc \<and> rep h' q s) \<and> alloc_ok alloc \<and> rep h' r s"
    if "alloc_ok alloc \<and> rep h r s" "ident_clone alloc h r = Some (q, h')" for h r s q h'
    using that clone_ok [of h r s alloc q h'] clone_keeps [of h r s alloc q h'] by simp
qed

section \<open>Lifetimes\<close>

text \<open>
  A program that creates, clones and drops identifiers. Each live one is kept with the text it
  was made from; \<open>Drop i\<close> and \<open>Clone i\<close> name a live one.
\<close>

datatype ident_op = New string | Clone nat | Drop nat

fun ident_step ::
  "allocator \<Rightarrow> ident_op \<Rightarrow> heap \<times> (u64 \<times> string) list \<Rightarrow> (heap \<times> (u64 \<times> string) list) option"
  where
  "ident_step alloc (New s) (h, ids) =
     map_option (\<lambda>(r, h'). (h', (r, s) # ids)) (new_unchecked alloc s h)"
| "ident_step alloc (Clone i) (h, ids) =
     (if i < length ids
      then map_option (\<lambda>(q, h'). (h', (q, snd (ids ! i)) # ids)) (ident_clone alloc h (fst (ids ! i)))
      else None)"
| "ident_step alloc (Drop i) (h, ids) =
     (if i < length ids
      then map_option (\<lambda>h'. (h', take i ids @ drop (Suc i) ids)) (ident_drop h (fst (ids ! i)))
      else None)"

fun ident_run ::
  "allocator \<Rightarrow> ident_op list \<Rightarrow> heap \<times> (u64 \<times> string) list \<Rightarrow> (heap \<times> (u64 \<times> string) list) option"
  where
  "ident_run alloc [] st = Some st"
| "ident_run alloc (op # ops) st = Option.bind (ident_step alloc op st) (ident_run alloc ops)"

fun op_ascii :: "ident_op \<Rightarrow> bool" where
  "op_ascii (New s) = ascii s"
| "op_ascii _ = True"

definition ptrs :: "(u64 \<times> string) list \<Rightarrow> u64 list" where
  "ptrs ids = map (\<lambda>(r, s). repr_to_ptr r) (filter (\<lambda>(r, s). length s > 8) ids)"

text \<open>Every live identifier stands for its text, and each allocation belongs to exactly one.\<close>

definition owns :: "heap \<Rightarrow> (u64 \<times> string) list \<Rightarrow> bool" where
  "owns h ids \<longleftrightarrow> (\<forall>(r, s) \<in> set ids. rep h r s) \<and> distinct (ptrs ids) \<and> dom h = set (ptrs ids)"

lemma ptrs_simps [simp]:
  "ptrs [] = []"
  "ptrs ((r, s) # ids) = (if length s > 8 then repr_to_ptr r # ptrs ids else ptrs ids)"
  "ptrs (ids @ jds) = ptrs ids @ ptrs jds"
  by (simp_all add: ptrs_def)

lemma ptrs_mem: "(r, s) \<in> set ids \<Longrightarrow> length s > 8 \<Longrightarrow> repr_to_ptr r \<in> set (ptrs ids)"
  by (force simp: ptrs_def)

lemma owns_add:
  assumes "owns h ids" "rep h' r s" "length s \<le> 8 \<longrightarrow> h' = h"
    and "length s > 8 \<longrightarrow> (\<exists>p cells. h p = None \<and> repr_to_ptr r = p \<and> h' = h(p \<mapsto> cells))"
  shows "owns h' ((r, s) # ids)"
proof (cases "length s \<le> 8")
  case True
  with assms show ?thesis by (auto simp: owns_def)
next
  case False
  with assms(4) obtain p cells where p: "h p = None" "repr_to_ptr r = p" "h' = h(p \<mapsto> cells)"
    by auto
  have np: "p \<notin> set (ptrs ids)" using assms(1) p(1) by (auto simp: owns_def)
  have "rep h' q t" if "(q, t) \<in> set ids" for q t
  proof (rule rep_frame)
    show "rep h q t" using assms(1) that by (auto simp: owns_def)
    show "h' (repr_to_ptr q) = h (repr_to_ptr q)" if "length t > 8"
      using np ptrs_mem [OF \<open>(q, t) \<in> set ids\<close> that] by (auto simp: p(3))
  qed
  then show ?thesis using assms(1,2) False np p by (auto simp: owns_def)
qed

lemma owns_remove:
  assumes "owns h (as @ (r, s) # bs)"
  shows "owns (if length s > 8 then h(repr_to_ptr r := None) else h) (as @ bs)"
proof (cases "length s > 8")
  case True
  have d: "distinct (ptrs as @ repr_to_ptr r # ptrs bs)" using assms True by (simp add: owns_def)
  have "rep (h(repr_to_ptr r := None)) q t" if "(q, t) \<in> set (as @ bs)" for q t
  proof (rule rep_frame)
    show "rep h q t" using assms that by (auto simp: owns_def)
    show "(h(repr_to_ptr r := None)) (repr_to_ptr q) = h (repr_to_ptr q)" if "length t > 8"
      using d ptrs_mem [OF \<open>(q, t) \<in> set (as @ bs)\<close> that] by auto
  qed
  then show ?thesis using assms True d by (auto simp: owns_def)
next
  case False
  with assms show ?thesis by (auto simp: owns_def)
qed

lemma owns_step:
  assumes "alloc_ok alloc" "op_ascii op" "owns h ids" "ident_step alloc op (h, ids) = Some (h', ids')"
  shows "owns h' ids'"
proof (cases op)
  case (New s)
  with assms obtain r where r: "new_unchecked alloc s h = Some (r, h')" "ids' = (r, s) # ids"
    by auto
  with assms New new_unchecked_ok [OF r(1) assms(1)] show ?thesis
    by (auto intro!: owns_add [OF assms(3)])
next
  case (Clone i)
  with assms obtain q where q: "ident_clone alloc h (fst (ids ! i)) = Some (q, h')" "i < length ids"
    "ids' = (q, snd (ids ! i)) # ids" by (auto split: if_splits)
  have "rep h (fst (ids ! i)) (snd (ids ! i))"
    using assms(3) nth_mem [OF q(2)] by (auto simp: owns_def split: prod.splits)
  from clone_ok [OF this assms(1) q(1)] show ?thesis
    by (auto simp: q(3) intro!: owns_add [OF assms(3)])
next
  case (Drop i)
  then have i: "i < length ids" using assms by (auto split: if_splits)
  obtain r s where rs: "ids ! i = (r, s)" by force
  have "rep h r s" using assms(3) nth_mem [OF i] by (auto simp: owns_def rs)
  from drop_ok [OF this] have h': "h' = (if length s > 8 then h(repr_to_ptr r := None) else h)"
    and ids': "ids' = take i ids @ drop (Suc i) ids"
    using assms(4) i by (auto simp: Drop rs)
  have "ids = take i ids @ (r, s) # drop (Suc i) ids" using id_take_nth_drop [OF i] by (simp add: rs)
  then show ?thesis using owns_remove [of h "take i ids" r s "drop (Suc i) ids"] assms(3)
    by (simp add: h' ids')
qed

lemma owns_run:
  "alloc_ok alloc \<Longrightarrow> list_all op_ascii ops \<Longrightarrow> owns h ids \<Longrightarrow>
   ident_run alloc ops (h, ids) = Some (h', ids') \<Longrightarrow> owns h' ids'"
proof (induction ops arbitrary: h ids)
  case (Cons op ops)
  then obtain h1 ids1 where "ident_step alloc op (h, ids) = Some (h1, ids1)"
    "ident_run alloc ops (h1, ids1) = Some (h', ids')"
    by (auto split: bind_splits)
  with Cons owns_step show ?case by (metis list.pred_inject(2))
qed simp

lemma rep_nonzero: "rep h r s \<Longrightarrow> r \<noteq> 0"
proof -
  assume r: "rep h r s"
  show ?thesis
  proof (cases "length s \<le> 8")
    case True
    show ?thesis
    proof (cases "s = []")
      case False
      have "0 < unat (last (bytes_of s))" "length (bytes_of s) \<le> 8" "bytes_of s \<noteq> []"
        using r True False ascii_last [of s] by (auto simp: rep_def bytes_of_def word_less_nat_alt)
      with le_word_lower [of "bytes_of s"] have "0 < unat (le_word (bytes_of s))"
        by (metis mult_pos_pos not_gr_zero order_less_le_trans zero_less_numeral zero_less_power)
      then show ?thesis using r True False by (auto simp: rep_def)
    qed (use r in \<open>simp add: rep_def ident_empty_def\<close>)
  next
    case False
    obtain p where "r = ptr_to_repr p" using rep_long [OF r False] .
    with repr_not_inline [of p] show ?thesis by (auto simp: is_inline_def)
  qed
qed

text \<open>An allocator with room for two identifiers, for the witnesses.\<close>

definition two_slots :: allocator where
  "two_slots n h = (if n > 1000 then 0 else if h 4096 = None then 4096
     else if h 8192 = None then 8192 else 0)"

lemma two_slots_ok: "alloc_ok two_slots"
  by (auto simp: alloc_ok_def two_slots_def)

section \<open>Properties\<close>

text \<open>
  C13. The packed word is a faithful representation of every ASCII text of up to 2^56 - 1
  bytes: when the allocator has room the constructor succeeds, reading back gives the text, the
  emptiness test is right, and the word is never zero (the niche the crate promises).
\<close>

theorem packed_round_trip:
  assumes "alloc_ok alloc" and "ascii s" and "length s \<le> MAX_LEN"
    and "alloc (bytes_for_varint (of_nat (length s)) + length s) h \<noteq> 0"
  shows "\<exists>r h'. new_unchecked alloc s h = Some (r, h') \<and> ident_as_str h' r = Some s \<and>
    (ident_is_empty r \<longleftrightarrow> s = []) \<and> r \<noteq> 0"
proof -
  have "new_unchecked alloc s h \<noteq> None"
    using assms(3,4) by (simp add: new_unchecked_def MAX_LEN_def Let_def split: prod.splits)
  then obtain r h' where n: "new_unchecked alloc s h = Some (r, h')" by auto
  have "rep h' r s" using new_unchecked_ok [OF n assms(1,2)] by simp
  then show ?thesis using n rep_as_str rep_is_empty rep_nonzero by blast
qed

theorem packed_round_trip_witness:
  "\<exists>r h'. new_unchecked two_slots ''beta.2024-11-05'' Map.empty = Some (r, h') \<and>
     ident_as_str h' r = Some ''beta.2024-11-05''"
proof -
  have "ascii ''beta.2024-11-05''" by code_simp
  then show ?thesis
    using packed_round_trip [OF two_slots_ok, of "''beta.2024-11-05''" Map.empty]
      bytes_for_varint_le [of "of_nat (length ''beta.2024-11-05'')"]
    by (auto simp: MAX_LEN_def two_slots_def)
qed

text \<open>
  C19. Comparing packed words is comparing texts: equality with its pointer fast path is text
  equality, and the orders of pre-releases and of build metadata, which take the same short cut,
  are the orders of the texts.
\<close>

theorem packed_comparisons:
  assumes "rep h a s" and "rep h b t"
  shows "ident_eq h a b = Some (s = t) \<and>
    prerelease_cmp (a = b) (Prerelease s) (Prerelease t) = pre_cmp (Prerelease s) (Prerelease t) \<and>
    build_cmp (a = b) (BuildMetadata s) (BuildMetadata t) =
      build_order (BuildMetadata s) (BuildMetadata t)"
proof -
  have same: "s = t" if "a = b"
    using rep_as_str [OF assms(1)] rep_as_str [OF assms(2)] that by simp
  have "a = b" if "s = []" "t = []" using assms that by (simp add: rep_def)
  then have "prerelease_cmp (a = b) (Prerelease s) (Prerelease t) =
      ord_cmp (pre_key (Prerelease s)) (pre_key (Prerelease t))"
    using same by (intro prerelease_cmp_key) (auto simp: pre_is_empty_def)
  moreover have "build_cmp (a = b) (BuildMetadata s) (BuildMetadata t) =
      ord_cmp (build_key (BuildMetadata s)) (build_key (BuildMetadata t))"
    using same by (intro build_cmp_key) auto
  ultimately show ?thesis
    using rep_eq [OF assms] by (simp add: pre_cmp_key build_order_key)
qed

theorem packed_comparisons_witness:
  "prerelease_cmp False (Prerelease ''rc.1'') (Prerelease ''rc.10'') =
     pre_cmp (Prerelease ''rc.1'') (Prerelease ''rc.10'')"
proof -
  have a: "ascii ''rc.1''" "ascii ''rc.10''" by code_simp+
  obtain u where u: "u = le_word (bytes_of ''rc.1'')" by simp
  obtain v where v: "v = le_word (bytes_of ''rc.10'')" by simp
  have r: "rep Map.empty u ''rc.1''" "rep Map.empty v ''rc.10''"
    unfolding rep_def u v using a by (simp_all add: MAX_LEN_def)
  have "inline_as_str u = ''rc.1''" "inline_as_str v = ''rc.10''"
    unfolding u v by (rule inline_text [THEN conjunct1]; simp add: a)+
  then have "u \<noteq> v" by auto
  with packed_comparisons [OF r] show ?thesis by simp
qed

text \<open>
  C14. Lifetimes: whatever identifiers a program creates, clones and drops, in any order, every
  live one still reads as the text it was made from, dropping it frees its own allocation with
  the right layout, and the allocations are exactly those of the live identifiers, one each; so
  when the last one is dropped nothing is left, and nothing is freed twice.
\<close>

theorem identifiers_own_memory:
  assumes "alloc_ok alloc" and "list_all op_ascii ops"
    and "ident_run alloc ops (Map.empty, []) = Some (h, ids)"
  shows "(\<forall>(r, s) \<in> set ids. ident_as_str h r = Some s \<and> ident_drop h r \<noteq> None) \<and>
    card (dom h) = length (filter (\<lambda>(r, s). length s > 8) ids) \<and> (ids = [] \<longrightarrow> h = Map.empty)"
proof -
  have "owns Map.empty []" by (simp add: owns_def)
  from owns_run [OF assms(1,2) this assms(3)] have o: "owns h ids" .
  have "card (dom h) = length (ptrs ids)" using o by (simp add: owns_def distinct_card)
  moreover have "\<forall>(r, s) \<in> set ids. ident_as_str h r = Some s \<and> ident_drop h r \<noteq> None"
    using o by (auto simp: owns_def rep_as_str drop_ok)
  moreover have "ids = [] \<longrightarrow> h = Map.empty" using o by (auto simp: owns_def)
  ultimately show ?thesis by (simp add: ptrs_def)
qed

theorem identifiers_own_memory_witness:
  "\<exists>h. ident_run two_slots [New ''alpha.beta.gamma'', Drop 0] (Map.empty, [])
     = Some (h, []) \<and> h = Map.empty"
proof -
  obtain s where s: "s = ''alpha.beta.gamma''" by simp
  let ?ops = "[New s, Drop 0]"
  have a: "ascii s" unfolding s by code_simp
  have "new_unchecked two_slots s Map.empty \<noteq> None"
    using bytes_for_varint_le [of "of_nat (length s)"]
    by (simp add: new_unchecked_def two_slots_def Let_def s split: prod.splits)
  then obtain r h where n: "new_unchecked two_slots s Map.empty = Some (r, h)" by auto
  have "rep h r s" using new_unchecked_ok [OF n two_slots_ok a] by blast
  from drop_ok [OF this] have "\<exists>h'. ident_run two_slots ?ops (Map.empty, []) = Some (h', [])"
    by (simp add: n)
  then obtain h' where r: "ident_run two_slots ?ops (Map.empty, []) = Some (h', [])" by blast
  have "list_all op_ascii ?ops" using a by simp
  from identifiers_own_memory [OF two_slots_ok this r] r show ?thesis unfolding s by blast
qed

end
