(* ===== verification/Array_Vec.thy ===== *)
theory Array_Vec
  imports Prelude
begin

text \<open>
  \<open>arrayvec.rs\<close>, \<open>arrayvec_impl.rs\<close> and \<open>errors.rs\<close> of arrayvec: a vector of fixed
  capacity over an array of possibly uninitialised cells. This theory holds the structure, the
  pointer operations, the trait's provided methods, insertion, removal, draining and \<open>retain\<close>;
  extension, cloning and the by-value iterator are in \<open>Array_Vec_Iter\<close>.

  A cell is \<open>Some x\<close> when it holds a value and \<open>None\<close> when it was never written; reading a
  cell leaves it as it is (\<open>ptr::read\<close> copies bits). Undefined behaviour (an access outside the
  buffer, a read of an uninitialised cell) and panics are outcomes of their own; a panic carries
  the state the unwinding leaves. The field \<open>av_dropped\<close> is no field of the struct: it logs the
  elements whose destructor has run. Destructors do not panic, except in \<open>retain\<close>.
\<close>

section \<open>Outcomes\<close>

datatype ('r, 's) outcome = Undefined | Panics string 's | Returns 'r 's

fun and_run :: "('r, 's) outcome \<Rightarrow> ('r \<Rightarrow> 's \<Rightarrow> ('q, 's) outcome) \<Rightarrow> ('q, 's) outcome" where
  "and_run Undefined f = Undefined"
| "and_run (Panics m s) f = Panics m s"
| "and_run (Returns r s) f = f r s"

lemma and_run_assoc: "and_run (and_run m f) g = and_run m (\<lambda>r s. and_run (f r s) g)"
  by (cases m) auto

section \<open>Errors\<close>

datatype 'a capacity_error = CapacityError (element: 'a)

definition simplify_error :: "'a capacity_error \<Rightarrow> unit capacity_error" where
  "simplify_error e = CapacityError ()"

definition CAPERROR :: string where
  "CAPERROR = ''insufficient capacity''"

definition caperror_debug :: string where
  "caperror_debug = ''CapacityError'' @ '': '' @ CAPERROR"

definition unwrap_panic :: string where
  "unwrap_panic = ''called `Result::unwrap()` on an `Err` value: '' @ caperror_debug"

definition panic_oob :: "string \<Rightarrow> nat \<Rightarrow> nat \<Rightarrow> string" where
  "panic_oob method_name index len = ''ArrayVec::'' @ method_name @ '': index '' @ show_nat index @
     '' is out of bounds in vector of length '' @ show_nat len"

section \<open>The structure and its pointers\<close>

record 'a array_vec =
  av_len :: u32
  av_xs :: "'a option list"
  av_dropped :: "'a list"

definition LEN_MAX :: nat where
  "LEN_MAX = 2 ^ 32 - 1"

definition av_new :: "nat \<Rightarrow> string + 'a array_vec" where
  "av_new cap =
     (if cap > LEN_MAX then Inl ''ArrayVec: largest supported capacity is u32::MAX''
      else Inr \<lparr>av_len = 0, av_xs = replicate cap None, av_dropped = []\<rparr>)"

definition av_length :: "'a array_vec \<Rightarrow> nat" where
  "av_length v = unat (av_len v)"

definition av_capacity :: "'a array_vec \<Rightarrow> nat" where
  "av_capacity v = length (av_xs v)"

definition av_is_empty :: "'a array_vec \<Rightarrow> bool" where
  "av_is_empty v \<longleftrightarrow> av_length v = 0"

definition av_is_full :: "'a array_vec \<Rightarrow> bool" where
  "av_is_full v \<longleftrightarrow> av_length v = av_capacity v"

definition av_remaining_capacity :: "'a array_vec \<Rightarrow> nat" where
  "av_remaining_capacity v = av_capacity v - av_length v"

text \<open>The debug assertion of \<open>set_len\<close> is part of the model; no operation trips it.\<close>

definition av_set_len :: "nat \<Rightarrow> 'a array_vec \<Rightarrow> (unit, 'a array_vec) outcome" where
  "av_set_len n v =
     (if \<not> n \<le> av_capacity v then Panics ''assertion failed: length <= self.capacity()'' v
      else Returns () (v\<lparr>av_len := of_nat n\<rparr>))"

definition log_drops :: "'a list \<Rightarrow> 'a array_vec \<Rightarrow> 'a array_vec" where
  "log_drops ys v = v\<lparr>av_dropped := av_dropped v @ ys\<rparr>"

definition ptr_read :: "nat \<Rightarrow> 'a array_vec \<Rightarrow> ('a, 'a array_vec) outcome" where
  "ptr_read i v =
     (if i < length (av_xs v)
      then case av_xs v ! i of None \<Rightarrow> Undefined | Some x \<Rightarrow> Returns x v
      else Undefined)"

definition ptr_write :: "nat \<Rightarrow> 'a \<Rightarrow> 'a array_vec \<Rightarrow> (unit, 'a array_vec) outcome" where
  "ptr_write i x v =
     (if i < length (av_xs v) then Returns () (v\<lparr>av_xs := (av_xs v)[i := Some x]\<rparr>) else Undefined)"

definition ptr_copy :: "nat \<Rightarrow> nat \<Rightarrow> nat \<Rightarrow> 'a array_vec \<Rightarrow> (unit, 'a array_vec) outcome" where
  "ptr_copy src dst n v =
     (if src + n \<le> length (av_xs v) \<and> dst + n \<le> length (av_xs v)
      then Returns () (v\<lparr>av_xs := memmove src dst n (av_xs v)\<rparr>) else Undefined)"

definition ptr_copy_nonoverlapping ::
  "nat \<Rightarrow> nat \<Rightarrow> nat \<Rightarrow> 'a array_vec \<Rightarrow> (unit, 'a array_vec) outcome" where
  "ptr_copy_nonoverlapping src dst n v =
     (if src + n \<le> dst \<or> dst + n \<le> src then ptr_copy src dst n v else Undefined)"

text \<open>Copying in from another buffer, and reading \<open>n\<close> cells as a slice.\<close>

definition ptr_copy_from :: "'a list \<Rightarrow> nat \<Rightarrow> 'a array_vec \<Rightarrow> (unit, 'a array_vec) outcome" where
  "ptr_copy_from ys dst v =
     (if dst + length ys \<le> length (av_xs v)
      then Returns () (v\<lparr>av_xs := blit (map Some ys) dst (av_xs v)\<rparr>) else Undefined)"

definition from_raw_parts :: "nat \<Rightarrow> nat \<Rightarrow> 'a array_vec \<Rightarrow> 'a list option" where
  "from_raw_parts i n v =
     (if i + n \<le> length (av_xs v) then those (take n (drop i (av_xs v))) else None)"

definition av_as_slice :: "'a array_vec \<Rightarrow> 'a list option" where
  "av_as_slice v = from_raw_parts 0 (av_length v) v"

definition drop_in_place :: "nat \<Rightarrow> nat \<Rightarrow> 'a array_vec \<Rightarrow> (unit, 'a array_vec) outcome" where
  "drop_in_place i n v =
     (case from_raw_parts i n v of None \<Rightarrow> Undefined | Some ys \<Rightarrow> Returns () (log_drops ys v))"

section \<open>The provided methods of the trait\<close>

definition av_push_unchecked :: "'a \<Rightarrow> 'a array_vec \<Rightarrow> (unit, 'a array_vec) outcome" where
  "av_push_unchecked x v =
     (let len = av_length v in
      if \<not> len < av_capacity v then Panics ''assertion failed: len < Self::CAPACITY'' v
      else and_run (ptr_write len x v) (\<lambda>_. av_set_len (len + 1)))"

definition av_try_push ::
  "'a \<Rightarrow> 'a array_vec \<Rightarrow> ('a capacity_error + unit, 'a array_vec) outcome" where
  "av_try_push x v =
     (if av_length v < av_capacity v
      then and_run (av_push_unchecked x v) (\<lambda>_. Returns (Inr ()))
      else Returns (Inl (CapacityError x)) v)"

text \<open>\<open>unwrap\<close> of an error panics; unwinding drops the element the error carries.\<close>

fun unwrap_push ::
  "'a capacity_error + unit \<Rightarrow> 'a array_vec \<Rightarrow> (unit, 'a array_vec) outcome" where
  "unwrap_push (Inr u) v = Returns () v"
| "unwrap_push (Inl e) v = Panics unwrap_panic (log_drops [element e] v)"

definition av_push :: "'a \<Rightarrow> 'a array_vec \<Rightarrow> (unit, 'a array_vec) outcome" where
  "av_push x v = and_run (av_try_push x v) unwrap_push"

definition av_pop :: "'a array_vec \<Rightarrow> ('a option, 'a array_vec) outcome" where
  "av_pop v =
     (if av_length v = 0 then Returns None v
      else let new_len = av_length v - 1 in
        and_run (av_set_len new_len v) (\<lambda>_ v.
        and_run (ptr_read new_len v) (\<lambda>x. Returns (Some x))))"

definition av_truncate :: "nat \<Rightarrow> 'a array_vec \<Rightarrow> (unit, 'a array_vec) outcome" where
  "av_truncate new_len v =
     (let len = av_length v in
      if new_len < len
      then and_run (av_set_len new_len v) (\<lambda>_. drop_in_place new_len (len - new_len))
      else Returns () v)"

definition av_clear :: "'a array_vec \<Rightarrow> (unit, 'a array_vec) outcome" where
  "av_clear v = av_truncate 0 v"

text \<open>\<open>Drop for ArrayVec\<close>.\<close>

definition av_drop :: "'a array_vec \<Rightarrow> (unit, 'a array_vec) outcome" where
  "av_drop v = av_clear v"

section \<open>Insertion and removal\<close>

definition av_try_insert ::
  "nat \<Rightarrow> 'a \<Rightarrow> 'a array_vec \<Rightarrow> ('a capacity_error + unit, 'a array_vec) outcome" where
  "av_try_insert index x v =
     (let len = av_length v in
      if index > len then Panics (panic_oob ''try_insert'' index len) (log_drops [x] v)
      else if len = av_capacity v then Returns (Inl (CapacityError x)) v
      else and_run (ptr_copy index (index + 1) (len - index) v) (\<lambda>_ v.
           and_run (ptr_write index x v) (\<lambda>_ v.
           and_run (av_set_len (len + 1) v) (\<lambda>_. Returns (Inr ())))))"

definition av_insert :: "nat \<Rightarrow> 'a \<Rightarrow> 'a array_vec \<Rightarrow> (unit, 'a array_vec) outcome" where
  "av_insert index x v = and_run (av_try_insert index x v) unwrap_push"

text \<open>\<open>[T]::swap\<close> on the initialised part.\<close>

definition slice_swap :: "nat \<Rightarrow> nat \<Rightarrow> 'a array_vec \<Rightarrow> (unit, 'a array_vec) outcome" where
  "slice_swap i j v =
     (if i < av_length v \<and> j < av_length v
      then Returns () (v\<lparr>av_xs := (av_xs v)[i := av_xs v ! j, j := av_xs v ! i]\<rparr>)
      else Panics ''index out of bounds'' v)"

definition av_swap_pop :: "nat \<Rightarrow> 'a array_vec \<Rightarrow> ('a option, 'a array_vec) outcome" where
  "av_swap_pop index v =
     (let len = av_length v in
      if index \<ge> len then Returns None v
      else and_run (slice_swap index (len - 1) v) (\<lambda>_. av_pop))"

fun unwrap_index ::
  "string \<Rightarrow> nat \<Rightarrow> 'a option \<Rightarrow> 'a array_vec \<Rightarrow> ('a, 'a array_vec) outcome" where
  "unwrap_index name index (Some x) v = Returns x v"
| "unwrap_index name index None v = Panics (panic_oob name index (av_length v)) v"

definition av_swap_remove :: "nat \<Rightarrow> 'a array_vec \<Rightarrow> ('a, 'a array_vec) outcome" where
  "av_swap_remove index v = and_run (av_swap_pop index v) (unwrap_index ''swap_remove'' index)"

section \<open>Draining\<close>

text \<open>
  The iterator over the removed range is the pair of its remaining ends; the vector it borrows is
  a field of the model's record.
\<close>

record 'a drain =
  dr_tail_start :: nat
  dr_tail_len :: nat
  dr_front :: nat
  dr_back :: nat
  dr_vec :: "'a array_vec"

datatype bound = Included nat | Excluded nat | Unbounded

definition saturating_succ :: "nat \<Rightarrow> nat" where
  "saturating_succ i = (if i \<ge> 2 ^ 64 - 1 then 2 ^ 64 - 1 else i + 1)"

fun range_start :: "bound \<Rightarrow> nat" where
  "range_start Unbounded = 0"
| "range_start (Included i) = i"
| "range_start (Excluded i) = saturating_succ i"

fun range_end :: "nat \<Rightarrow> bound \<Rightarrow> nat" where
  "range_end len (Excluded j) = j"
| "range_end len (Included j) = saturating_succ j"
| "range_end len Unbounded = len"

definition order_fail :: "nat \<Rightarrow> nat \<Rightarrow> string" where
  "order_fail start finish =
     ''slice index starts at '' @ show_nat start @ '' but ends at '' @ show_nat finish"

definition end_fail :: "nat \<Rightarrow> nat \<Rightarrow> string" where
  "end_fail finish len =
     ''range end index '' @ show_nat finish @ '' out of range for slice of length '' @ show_nat len"

definition av_drain_range ::
  "nat \<Rightarrow> nat \<Rightarrow> 'a array_vec \<Rightarrow> ('a drain, 'a array_vec) outcome" where
  "av_drain_range start finish v =
     (let len = av_length v in
      if start > finish then Panics (order_fail start finish) v
      else if finish > len then Panics (end_fail finish len) v
      else let v = v\<lparr>av_len := of_nat start\<rparr> in
        Returns \<lparr>dr_tail_start = finish, dr_tail_len = len - finish, dr_front = start, dr_back = finish,
                 dr_vec = v\<rparr> v)"

definition av_drain :: "bound \<Rightarrow> bound \<Rightarrow> 'a array_vec \<Rightarrow> ('a drain, 'a array_vec) outcome" where
  "av_drain from_bound to_bound v =
     (let len = av_length v in
      av_drain_range (range_start from_bound) (range_end len to_bound) v)"

definition dr_next :: "'a drain \<Rightarrow> ('a option, 'a drain) outcome" where
  "dr_next d =
     (if dr_front d < dr_back d
      then case ptr_read (dr_front d) (dr_vec d) of
          Returns x v \<Rightarrow> Returns (Some x) (d\<lparr>dr_front := dr_front d + 1, dr_vec := v\<rparr>)
        | Panics m v \<Rightarrow> Panics m (d\<lparr>dr_vec := v\<rparr>)
        | Undefined \<Rightarrow> Undefined
      else Returns None d)"

definition dr_next_back :: "'a drain \<Rightarrow> ('a option, 'a drain) outcome" where
  "dr_next_back d =
     (if dr_front d < dr_back d
      then case ptr_read (dr_back d - 1) (dr_vec d) of
          Returns x v \<Rightarrow> Returns (Some x) (d\<lparr>dr_back := dr_back d - 1, dr_vec := v\<rparr>)
        | Panics m v \<Rightarrow> Panics m (d\<lparr>dr_vec := v\<rparr>)
        | Undefined \<Rightarrow> Undefined
      else Returns None d)"

definition dr_size_hint :: "'a drain \<Rightarrow> nat \<times> nat option" where
  "dr_size_hint d = (dr_back d - dr_front d, Some (dr_back d - dr_front d))"

lemma dr_next_shrinks:
  "dr_next d = Returns (Some x) d' \<Longrightarrow> dr_back d' - dr_front d' < dr_back d - dr_front d"
  by (auto simp: dr_next_def ptr_read_def split: if_splits option.splits)

text \<open>\<open>while let Some(_) = self.next() {}\<close>: each element is dropped as it comes.\<close>

function dr_exhaust :: "'a drain \<Rightarrow> (unit, 'a drain) outcome" where
  "dr_exhaust d =
     (case dr_next d of
        Returns (Some x) d' \<Rightarrow> dr_exhaust (d'\<lparr>dr_vec := log_drops [x] (dr_vec d')\<rparr>)
      | Returns None d' \<Rightarrow> Returns () d'
      | Panics m d' \<Rightarrow> Panics m d'
      | Undefined \<Rightarrow> Undefined)"
  by pat_completeness auto

termination dr_exhaust
  by (relation "measure (\<lambda>d. dr_back d - dr_front d)") (auto dest: dr_next_shrinks)

declare dr_exhaust.simps [simp del]

definition dr_drop :: "'a drain \<Rightarrow> (unit, 'a array_vec) outcome" where
  "dr_drop d =
     (case dr_exhaust d of
        Undefined \<Rightarrow> Undefined
      | Panics m d \<Rightarrow> Panics m (dr_vec d)
      | Returns _ d \<Rightarrow>
          if dr_tail_len d > 0 then
            let source_vec = dr_vec d; start = av_length source_vec; tail = dr_tail_start d in
            and_run (ptr_copy tail start (dr_tail_len d) source_vec) (\<lambda>_.
              av_set_len (start + dr_tail_len d))
          else Returns () (dr_vec d))"

text \<open>\<open>pop_at\<close> takes the one element of a drain and drops the drain.\<close>

definition av_pop_at :: "nat \<Rightarrow> 'a array_vec \<Rightarrow> ('a option, 'a array_vec) outcome" where
  "av_pop_at index v =
     (if index \<ge> av_length v then Returns None v
      else and_run (av_drain (Included index) (Excluded (index + 1)) v) (\<lambda>d _.
        case dr_next d of
          Undefined \<Rightarrow> Undefined
        | Panics m d \<Rightarrow> Panics m (dr_vec d)
        | Returns r d \<Rightarrow> and_run (dr_drop d) (\<lambda>_. Returns r)))"

definition av_remove :: "nat \<Rightarrow> 'a array_vec \<Rightarrow> ('a, 'a array_vec) outcome" where
  "av_remove index v = and_run (av_pop_at index v) (unwrap_index ''remove'' index)"

section \<open>Retaining\<close>

text \<open>
  The guard \<open>BackshiftOnDrop\<close>. The closure is a step on its own state \<open>'s\<close>: given an element
  it answers its new state, the element after its mutation, and whether to keep it, \<open>None\<close> when
  it panics. \<open>dp x\<close> says that the destructor of \<open>x\<close> panics.
\<close>

record 'a backshift =
  bs_v :: "'a array_vec"
  processed_len :: nat
  deleted_cnt :: nat
  original_len :: nat

type_synonym ('s, 'a) closure = "'s \<Rightarrow> 'a \<Rightarrow> 's \<times> 'a \<times> bool option"

definition backshift_drop :: "'a backshift \<Rightarrow> (unit, 'a array_vec) outcome" where
  "backshift_drop g =
     and_run
       (if deleted_cnt g > 0
        then ptr_copy (processed_len g) (processed_len g - deleted_cnt g)
               (original_len g - processed_len g) (bs_v g)
        else Returns () (bs_v g))
       (\<lambda>_. av_set_len (original_len g - deleted_cnt g))"

text \<open>Running an operation of the vector inside the guard.\<close>

fun in_guard ::
  "('r, 'a array_vec) outcome \<Rightarrow> 's \<Rightarrow> 'a backshift \<Rightarrow> ('r, 's \<times> 'a backshift) outcome" where
  "in_guard Undefined s g = Undefined"
| "in_guard (Panics m v) s g = Panics m (s, g\<lparr>bs_v := v\<rparr>)"
| "in_guard (Returns r v) s g = Returns r (s, g\<lparr>bs_v := v\<rparr>)"

definition process_one ::
  "bool \<Rightarrow> ('s, 'a) closure \<Rightarrow> ('a \<Rightarrow> bool) \<Rightarrow> 's \<times> 'a backshift \<Rightarrow>
   (bool, 's \<times> 'a backshift) outcome" where
  "process_one deleted f dp = (\<lambda>(s, g).
     and_run (in_guard (ptr_read (processed_len g) (bs_v g)) s g) (\<lambda>x (s, g).
       case f s x of (s, x, keep) \<Rightarrow>
       and_run (in_guard (ptr_write (processed_len g) x (bs_v g)) s g) (\<lambda>_ (s, g).
         case keep of
           None \<Rightarrow> Panics ''closure panicked'' (s, g)
         | Some False \<Rightarrow>
             let g = g\<lparr>processed_len := processed_len g + 1, deleted_cnt := deleted_cnt g + 1,
                       bs_v := log_drops [x] (bs_v g)\<rparr> in
             if dp x then Panics ''destructor panicked'' (s, g) else Returns False (s, g)
         | Some True \<Rightarrow>
             and_run
               (if deleted
                then in_guard (ptr_copy_nonoverlapping (processed_len g)
                       (processed_len g - deleted_cnt g) 1 (bs_v g)) s g
                else Returns () (s, g))
               (\<lambda>_ (s, g). Returns True (s, g\<lparr>processed_len := processed_len g + 1\<rparr>)))))"

lemma process_one_progress:
  "process_one deleted f dp (s, g) = Returns r (s', g') \<Longrightarrow>
     processed_len g' = processed_len g + 1 \<and> length (av_xs (bs_v g')) = length (av_xs (bs_v g)) \<and>
     processed_len g < length (av_xs (bs_v g))"
  by (auto simp: process_one_def ptr_read_def ptr_write_def ptr_copy_nonoverlapping_def
      ptr_copy_def log_drops_def Let_def split: if_splits option.splits bool.splits prod.splits)

text \<open>The two stages: until the first deletion, and after it.\<close>

function retain_stage1 ::
  "('s, 'a) closure \<Rightarrow> ('a \<Rightarrow> bool) \<Rightarrow> 's \<times> 'a backshift \<Rightarrow> (unit, 's \<times> 'a backshift) outcome" where
  "retain_stage1 f dp (s, g) =
     (if processed_len g \<noteq> original_len g
      then case process_one False f dp (s, g) of
          Returns True (s, g) \<Rightarrow> retain_stage1 f dp (s, g)
        | Returns False (s, g) \<Rightarrow> Returns () (s, g)
        | Panics m (s, g) \<Rightarrow> Panics m (s, g)
        | Undefined \<Rightarrow> Undefined
      else Returns () (s, g))"
  by pat_completeness auto

termination retain_stage1
  by (relation "measure (\<lambda>(_, _, _, g). length (av_xs (bs_v g)) - processed_len g)")
    (auto dest!: process_one_progress)

function retain_stage2 ::
  "('s, 'a) closure \<Rightarrow> ('a \<Rightarrow> bool) \<Rightarrow> 's \<times> 'a backshift \<Rightarrow> (unit, 's \<times> 'a backshift) outcome" where
  "retain_stage2 f dp (s, g) =
     (if processed_len g \<noteq> original_len g
      then case process_one True f dp (s, g) of
          Returns _ (s, g) \<Rightarrow> retain_stage2 f dp (s, g)
        | Panics m (s, g) \<Rightarrow> Panics m (s, g)
        | Undefined \<Rightarrow> Undefined
      else Returns () (s, g))"
  by pat_completeness auto

termination retain_stage2
  by (relation "measure (\<lambda>(_, _, _, g). length (av_xs (bs_v g)) - processed_len g)")
    (auto dest!: process_one_progress)

declare retain_stage1.simps [simp del] retain_stage2.simps [simp del]

text \<open>The guard is dropped at the end of the function, and by unwinding.\<close>

definition av_retain ::
  "('s, 'a) closure \<Rightarrow> ('a \<Rightarrow> bool) \<Rightarrow> 's \<Rightarrow> 'a array_vec \<Rightarrow> ('s, 'a array_vec) outcome" where
  "av_retain f dp s v =
     (let original_len = av_length v in
      and_run (av_set_len 0 v) (\<lambda>_ v.
        let g = \<lparr>bs_v = v, processed_len = 0, deleted_cnt = 0, original_len = original_len\<rparr> in
        case and_run (retain_stage1 f dp (s, g)) (\<lambda>_. retain_stage2 f dp) of
          Undefined \<Rightarrow> Undefined
        | Panics m (s, g) \<Rightarrow>
            (case backshift_drop g of Returns _ v \<Rightarrow> Panics m v | Panics m' v \<Rightarrow> Panics m' v
             | Undefined \<Rightarrow> Undefined)
        | Returns _ (s, g) \<Rightarrow> and_run (backshift_drop g) (\<lambda>_. Returns s)))"

section \<open>Bounded sequences, the contract of the vector\<close>

text \<open>
  What the vector promises: a list of at most \<open>bd_cap\<close> elements, with the same log of dropped
  elements. An operation implements a specification when it returns (or panics) exactly when the
  specification does, with the same answer and a state that stands for the specified one; so it
  is never undefined.
\<close>

record 'a bounded =
  bd_cap :: nat
  bd_elems :: "'a list"
  bd_dropped :: "'a list"

definition models :: "'a array_vec \<Rightarrow> 'a bounded \<Rightarrow> bool" where
  "models v s \<longleftrightarrow> av_length v = length (bd_elems s) \<and> av_capacity v = bd_cap s \<and> bd_cap s \<le> LEN_MAX \<and>
     take (length (bd_elems s)) (av_xs v) = map Some (bd_elems s) \<and> av_dropped v = bd_dropped s"

fun outcome_rel :: "('s \<Rightarrow> 't \<Rightarrow> bool) \<Rightarrow> ('r, 's) outcome \<Rightarrow> ('r, 't) outcome \<Rightarrow> bool" where
  "outcome_rel rel (Returns r v) (Returns r' s) \<longleftrightarrow> r = r' \<and> rel v s"
| "outcome_rel rel (Panics m v) (Panics m' s) \<longleftrightarrow> m = m' \<and> rel v s"
| "outcome_rel rel _ _ \<longleftrightarrow> False"

abbreviation refines :: "('r, 'a array_vec) outcome \<Rightarrow> ('r, 'a bounded) outcome \<Rightarrow> bool" where
  "refines \<equiv> outcome_rel models"

lemma refines_and_run:
  "outcome_rel rel m m' \<Longrightarrow> (\<And>r v s. rel v s \<Longrightarrow> outcome_rel rel (f r v) (f' r s)) \<Longrightarrow>
   outcome_rel rel (and_run m f) (and_run m' f')"
  by (cases m; cases m') auto

text \<open>
  A client that runs operations one after the other, catching every panic: what it sees of an
  outcome, and the run of a list of operations. A step that is undefined ends the run.
\<close>

fun observed :: "(string \<Rightarrow> 'o) \<Rightarrow> ('r \<Rightarrow> 'o) \<Rightarrow> ('r, 's) outcome \<Rightarrow> ('o \<times> 's) option" where
  "observed panicked f Undefined = None"
| "observed panicked f (Panics m s) = Some (panicked m, s)"
| "observed panicked f (Returns r s) = Some (f r, s)"

lemma observed_rel:
  "outcome_rel rel m m' \<Longrightarrow>
   \<exists>ob v s. observed p f m = Some (ob, v) \<and> observed p f m' = Some (ob, s) \<and> rel v s"
  by (cases m; cases m') auto

fun run_ops :: "('op \<Rightarrow> 's \<Rightarrow> ('o \<times> 's) option) \<Rightarrow> 'op list \<Rightarrow> 's \<Rightarrow> ('o list \<times> 's) option" where
  "run_ops step [] s = Some ([], s)"
| "run_ops step (op # ops) s =
     (case step op s of None \<Rightarrow> None
      | Some (ob, s) \<Rightarrow> map_option (\<lambda>(obs, s). (ob # obs, s)) (run_ops step ops s))"

text \<open>The contract between a machine and its specification, step by step, gives it for runs.\<close>

locale implements_spec =
  fixes rel :: "'s \<Rightarrow> 't \<Rightarrow> bool"
    and step :: "'op \<Rightarrow> 's \<Rightarrow> ('o \<times> 's) option"
    and spec_step :: "'op \<Rightarrow> 't \<Rightarrow> ('o \<times> 't) option"
    and allowed :: "'op \<Rightarrow> bool"
  assumes step_rel: "rel s t \<Longrightarrow> allowed op \<Longrightarrow>
    \<exists>ob s' t'. step op s = Some (ob, s') \<and> spec_step op t = Some (ob, t') \<and> rel s' t'"
begin

lemma run_rel:
  "rel s t \<Longrightarrow> list_all allowed ops \<Longrightarrow>
   \<exists>obs s' t'. run_ops step ops s = Some (obs, s') \<and> run_ops spec_step ops t = Some (obs, t') \<and> rel s' t'"
proof (induction ops arbitrary: s t)
  case (Cons op ops)
  obtain ob s' t' where st: "step op s = Some (ob, s')" "spec_step op t = Some (ob, t')" "rel s' t'"
    using step_rel [OF Cons.prems(1), of op] Cons.prems(2) by auto
  with Cons.IH [OF st(3)] Cons.prems(2) show ?case by auto
qed simp

end

text \<open>The normal form of a vector: its live elements, then the cells beyond.\<close>

definition vec :: "'a list \<Rightarrow> 'a option list \<Rightarrow> 'a list \<Rightarrow> 'a array_vec" where
  "vec ys rest ds = \<lparr>av_len = of_nat (length ys), av_xs = map Some ys @ rest, av_dropped = ds\<rparr>"

definition seq :: "'a list \<Rightarrow> nat \<Rightarrow> 'a list \<Rightarrow> 'a bounded" where
  "seq ys n ds = \<lparr>bd_cap = length ys + n, bd_elems = ys, bd_dropped = ds\<rparr>"

lemma unat_of_nat_le [simp]: "n \<le> LEN_MAX \<Longrightarrow> unat (of_nat n :: u32) = n"
  by (simp add: LEN_MAX_def unsigned_of_nat take_bit_nat_eq_self_iff)

lemma of_nat_unat_len: "of_nat (av_length v) = av_len v"
  by (simp add: av_length_def)

lemma models_vec [simp]:
  "models (vec ys rest ds) (seq ys n ds') \<longleftrightarrow>
     n = length rest \<and> length ys + n \<le> LEN_MAX \<and> ds = ds'"
  by (auto simp: models_def vec_def seq_def av_length_def av_capacity_def)

lemma modelsE:
  assumes "models v s"
  obtains ys rest ds where "v = vec ys rest ds" "s = seq ys (length rest) ds"
    "length ys + length rest \<le> LEN_MAX"
proof -
  let ?ys = "bd_elems s" and ?rest = "drop (length (bd_elems s)) (av_xs v)"
  have "av_xs v = map Some ?ys @ ?rest"
    using assms by (metis append_take_drop_id models_def)
  moreover have "length ?ys \<le> length (av_xs v)"
    using assms unfolding models_def by (metis length_map length_take min.cobounded1)
  moreover have "av_len v = of_nat (length ?ys)"
    using assms of_nat_unat_len [of v] by (simp add: models_def)
  ultimately show thesis
    using assms that [of ?ys ?rest "av_dropped v"]
    by (simp add: vec_def seq_def models_def av_capacity_def)
qed

lemma vec_simps [simp]:
  "length ys \<le> LEN_MAX \<Longrightarrow> av_length (vec ys rest ds) = length ys"
  "av_capacity (vec ys rest ds) = length ys + length rest"
  "av_xs (vec ys rest ds) = map Some ys @ rest"
  "log_drops zs (vec ys rest ds) = vec ys rest (ds @ zs)"
  by (simp_all add: vec_def av_length_def av_capacity_def log_drops_def)

lemma seq_simps [simp]:
  "bd_cap (seq ys n ds) = length ys + n"
  "bd_elems (seq ys n ds) = ys"
  "bd_dropped (seq ys n ds) = ds"
  "seq ys n ds\<lparr>bd_dropped := ds'\<rparr> = seq ys n ds'"
  by (simp_all add: seq_def)

lemma seq_elems: "length ys + n = length zs + m \<Longrightarrow> seq ys n ds\<lparr>bd_elems := zs\<rparr> = seq zs m ds"
  by (simp add: seq_def)

text \<open>Shortening the length moves live cells to the rest; writing and copying keep the shape.\<close>

lemma set_len_vec:
  "n \<le> length ys + length rest \<Longrightarrow> av_set_len n (vec ys rest ds) =
     Returns () \<lparr>av_len = of_nat n, av_xs = map Some ys @ rest, av_dropped = ds\<rparr>"
  by (simp add: av_set_len_def) (simp add: vec_def)

lemma vecI:
  "n = length zs \<Longrightarrow> xs = map Some zs @ rest \<Longrightarrow>
   \<lparr>av_len = of_nat n, av_xs = xs, av_dropped = ds\<rparr> = vec zs rest ds"
  by (simp add: vec_def)

lemma set_len_shrink:
  "n \<le> length ys \<Longrightarrow> av_set_len n (vec ys rest ds) =
     Returns () (vec (take n ys) (map Some (drop n ys) @ rest) ds)"
  by (simp add: set_len_vec) (rule vecI, simp_all flip: map_append append_assoc)

lemma set_len_grow:
  "av_set_len (Suc (length ys)) (vec ys (Some x # rest) ds) = Returns () (vec (ys @ [x]) rest ds)"
  by (subst set_len_vec) (auto intro: vecI simp del: of_nat_Suc)

lemma models_slice: "models v s \<Longrightarrow> av_as_slice v = Some (bd_elems s)"
  by (elim modelsE) (simp add: av_as_slice_def from_raw_parts_def)

lemma models_new: "av_new cap = Inr v \<Longrightarrow> models v \<lparr>bd_cap = cap, bd_elems = [], bd_dropped = []\<rparr>"
  by (auto simp: av_new_def models_def av_length_def av_capacity_def split: if_splits)

lemma ptr_read_vec:
  "i < length ys \<Longrightarrow> ptr_read i (vec ys rest ds) = Returns (ys ! i) (vec ys rest ds)"
  by (simp add: ptr_read_def nth_append)

lemma ptr_read_rest:
  "ptr_read (length ys) (vec ys (Some x # rest) ds) = Returns x (vec ys (Some x # rest) ds)"
  by (simp add: ptr_read_def nth_append)

lemma ptr_write_rest:
  "ptr_write (length ys) x (vec ys (c # rest) ds) = Returns () (vec ys (Some x # rest) ds)"
  by (simp add: ptr_write_def list_update_append) (simp add: vec_def)

section \<open>The operations implement their specifications\<close>

definition sp_try_push :: "'a \<Rightarrow> 'a bounded \<Rightarrow> ('a capacity_error + unit, 'a bounded) outcome" where
  "sp_try_push x s =
     (if length (bd_elems s) < bd_cap s then Returns (Inr ()) (s\<lparr>bd_elems := bd_elems s @ [x]\<rparr>)
      else Returns (Inl (CapacityError x)) s)"

fun sp_unwrap :: "'a capacity_error + unit \<Rightarrow> 'a bounded \<Rightarrow> (unit, 'a bounded) outcome" where
  "sp_unwrap (Inr u) s = Returns () s"
| "sp_unwrap (Inl e) s = Panics unwrap_panic (s\<lparr>bd_dropped := bd_dropped s @ [element e]\<rparr>)"

definition sp_pop :: "'a bounded \<Rightarrow> ('a option, 'a bounded) outcome" where
  "sp_pop s = (if bd_elems s = [] then Returns None s
     else Returns (Some (last (bd_elems s))) (s\<lparr>bd_elems := butlast (bd_elems s)\<rparr>))"

definition sp_truncate :: "nat \<Rightarrow> 'a bounded \<Rightarrow> (unit, 'a bounded) outcome" where
  "sp_truncate n s = Returns () (s\<lparr>bd_elems := take n (bd_elems s),
     bd_dropped := bd_dropped s @ drop n (bd_elems s)\<rparr>)"

definition sp_try_insert ::
  "nat \<Rightarrow> 'a \<Rightarrow> 'a bounded \<Rightarrow> ('a capacity_error + unit, 'a bounded) outcome" where
  "sp_try_insert i x s =
     (let ys = bd_elems s in
      if i > length ys then Panics (panic_oob ''try_insert'' i (length ys))
        (s\<lparr>bd_dropped := bd_dropped s @ [x]\<rparr>)
      else if length ys = bd_cap s then Returns (Inl (CapacityError x)) s
      else Returns (Inr ()) (s\<lparr>bd_elems := take i ys @ x # drop i ys\<rparr>))"

definition sp_swap_pop :: "nat \<Rightarrow> 'a bounded \<Rightarrow> ('a option, 'a bounded) outcome" where
  "sp_swap_pop i s =
     (let ys = bd_elems s in
      if i \<ge> length ys then Returns None s
      else Returns (Some (ys ! i)) (s\<lparr>bd_elems := butlast (ys[i := last ys])\<rparr>))"

fun sp_unwrap_index :: "string \<Rightarrow> nat \<Rightarrow> 'a option \<Rightarrow> 'a bounded \<Rightarrow> ('a, 'a bounded) outcome" where
  "sp_unwrap_index name i (Some x) s = Returns x s"
| "sp_unwrap_index name i None s = Panics (panic_oob name i (length (bd_elems s))) s"

definition sp_pop_at :: "nat \<Rightarrow> 'a bounded \<Rightarrow> ('a option, 'a bounded) outcome" where
  "sp_pop_at i s =
     (let ys = bd_elems s in
      if i \<ge> length ys then Returns None s
      else Returns (Some (ys ! i)) (s\<lparr>bd_elems := take i ys @ drop (Suc i) ys\<rparr>))"

lemma try_push_refines: "models v s \<Longrightarrow> refines (av_try_push x v) (sp_try_push x s)"
proof (elim modelsE)
  fix ys ds and rest :: "'a option list"
  assume v: "v = vec ys rest ds" "s = seq ys (length rest) ds" "length ys + length rest \<le> LEN_MAX"
  then show ?thesis
  proof (cases rest)
    case (Cons c rest')
    with v show ?thesis
      by (simp add: av_try_push_def sp_try_push_def av_push_unchecked_def ptr_write_rest
          set_len_grow seq_elems [where m = "length rest'"])
  qed (simp add: av_try_push_def sp_try_push_def)
qed

lemma unwrap_refines: "models v s \<Longrightarrow> refines (unwrap_push r v) (sp_unwrap r s)"
  by (cases r) (auto elim!: modelsE)

lemma push_refines: "models v s \<Longrightarrow> refines (av_push x v) (and_run (sp_try_push x s) sp_unwrap)"
  unfolding av_push_def by (intro refines_and_run try_push_refines unwrap_refines)

lemma pop_refines: "models v s \<Longrightarrow> refines (av_pop v) (sp_pop s)"
proof (elim modelsE)
  fix ys ds and rest :: "'a option list"
  assume v: "v = vec ys rest ds" "s = seq ys (length rest) ds" "length ys + length rest \<le> LEN_MAX"
  show ?thesis
  proof (cases ys rule: rev_cases)
    case (snoc zs x)
    with v show ?thesis
      using ptr_read_rest [of zs x rest ds]
      by (simp add: av_pop_def sp_pop_def set_len_shrink seq_elems [where m = "Suc (length rest)"])
  next
    case Nil
    with v show ?thesis by (simp add: av_pop_def sp_pop_def)
  qed
qed

lemma drop_rest:
  "drop_in_place (length ys) (length zs) (vec ys (map Some zs @ rest) ds) =
     Returns () (vec ys (map Some zs @ rest) (ds @ zs))"
  by (simp add: drop_in_place_def from_raw_parts_def)

lemma truncate_refines: "models v s \<Longrightarrow> refines (av_truncate n v) (sp_truncate n s)"
proof (elim modelsE)
  fix ys ds and rest :: "'a option list"
  assume v: "v = vec ys rest ds" "s = seq ys (length rest) ds" "length ys + length rest \<le> LEN_MAX"
  show ?thesis
  proof (cases "n < length ys")
    case True
    then show ?thesis
      using v drop_rest [of "take n ys" "drop n ys" rest ds]
      by (simp add: av_truncate_def sp_truncate_def set_len_shrink
          seq_elems [where m = "length (drop n ys) + length rest"])
  next
    case False
    with v show ?thesis by (simp add: av_truncate_def sp_truncate_def seq_elems Let_def)
  qed
qed

lemma insert_cells:
  assumes "i \<le> length ys"
  shows "(memmove i (Suc i) (length ys - i) (map Some ys @ c # rest))[i := Some x] =
    map Some (take i ys @ x # drop i ys) @ rest"
proof -
  obtain as bs where ys: "ys = as @ bs" "length as = i"
    using assms by (metis append_take_drop_id length_take min.absorb2)
  then show ?thesis
    by (cases bs) (simp_all add: memmove_def list_update_append)
qed

lemma try_insert_refines: "models v s \<Longrightarrow> refines (av_try_insert i x v) (sp_try_insert i x s)"
proof (elim modelsE)
  fix ys ds and rest :: "'a option list"
  assume v: "v = vec ys rest ds" "s = seq ys (length rest) ds" "length ys + length rest \<le> LEN_MAX"
  show ?thesis
  proof (cases "i > length ys \<or> rest = []")
    case True
    with v show ?thesis by (auto simp: av_try_insert_def sp_try_insert_def)
  next
    case False
    then obtain c rest' where r: "rest = c # rest'" and i: "i \<le> length ys"
      by (cases rest) auto
    let ?zs = "take i ys @ x # drop i ys"
    have n: "Suc (length ys) = length ?zs" using i by simp
    have "\<lparr>av_len = of_nat (Suc (length ys)), av_xs = map Some ?zs @ rest', av_dropped = ds\<rparr> =
        vec ?zs rest' ds"
      by (rule vecI [OF n refl])
    moreover have "vec ys rest ds\<lparr>av_xs := map Some ?zs @ rest', av_len := of_nat (Suc (length ys))\<rparr>
        = \<lparr>av_len = of_nat (Suc (length ys)), av_xs = map Some ?zs @ rest', av_dropped = ds\<rparr>"
      by (simp add: vec_def)
    ultimately show ?thesis
      using v r i insert_cells [OF i, of c rest' x]
      by (simp add: av_try_insert_def sp_try_insert_def ptr_copy_def ptr_write_def av_set_len_def
          av_capacity_def seq_elems [where m = "length rest'"] del: of_nat_Suc)
  qed
qed

lemma insert_refines:
  "models v s \<Longrightarrow> refines (av_insert i x v) (and_run (sp_try_insert i x s) sp_unwrap)"
  unfolding av_insert_def by (intro refines_and_run try_insert_refines unwrap_refines)

lemma slice_swap_vec:
  "i < length ys \<Longrightarrow> j < length ys \<Longrightarrow> length ys \<le> LEN_MAX \<Longrightarrow>
   slice_swap i j (vec ys rest ds) = Returns () (vec (ys[i := ys ! j, j := ys ! i]) rest ds)"
  by (simp add: slice_swap_def list_update_append nth_append map_update)
    (simp add: vec_def map_update)

lemma swap_pop_refines: "models v s \<Longrightarrow> refines (av_swap_pop i v) (sp_swap_pop i s)"
proof (elim modelsE)
  fix ys ds and rest :: "'a option list"
  assume v: "v = vec ys rest ds" "s = seq ys (length rest) ds" "length ys + length rest \<le> LEN_MAX"
  show ?thesis
  proof (cases "i < length ys")
    case True
    then obtain as x where ys: "ys = as @ [x]" by (cases ys rule: rev_cases) auto
    let ?zs = "ys[i := ys ! (length ys - 1), length ys - 1 := ys ! i]"
    have "models (vec ?zs rest ds) (seq ?zs (length rest) ds)" using v by simp
    from pop_refines [OF this] have p: "refines (av_pop (vec ?zs rest ds)) (sp_pop (seq ?zs (length rest) ds))" .
    have "sp_pop (seq ?zs (length rest) ds) = sp_swap_pop i s"
      using True v ys by (auto simp: sp_pop_def sp_swap_pop_def seq_elems nth_append
          list_update_append butlast_append seq_def split: if_splits)
    with p True v ys show ?thesis by (simp add: av_swap_pop_def slice_swap_vec)
  next
    case False
    with v show ?thesis by (simp add: av_swap_pop_def sp_swap_pop_def)
  qed
qed

lemma unwrap_index_refines:
  "models v s \<Longrightarrow> refines (unwrap_index name i r v) (sp_unwrap_index name i r s)"
  by (cases r) (auto simp: models_def)

lemma swap_remove_refines:
  "models v s \<Longrightarrow> refines (av_swap_remove i v) (and_run (sp_swap_pop i s) (sp_unwrap_index ''swap_remove'' i))"
  unfolding av_swap_remove_def by (intro refines_and_run swap_pop_refines unwrap_index_refines)

text \<open>
  Draining: between \<open>drain\<close> and the end of the borrow a client calls \<open>next\<close> and
  \<open>next_back\<close> as it likes; \<open>True\<close> stands for the back.
\<close>

fun drain_calls :: "bool list \<Rightarrow> 'a drain \<Rightarrow> ('a option list, 'a drain) outcome" where
  "drain_calls [] d = Returns [] d"
| "drain_calls (b # bs) d =
     and_run (if b then dr_next_back d else dr_next d) (\<lambda>r d.
     and_run (drain_calls bs d) (\<lambda>rs. Returns (r # rs)))"

definition drain_session ::
  "bound \<Rightarrow> bound \<Rightarrow> bool list \<Rightarrow> 'a array_vec \<Rightarrow> ('a option list, 'a array_vec) outcome" where
  "drain_session from_bound to_bound calls v =
     and_run (av_drain from_bound to_bound v) (\<lambda>d _.
       case drain_calls calls d of
         Undefined \<Rightarrow> Undefined
       | Panics m d \<Rightarrow> Panics m (dr_vec d)
       | Returns rs d \<Rightarrow> and_run (dr_drop d) (\<lambda>_. Returns rs))"

fun deque_calls :: "bool list \<Rightarrow> 'a list \<Rightarrow> 'a option list \<times> 'a list" where
  "deque_calls [] xs = ([], xs)"
| "deque_calls (b # bs) xs =
     (if xs = [] then let (rs, left) = deque_calls bs [] in (None # rs, left)
      else if b then let (rs, left) = deque_calls bs (butlast xs) in (Some (last xs) # rs, left)
      else let (rs, left) = deque_calls bs (tl xs) in (Some (hd xs) # rs, left))"

definition sp_drain ::
  "bound \<Rightarrow> bound \<Rightarrow> bool list \<Rightarrow> 'a bounded \<Rightarrow> ('a option list, 'a bounded) outcome" where
  "sp_drain from_bound to_bound calls s =
     (let ys = bd_elems s; start = range_start from_bound; to = range_end (length ys) to_bound in
      if start > to then Panics (order_fail start to) s
      else if to > length ys then Panics (end_fail to (length ys)) s
      else let (rs, left) = deque_calls calls (take (to - start) (drop start ys)) in
        Returns rs (s\<lparr>bd_elems := take start ys @ drop to ys, bd_dropped := bd_dropped s @ left\<rparr>))"

text \<open>
  The normal form of a drain: \<open>zs\<close> is what precedes the range, \<open>as @ ms @ bs\<close> the range with
  \<open>ms\<close> what is left of it, \<open>tl\<close> the tail.
\<close>

definition draining :: "'a list \<Rightarrow> 'a list \<Rightarrow> 'a list \<Rightarrow> 'a list \<Rightarrow> 'a list \<Rightarrow> 'a option list \<Rightarrow> 'a list
    \<Rightarrow> 'a drain" where
  "draining zs as ms bs ts rest ds =
     \<lparr>dr_tail_start = length (zs @ as @ ms @ bs), dr_tail_len = length ts,
      dr_front = length (zs @ as), dr_back = length (zs @ as @ ms),
      dr_vec = vec zs (map Some (as @ ms @ bs @ ts) @ rest) ds\<rparr>"

lemma draining_next:
  "dr_next (draining zs as (m # ms) bs ts rest ds) =
     Returns (Some m) (draining zs (as @ [m]) ms bs ts rest ds)"
  "dr_next (draining zs as [] bs ts rest ds) = Returns None (draining zs as [] bs ts rest ds)"
  by (simp_all add: dr_next_def draining_def ptr_read_def nth_append)

lemma draining_next_back:
  "dr_next_back (draining zs as (ms @ [m]) bs ts rest ds) =
     Returns (Some m) (draining zs as ms (m # bs) ts rest ds)"
  "dr_next_back (draining zs as [] bs ts rest ds) = Returns None (draining zs as [] bs ts rest ds)"
  by (simp_all add: dr_next_back_def draining_def ptr_read_def nth_append)

lemma draining_exhaust:
  "dr_exhaust (draining zs as ms bs ts rest ds) =
     Returns () (draining zs (as @ ms) [] bs ts rest (ds @ ms))"
proof (induction ms arbitrary: as ds)
  case Nil
  show ?case by (simp add: dr_exhaust.simps [of "draining zs as [] bs ts rest ds"] draining_next)
next
  case (Cons m ms)
  have "draining zs (as @ [m]) ms bs ts rest ds\<lparr>dr_vec := log_drops [m]
      (dr_vec (draining zs (as @ [m]) ms bs ts rest ds))\<rparr> = draining zs (as @ [m]) ms bs ts rest (ds @ [m])"
    by (simp add: draining_def)
  with Cons show ?case
    by (simp add: dr_exhaust.simps [of "draining zs as (m # ms) bs ts rest ds"] draining_next)
qed

lemma drop_cells:
  "memmove (length zs + length as) (length zs) (length ts) (map Some zs @ map Some as @ map Some ts @ rest)
     = map Some (zs @ ts) @ drop (length ts) (map Some as @ map Some ts @ rest)"
  by (simp add: memmove_def)

lemma draining_drop:
  assumes "length zs + length as + length ms + length bs + length ts + length rest \<le> LEN_MAX"
  obtains rest' where "dr_drop (draining zs as ms bs ts rest ds) = Returns () (vec (zs @ ts) rest' (ds @ ms))"
    "length rest' = length as + length ms + length bs + length rest"
proof (cases "ts = []")
  case True
  then have "dr_drop (draining zs as ms bs ts rest ds) =
      Returns () (vec (zs @ ts) (map Some (as @ ms @ bs) @ rest) (ds @ ms))"
    by (simp add: dr_drop_def draining_exhaust) (simp add: draining_def)
  then show thesis by (rule that) simp
next
  case False
  let ?as = "as @ ms @ bs"
  let ?rest = "drop (length ts) (map Some ?as @ map Some ts @ rest)"
  have "\<lparr>av_len = of_nat (length (zs @ ts)), av_xs = map Some (zs @ ts) @ ?rest, av_dropped = ds @ ms\<rparr> =
      vec (zs @ ts) ?rest (ds @ ms)"
    by (rule vecI) simp_all
  then have "dr_drop (draining zs as ms bs ts rest ds) = Returns () (vec (zs @ ts) ?rest (ds @ ms))"
    using False assms drop_cells [of zs ?as ts rest]
    by (simp add: dr_drop_def draining_exhaust Let_def)
      (simp add: draining_def ptr_copy_def av_set_len_def av_capacity_def, simp add: vec_def)
  then show thesis by (rule that) simp
qed

lemma drain_vec:
  assumes "start \<le> to" "to \<le> length ys" "length ys \<le> LEN_MAX"
  defines "ms \<equiv> take (to - start) (drop start ys)"
  shows "av_drain_range start to (vec ys rest ds) =
    Returns (draining (take start ys) [] ms [] (drop to ys) rest ds)
      (dr_vec (draining (take start ys) [] ms [] (drop to ys) rest ds))"
proof -
  have m: "length ms = to - start" using assms by simp
  have ys: "ys = take start ys @ ms @ drop to ys"
    using assms(1) unfolding ms_def
    by (metis append_take_drop_id drop_drop le_add_diff_inverse2)
  have "\<lparr>av_len = of_nat start, av_xs = map Some ys @ rest, av_dropped = ds\<rparr> =
      vec (take start ys) (map Some (ms @ drop to ys) @ rest) ds"
    using assms(1,2) by (subst ys) (rule vecI, simp_all)
  then have "vec ys rest ds\<lparr>av_len := of_nat start\<rparr> = vec (take start ys) (map Some (ms @ drop to ys) @ rest) ds"
    by (simp add: vec_def)
  then show ?thesis
    using assms(1-3) m by (simp add: av_drain_range_def draining_def Let_def)
qed

lemma drain_calls_deque:
  "drain_calls calls (draining zs as ms bs ts rest ds) = Returns rs d \<Longrightarrow>
   \<exists>as' ms' bs'. d = draining zs as' ms' bs' ts rest ds \<and> deque_calls calls ms = (rs, ms') \<and>
     length as' + length ms' + length bs' = length as + length ms + length bs"
proof (induction calls arbitrary: as ms bs rs d)
  case (Cons b calls)
  show ?case
  proof (cases "ms = []")
    case True
    then obtain rs' where "drain_calls calls (draining zs as [] bs ts rest ds) = Returns rs' d" "rs = None # rs'"
      using Cons.prems
      by (cases "drain_calls calls (draining zs as [] bs ts rest ds)")
        (auto simp: draining_next draining_next_back split: if_splits)
    from Cons.IH [OF this(1)] this(2) True show ?thesis by auto blast
  next
    case ne: False
    show ?thesis
    proof (cases b)
      case True
      obtain ns n where ms: "ms = ns @ [n]" using ne by (cases ms rule: rev_cases) auto
      then obtain rs' where "drain_calls calls (draining zs as ns (n # bs) ts rest ds) = Returns rs' d"
          "rs = Some n # rs'"
        using Cons.prems True
        by (cases "drain_calls calls (draining zs as ns (n # bs) ts rest ds)")
          (auto simp: draining_next_back)
      from Cons.IH [OF this(1)] this(2) True ms show ?thesis by (auto split: prod.splits) blast
    next
      case False
      obtain n ns where ms: "ms = n # ns" using ne by (cases ms) auto
      then obtain rs' where "drain_calls calls (draining zs (as @ [n]) ns bs ts rest ds) = Returns rs' d"
          "rs = Some n # rs'"
        using Cons.prems False
        by (cases "drain_calls calls (draining zs (as @ [n]) ns bs ts rest ds)")
          (auto simp: draining_next)
      from Cons.IH [OF this(1)] this(2) False ms show ?thesis by (auto split: prod.splits) blast
    qed
  qed
qed auto

lemma drain_calls_returns:
  "\<exists>rs d. drain_calls calls (draining zs as ms bs ts rest ds) = Returns rs d"
proof (induction calls arbitrary: as ms bs)
  case (Cons b calls)
  consider "ms = []" | n ns where "ms = n # ns" "\<not> b" | n ns where "ms = ns @ [n]" b
    by (metis neq_Nil_conv rev_exhaust)
  then show ?case
  proof cases
    case 1
    with Cons [of as "[]" bs] show ?thesis by (auto simp: draining_next draining_next_back)
  next
    case (2 n ns)
    with Cons [of "as @ [n]" ns bs] show ?thesis by (auto simp: draining_next)
  next
    case (3 n ns)
    with Cons [of as ns "n # bs"] show ?thesis by (auto simp: draining_next_back)
  qed
qed simp

lemma drain_refines:
  "models v s \<Longrightarrow> refines (drain_session a b calls v) (sp_drain a b calls s)"
proof (elim modelsE)
  fix ys ds and rest :: "'a option list"
  assume v: "v = vec ys rest ds" "s = seq ys (length rest) ds" "length ys + length rest \<le> LEN_MAX"
  let ?from = "range_start a" and ?to = "range_end (length ys) b"
  show ?thesis
  proof (cases "?from \<le> ?to \<and> ?to \<le> length ys")
    case False
    with v show ?thesis
      by (auto simp: drain_session_def av_drain_def av_drain_range_def sp_drain_def Let_def)
  next
    case True
    let ?zs = "take ?from ys" and ?ts = "drop ?to ys" and ?ms = "take (?to - ?from) (drop ?from ys)"
    have r: "av_drain a b v = Returns (draining ?zs [] ?ms [] ?ts rest ds)
        (dr_vec (draining ?zs [] ?ms [] ?ts rest ds))"
      using v True drain_vec [of ?from ?to ys rest ds] by (simp add: av_drain_def)
    obtain rs d where c: "drain_calls calls (draining ?zs [] ?ms [] ?ts rest ds) = Returns rs d"
      using drain_calls_returns by blast
    from drain_calls_deque [OF this] obtain as ms bs where d: "d = draining ?zs as ms bs ?ts rest ds"
        "deque_calls calls ?ms = (rs, ms)"
        "length as + length ms + length bs = length ([] :: 'a list) + length ?ms + length ([] :: 'a list)"
      by blast
    have len: "length ?zs + length ?ms + length ?ts = length ys"
      using True by (auto simp: min_def)
    then have "length ?zs + length as + length ms + length bs + length ?ts + length rest \<le> LEN_MAX"
      using d(3) v(3) by simp
    from draining_drop [OF this, of ds] obtain rest' where
      dr: "dr_drop d = Returns () (vec (?zs @ ?ts) rest' (ds @ ms))" and
      "length rest' = length as + length ms + length bs + length rest" unfolding d by blast
    then have e: "length ys + length rest = length (?zs @ ?ts) + length rest'"
      using len d(3) by simp
    have "sp_drain a b calls s = Returns rs (seq (?zs @ ?ts) (length rest') (ds @ ms))"
      using v(2) True d(2) by (simp add: sp_drain_def Let_def seq_elems [OF e])
    moreover have "drain_session a b calls v = Returns rs (vec (?zs @ ?ts) rest' (ds @ ms))"
      using v(1) r c dr by (simp add: drain_session_def)
    moreover have "models (vec (?zs @ ?ts) rest' (ds @ ms)) (seq (?zs @ ?ts) (length rest') (ds @ ms))"
      using e v(3) by (simp only: models_vec)
    ultimately show ?thesis by simp
  qed
qed

lemma drain_one:
  "and_run (drain_session (Included i) (Excluded (i + 1)) [False] v) (\<lambda>rs. Returns (hd rs)) =
    and_run (av_drain (Included i) (Excluded (i + 1)) v) (\<lambda>d _.
      case dr_next d of
        Undefined \<Rightarrow> Undefined
      | Panics m d \<Rightarrow> Panics m (dr_vec d)
      | Returns r d \<Rightarrow> and_run (dr_drop d) (\<lambda>_. Returns r))"
proof (cases "av_drain (Included i) (Excluded (i + 1)) v")
  case (Returns d v')
  then show ?thesis
    by (cases "dr_next d") (simp_all add: drain_session_def and_run_assoc)
qed (simp_all add: drain_session_def)

lemma pop_at_refines: "models v s \<Longrightarrow> refines (av_pop_at i v) (sp_pop_at i s)"
proof (cases "i < length (bd_elems s)")
  case True
  assume m: "models v s"
  let ?b = "Excluded (i + 1)"
  have "refines (and_run (drain_session (Included i) ?b [False] v) (\<lambda>rs. Returns (hd rs)))
      (and_run (sp_drain (Included i) ?b [False] s) (\<lambda>rs. Returns (hd rs)))"
    by (intro refines_and_run drain_refines [OF m]) simp
  moreover have "and_run (sp_drain (Included i) ?b [False] s) (\<lambda>rs. Returns (hd rs)) = sp_pop_at i s"
    using True by (simp add: sp_drain_def sp_pop_at_def Let_def take_Suc_conv_app_nth hd_drop_conv_nth
        tl_take)
  moreover have "av_pop_at i v = and_run (drain_session (Included i) ?b [False] v) (\<lambda>rs. Returns (hd rs))"
    unfolding drain_one using True m by (simp add: av_pop_at_def models_def)
  ultimately show ?thesis by (simp only:)
next
  case False
  assume "models v s"
  with False show ?thesis by (simp add: av_pop_at_def sp_pop_at_def models_def)
qed

lemma remove_refines:
  "models v s \<Longrightarrow> refines (av_remove i v) (and_run (sp_pop_at i s) (sp_unwrap_index ''remove'' i))"
  unfolding av_remove_def by (intro refines_and_run pop_at_refines unwrap_index_refines)

text \<open>
  Retaining: what the closure and the destructors do to a list. The answer is how it ended
  (\<open>None\<close>, or the panic), the closure's state, what is left in the vector, and what was dropped.
\<close>

fun retain_list ::
  "('s, 'a) closure \<Rightarrow> ('a \<Rightarrow> bool) \<Rightarrow> 's \<Rightarrow> 'a list \<Rightarrow> string option \<times> 's \<times> 'a list \<times> 'a list" where
  "retain_list f dp s [] = (None, s, [], [])"
| "retain_list f dp s (x # xs) =
     (case f s x of
        (s, x, None) \<Rightarrow> (Some ''closure panicked'', s, x # xs, [])
      | (s, x, Some False) \<Rightarrow>
          if dp x then (Some ''destructor panicked'', s, xs, [x])
          else (case retain_list f dp s xs of (e, s, ys, ds) \<Rightarrow> (e, s, ys, x # ds))
      | (s, x, Some True) \<Rightarrow>
          (case retain_list f dp s xs of (e, s, ys, ds) \<Rightarrow> (e, s, x # ys, ds)))"

definition sp_retain ::
  "('s, 'a) closure \<Rightarrow> ('a \<Rightarrow> bool) \<Rightarrow> 's \<Rightarrow> 'a bounded \<Rightarrow> ('s, 'a bounded) outcome" where
  "sp_retain f dp s b =
     (case retain_list f dp s (bd_elems b) of (e, s, ys, ds) \<Rightarrow>
        let b = b\<lparr>bd_elems := ys, bd_dropped := bd_dropped b @ ds\<rparr> in
        case e of None \<Rightarrow> Returns s b | Some m \<Rightarrow> Panics m b)"

text \<open>
  The normal form inside the loop: \<open>ks\<close> kept, then the gap, then \<open>xs\<close> to process; the length of
  the vector is 0 throughout.
\<close>

definition guarded :: "'a list \<Rightarrow> 'a option list \<Rightarrow> 'a list \<Rightarrow> 'a option list \<Rightarrow> 'a list \<Rightarrow> 'a backshift" where
  "guarded ks gap xs rest ds =
     \<lparr>bs_v = \<lparr>av_len = 0, av_xs = map Some ks @ gap @ map Some xs @ rest, av_dropped = ds\<rparr>,
      processed_len = length ks + length gap, deleted_cnt = length gap,
      original_len = length ks + length gap + length xs\<rparr>"

lemma copy_down:
  "gap \<noteq> [] \<Longrightarrow> memmove (length ks + length gap) (length ks) 1 (ks @ gap @ x # ys) =
     ks @ x # tl gap @ x # ys"
  by (cases gap) (simp_all add: memmove_def)

lemma process_one_guarded:
  assumes "f s x = (s', x', r)" and "deleted \<longleftrightarrow> gap \<noteq> []"
  shows "process_one deleted f dp (s, guarded ks gap (x # xs) rest ds) =
    (case r of
       None \<Rightarrow> Panics ''closure panicked'' (s', guarded ks gap (x' # xs) rest ds)
     | Some False \<Rightarrow>
         if dp x' then Panics ''destructor panicked'' (s', guarded ks (gap @ [Some x']) xs rest (ds @ [x']))
         else Returns False (s', guarded ks (gap @ [Some x']) xs rest (ds @ [x']))
     | Some True \<Rightarrow>
         Returns True (s', guarded (ks @ [x']) (if gap = [] then [] else tl gap @ [Some x']) xs rest ds))"
proof (cases r)
  case None
  with assms show ?thesis
    by (simp add: process_one_def guarded_def ptr_read_def ptr_write_def nth_append list_update_append)
next
  case (Some k)
  with assms show ?thesis
    by (cases k; cases gap)
      (simp_all add: process_one_def guarded_def ptr_read_def ptr_write_def nth_append
        list_update_append log_drops_def ptr_copy_nonoverlapping_def ptr_copy_def memmove_def Let_def)
qed

lemma backshift_guarded:
  assumes "length ks + length gap + length xs + length rest \<le> LEN_MAX"
  obtains rest' where "backshift_drop (guarded ks gap xs rest ds) = Returns () (vec (ks @ xs) rest' ds)"
    "length rest' = length gap + length rest"
proof (cases "gap = []")
  case True
  have "\<lparr>av_len = of_nat (length (ks @ xs)), av_xs = map Some (ks @ xs) @ rest, av_dropped = ds\<rparr> =
      vec (ks @ xs) rest ds"
    by (rule vecI) simp_all
  with True have "backshift_drop (guarded ks gap xs rest ds) = Returns () (vec (ks @ xs) rest ds)"
    by (simp add: backshift_drop_def guarded_def av_set_len_def av_capacity_def)
  with True show thesis by (intro that [of rest]) simp_all
next
  case False
  let ?rest = "drop (length xs) (gap @ map Some xs @ rest)"
  have cells: "memmove (length ks + length gap) (length ks) (length xs) (map Some ks @ gap @ map Some xs @ rest) =
      map Some (ks @ xs) @ ?rest"
    by (simp add: memmove_def)
  have "\<lparr>av_len = of_nat (length (ks @ xs)), av_xs = map Some (ks @ xs) @ ?rest, av_dropped = ds\<rparr> =
      vec (ks @ xs) ?rest ds"
    by (rule vecI) simp_all
  with False cells have "backshift_drop (guarded ks gap xs rest ds) = Returns () (vec (ks @ xs) ?rest ds)"
    by (simp add: backshift_drop_def guarded_def av_set_len_def av_capacity_def ptr_copy_def)
  then show thesis by (rule that) simp
qed

text \<open>How a loop of \<open>retain\<close> ended, against \<open>retain_list\<close>.\<close>

definition ends_as ::
  "(unit, 's \<times> 'a backshift) outcome \<Rightarrow> 'a list \<Rightarrow> nat \<Rightarrow> 'a option list \<Rightarrow> 'a list \<Rightarrow>
   string option \<times> 's \<times> 'a list \<times> 'a list \<Rightarrow> bool" where
  "ends_as out ks n rest ds res \<longleftrightarrow> (case res of (e, s, ys, zs) \<Rightarrow>
     \<exists>kept left gap. ys = kept @ left \<and> length kept + length gap + length left = n \<and>
       (e = None \<longrightarrow> left = []) \<and>
       out = (let g = guarded (ks @ kept) gap left rest (ds @ zs) in
         case e of None \<Rightarrow> Returns () (s, g) | Some m \<Rightarrow> Panics m (s, g)))"

lemma guarded_done [simp]:
  "(processed_len (guarded ks gap xs rest ds) \<noteq> original_len (guarded ks gap xs rest ds)) \<longleftrightarrow> xs \<noteq> []"
  "(processed_len (guarded ks gap xs rest ds) = original_len (guarded ks gap xs rest ds)) \<longleftrightarrow> xs = []"
  by (auto simp: guarded_def)

lemma ends_as_keep:
  "ends_as out (ks @ [x]) n rest ds (retain_list f dp s xs) \<Longrightarrow>
   ends_as out ks (Suc n) rest ds (case retain_list f dp s xs of (e, s, ys, zs) \<Rightarrow> (e, s, x # ys, zs))"
  unfolding ends_as_def
  by (cases "retain_list f dp s xs") (force simp: Let_def intro: exI [where x = "x # _"])

lemma ends_as_drop:
  "ends_as out ks n rest (ds @ [x]) (retain_list f dp s xs) \<Longrightarrow>
   ends_as out ks n rest ds (case retain_list f dp s xs of (e, s, ys, zs) \<Rightarrow> (e, s, ys, x # zs))"
  unfolding ends_as_def by (cases "retain_list f dp s xs") auto

lemma ends_as_now:
  "n = length gap + length xs \<Longrightarrow> ends_as (Panics m (s, guarded ks gap xs rest (ds @ zs))) ks n rest ds (Some m, s, xs, zs)"
  unfolding ends_as_def
  by (simp add: Let_def) (rule exI [of _ "[]"], simp, rule exI [of _ gap], simp)

lemma retain_stage2_list:
  "gap \<noteq> [] \<Longrightarrow> ends_as (retain_stage2 f dp (s, guarded ks gap xs rest ds)) ks (length gap + length xs) rest ds
     (retain_list f dp s xs)"
proof (induction xs arbitrary: ks gap s ds)
  case Nil
  then show ?case by (auto simp: retain_stage2.simps ends_as_def Let_def)
next
  case (Cons x xs)
  obtain s' x' r where f: "f s x = (s', x', r)" by (cases "f s x") auto
  note p = process_one_guarded [where f = f and s = s and x = x and s' = s' and x' = x' and r = r, OF f, of True gap dp ks xs rest ds]
  note step = retain_stage2.simps [of f dp s "guarded ks gap (x # xs) rest ds"]
  consider "r = None" | "r = Some False" "dp x'" | "r = Some False" "\<not> dp x'" | "r = Some True"
    by (metis (full_types) option.exhaust)
  then show ?case
  proof cases
    case 1
    with Cons.prems p f show ?thesis using ends_as_now [of _ gap "x' # xs" _ s' ks rest ds "[]"]
      by (simp add: step)
  next
    case 2
    with Cons.prems p f show ?thesis
      using ends_as_now [of _ "gap @ [Some x']" xs _ s' ks rest ds "[x']"] by (simp add: step)
  next
    case 3
    with Cons.prems p f show ?thesis
      using ends_as_drop [OF Cons.IH [of "gap @ [Some x']" s' ks "ds @ [x']"]] by (simp add: step)
  next
    case 4
    with Cons.prems p f show ?thesis
      using ends_as_keep [OF Cons.IH [of "tl gap @ [Some x']" s' "ks @ [x']" ds]] by (simp add: step)
  qed
qed

lemma retain_stages_list:
  "ends_as (and_run (retain_stage1 f dp (s, guarded ks [] xs rest ds)) (\<lambda>_. retain_stage2 f dp))
     ks (length xs) rest ds (retain_list f dp s xs)"
proof (induction xs arbitrary: ks s ds)
  case Nil
  then show ?case by (auto simp: retain_stage1.simps retain_stage2.simps ends_as_def Let_def)
next
  case (Cons x xs)
  obtain s' x' r where f: "f s x = (s', x', r)" by (cases "f s x") auto
  note p = process_one_guarded [where f = f and s = s and x = x and s' = s' and x' = x' and r = r, OF f, of False "[]" dp ks xs rest ds]
  note step = retain_stage1.simps [of f dp s "guarded ks [] (x # xs) rest ds"]
  consider "r = None" | "r = Some False" "dp x'" | "r = Some False" "\<not> dp x'" | "r = Some True"
    by (metis (full_types) option.exhaust)
  then show ?case
  proof cases
    case 1
    with p f show ?thesis using ends_as_now [of _ "[]" "x' # xs" _ s' ks rest ds "[]"]
      by (simp add: step)
  next
    case 2
    with p f show ?thesis
      using ends_as_now [of _ "[Some x']" xs _ s' ks rest ds "[x']"] by (simp add: step)
  next
    case 3
    with p f show ?thesis
      using ends_as_drop [OF retain_stage2_list [of "[Some x']" f dp s' ks xs rest "ds @ [x']"]]
      by (simp add: step)
  next
    case 4
    with p f show ?thesis
      using ends_as_keep [OF Cons.IH [of s' "ks @ [x']" ds]] by (simp add: step)
  qed
qed

lemma retain_refines: "models v b \<Longrightarrow> refines (av_retain f dp s v) (sp_retain f dp s b)"
proof (elim modelsE)
  fix ys ds and rest :: "'a option list"
  assume v: "v = vec ys rest ds" "b = seq ys (length rest) ds" "length ys + length rest \<le> LEN_MAX"
  obtain e s' zs es where r: "retain_list f dp s ys = (e, s', zs, es)" by (metis prod_cases4)
  from retain_stages_list [of f dp s "[]" ys rest ds] r obtain kept left gap where
    k: "zs = kept @ left" "length kept + length gap + length left = length ys" "e = None \<longrightarrow> left = []"
    and out: "and_run (retain_stage1 f dp (s, guarded [] [] ys rest ds)) (\<lambda>_. retain_stage2 f dp) =
      (let g = guarded kept gap left rest (ds @ es) in
       case e of None \<Rightarrow> Returns () (s', g) | Some m \<Rightarrow> Panics m (s', g))"
    by (auto simp: ends_as_def)
  have "length kept + length gap + length left + length rest \<le> LEN_MAX" using k(2) v(3) by simp
  from backshift_guarded [OF this, of "ds @ es"] obtain rest' where
    b: "backshift_drop (guarded kept gap left rest (ds @ es)) = Returns () (vec zs rest' (ds @ es))"
      "length rest' = length gap + length rest" unfolding k(1) by blast
  have g: "\<lparr>bs_v = \<lparr>av_len = 0, av_xs = map Some ys @ rest, av_dropped = ds\<rparr>, processed_len = 0,
      deleted_cnt = 0, original_len = length ys\<rparr> = guarded [] [] ys rest ds"
    by (simp add: guarded_def)
  have e: "length ys + length rest = length zs + length rest'" using k b(2) by simp
  have sp: "sp_retain f dp s b = (let q = seq zs (length rest') (ds @ es) in
      case e of None \<Rightarrow> Returns s' q | Some m \<Rightarrow> Panics m q)"
    using v(2) r by (simp add: sp_retain_def seq_elems [OF e])
  have "av_retain f dp s v = (let q = vec zs rest' (ds @ es) in
      case e of None \<Rightarrow> Returns s' q | Some m \<Rightarrow> Panics m q)"
    using v out b(1) by (cases e) (simp_all add: av_retain_def set_len_vec g Let_def)
  moreover have "models (vec zs rest' (ds @ es)) (seq zs (length rest') (ds @ es))"
    using e v(3) by simp
  ultimately show ?thesis using sp by (cases e) (simp_all add: Let_def)
qed

end
