(* ===== verification/Array_Vec_Iter.thy ===== *)
theory Array_Vec_Iter
  imports Array_Vec
begin

text \<open>
  The rest of \<open>arrayvec.rs\<close>: extension from iterators and slices, cloning, conversions, the
  by-value iterator, writing bytes, deserialisation; the vector as a machine that runs any
  sequence of these operations, its refinement of bounded sequences, and the account of every
  element's ownership.
\<close>

section \<open>Extension\<close>

text \<open>
  What a call of an iterator's \<open>next\<close> gives until it ends: an element, or a panic. The guard
  writes the length back when the function ends and when it unwinds. \<open>zst\<close> is
  \<open>size_of::<T>() == 0\<close>: then nothing is written, a value without bytes being there already, and
  the element, which was not moved into the buffer, is dropped at the end of the block.
\<close>

datatype 'a next_item = Yields 'a | Fails

definition guard_len :: "nat \<Rightarrow> 'a array_vec \<Rightarrow> 'a array_vec" where
  "guard_len data v = v\<lparr>av_len := of_nat data\<rparr>"

fun extend_loop ::
  "bool \<Rightarrow> bool \<Rightarrow> 'a next_item list \<Rightarrow> nat \<Rightarrow> nat \<Rightarrow> nat \<Rightarrow> 'a array_vec \<Rightarrow> (unit, 'a array_vec) outcome" where
  "extend_loop check zst [] ptr end_ptr data v = Returns () (guard_len data v)"
| "extend_loop check zst (Fails # items) ptr end_ptr data v =
     Panics ''iterator panicked'' (guard_len data v)"
| "extend_loop check zst (Yields x # items) ptr end_ptr data v =
     (if ptr = end_ptr \<and> check
      then Panics ''ArrayVec: capacity exceeded in extend/from_iter'' (guard_len data (log_drops [x] v))
      else if ptr = end_ptr
      then Panics ''assertion failed: ptr != end_ptr'' (guard_len data (log_drops [x] v))
      else if zst
      then extend_loop check zst items (ptr + 1) end_ptr (data + 1)
             (log_drops [x] (v\<lparr>av_xs := (av_xs v)[ptr := Some x]\<rparr>))
      else and_run (ptr_write ptr x v)
             (\<lambda>_. extend_loop check zst items (ptr + 1) end_ptr (data + 1)))"

definition av_extend_from_iter ::
  "bool \<Rightarrow> bool \<Rightarrow> 'a next_item list \<Rightarrow> 'a array_vec \<Rightarrow> (unit, 'a array_vec) outcome" where
  "av_extend_from_iter check zst items v =
     (let take = av_capacity v - av_length v;
          len = av_length v
      in extend_loop check zst items len (len + take) len v)"

definition av_extend :: "bool \<Rightarrow> 'a next_item list \<Rightarrow> 'a array_vec \<Rightarrow> (unit, 'a array_vec) outcome" where
  "av_extend zst items v = av_extend_from_iter True zst items v"

definition av_extend_from_slice ::
  "bool \<Rightarrow> ('a \<Rightarrow> 'a next_item) \<Rightarrow> 'a list \<Rightarrow> 'a array_vec \<Rightarrow> (unit, 'a array_vec) outcome" where
  "av_extend_from_slice zst clone xs v =
     (let n = av_capacity v - av_length v in
      if \<not> length xs \<le> n then Panics ''assertion failed: slice.len() <= take'' v
      else let xs = (if n < length xs then take n xs else xs) in
        av_extend_from_iter False zst (map clone xs) v)"

definition av_try_extend_from_slice ::
  "'a list \<Rightarrow> 'a array_vec \<Rightarrow> (unit capacity_error + unit, 'a array_vec) outcome" where
  "av_try_extend_from_slice other v =
     (if av_remaining_capacity v < length other then Returns (Inl (CapacityError ())) v
      else let self_len = av_length v; other_len = length other in
        and_run (ptr_copy_from other self_len v) (\<lambda>_ v.
        and_run (av_set_len (self_len + other_len) v) (\<lambda>_. Returns (Inr ()))))"

section \<open>Construction, conversion, cloning\<close>

definition av_from_array :: "'a list \<Rightarrow> string + (unit, 'a array_vec) outcome" where
  "av_from_array array =
     (case av_new (length array) of
        Inl m \<Rightarrow> Inl m
      | Inr v \<Rightarrow> Inr (and_run (ptr_copy_from array 0 v) (\<lambda>_. av_set_len (length array))))"

definition av_from_iter :: "nat \<Rightarrow> bool \<Rightarrow> 'a next_item list \<Rightarrow> string + (unit, 'a array_vec) outcome" where
  "av_from_iter cap zst items =
     (case av_new cap of Inl m \<Rightarrow> Inl m | Inr v \<Rightarrow> Inr (av_extend zst items v))"

definition av_try_from_slice ::
  "nat \<Rightarrow> bool \<Rightarrow> ('a \<Rightarrow> 'a next_item) \<Rightarrow> 'a list \<Rightarrow> string + (unit capacity_error + (unit, 'a array_vec) outcome)" where
  "av_try_from_slice cap zst clone xs =
     (if cap < length xs then Inr (Inl (CapacityError ()))
      else case av_new cap of
          Inl m \<Rightarrow> Inl m
        | Inr v \<Rightarrow> Inr (Inr (av_extend_from_slice zst clone xs v)))"

definition av_clone ::
  "bool \<Rightarrow> ('a \<Rightarrow> 'a next_item) \<Rightarrow> 'a array_vec \<Rightarrow> (string + (unit, 'a array_vec) outcome) option" where
  "av_clone zst clone v =
     (case av_as_slice v of None \<Rightarrow> None
      | Some xs \<Rightarrow> Some (av_from_iter (av_capacity v) zst (map clone xs)))"

text \<open>
  \<open>clone_from_slice\<close> on the common prefix: each element is replaced by a clone of its counterpart,
  the old one dropped.
\<close>

fun clone_prefix ::
  "('a \<Rightarrow> 'a next_item) \<Rightarrow> nat \<Rightarrow> 'a list \<Rightarrow> 'a array_vec \<Rightarrow> (unit, 'a array_vec) outcome" where
  "clone_prefix clone i [] v = Returns () v"
| "clone_prefix clone i (y # ys) v =
     (case clone y of
        Fails \<Rightarrow> Panics ''clone panicked'' v
      | Yields x \<Rightarrow>
          and_run (ptr_read i v) (\<lambda>old v.
          and_run (ptr_write i x (log_drops [old] v)) (\<lambda>_. clone_prefix clone (i + 1) ys)))"

definition av_clone_from ::
  "bool \<Rightarrow> ('a \<Rightarrow> 'a next_item) \<Rightarrow> 'a array_vec \<Rightarrow> 'a array_vec \<Rightarrow> (unit, 'a array_vec) outcome" where
  "av_clone_from zst clone rhs v =
     (case av_as_slice rhs of
        None \<Rightarrow> Undefined
      | Some ys \<Rightarrow>
          let prefix = min (av_length v) (av_length rhs) in
          and_run (clone_prefix clone 0 (take prefix ys) v) (\<lambda>_ v.
            if prefix < av_length v then av_truncate prefix v
            else av_extend_from_slice zst clone (drop (av_length v) ys) v))"

text \<open>Taking the array out when it is full, and leaving an empty vector behind.\<close>

definition av_into_inner :: "'a array_vec \<Rightarrow> ('a array_vec + 'a list) option" where
  "av_into_inner v =
     (if av_length v < av_capacity v then Some (Inl v)
      else map_option Inr (from_raw_parts 0 (av_capacity v) v))"

definition av_take :: "'a array_vec \<Rightarrow> string + 'a array_vec \<times> 'a array_vec" where
  "av_take v = (case av_new (av_capacity v) of Inl m \<Rightarrow> Inl m | Inr v' \<Rightarrow> Inr (v, v'))"

section \<open>The by-value iterator\<close>

record 'a into_iter =
  ii_index :: nat
  ii_v :: "'a array_vec"

definition av_into_iter :: "'a array_vec \<Rightarrow> 'a into_iter" where
  "av_into_iter v = \<lparr>ii_index = 0, ii_v = v\<rparr>"

definition ii_next :: "'a into_iter \<Rightarrow> ('a option, 'a into_iter) outcome" where
  "ii_next it =
     (if ii_index it = av_length (ii_v it) then Returns None it
      else let index = ii_index it; it = it\<lparr>ii_index := index + 1\<rparr> in
        case ptr_read index (ii_v it) of
          Undefined \<Rightarrow> Undefined
        | Panics m v \<Rightarrow> Panics m (it\<lparr>ii_v := v\<rparr>)
        | Returns x v \<Rightarrow> Returns (Some x) (it\<lparr>ii_v := v\<rparr>))"

definition ii_next_back :: "'a into_iter \<Rightarrow> ('a option, 'a into_iter) outcome" where
  "ii_next_back it =
     (if ii_index it = av_length (ii_v it) then Returns None it
      else let new_len = av_length (ii_v it) - 1 in
        case and_run (av_set_len new_len (ii_v it)) (\<lambda>_. ptr_read new_len) of
          Undefined \<Rightarrow> Undefined
        | Panics m v \<Rightarrow> Panics m (it\<lparr>ii_v := v\<rparr>)
        | Returns x v \<Rightarrow> Returns (Some x) (it\<lparr>ii_v := v\<rparr>))"

definition ii_size_hint :: "'a into_iter \<Rightarrow> nat \<times> nat option" where
  "ii_size_hint it =
     (let len = av_length (ii_v it) - ii_index it in (len, Some len))"

text \<open>The iterator's destructor, then its vector's.\<close>

definition ii_drop :: "'a into_iter \<Rightarrow> (unit, 'a array_vec) outcome" where
  "ii_drop it =
     (let index = ii_index it; len = av_length (ii_v it) in
      and_run (av_set_len 0 (ii_v it)) (\<lambda>_ v.
      and_run (drop_in_place index (len - index) v) (\<lambda>_. av_drop)))"

definition ii_clone ::
  "bool \<Rightarrow> ('a \<Rightarrow> 'a next_item) \<Rightarrow> 'a into_iter \<Rightarrow> (string + (unit, 'a array_vec) outcome) option" where
  "ii_clone zst clone it =
     (case av_as_slice (ii_v it) of
        None \<Rightarrow> None
      | Some xs \<Rightarrow> Some (case av_new (av_capacity (ii_v it)) of
            Inl m \<Rightarrow> Inl m
          | Inr v \<Rightarrow> Inr (av_extend_from_slice zst clone (drop (ii_index it) xs) v)))"

text \<open>
  \<open>Zeroize\<close>: the elements, by their own implementation (a parameter), then \<open>clear\<close>, then every
  cell, \<open>zero\<close> being the all-zero bytes read as an element.
\<close>

definition av_zeroize :: "('a \<Rightarrow> 'a) \<Rightarrow> 'a option \<Rightarrow> 'a array_vec \<Rightarrow> (unit, 'a array_vec) outcome" where
  "av_zeroize zeroize zero v =
     (case av_as_slice v of
        None \<Rightarrow> Undefined
      | Some xs \<Rightarrow>
          and_run (av_clear (v\<lparr>av_xs := blit (map (Some \<circ> zeroize) xs) 0 (av_xs v)\<rparr>)) (\<lambda>_ v.
            Returns () (v\<lparr>av_xs := replicate (av_capacity v) zero\<rparr>)))"

section \<open>Bytes in, elements in\<close>

text \<open>\<open>io::Write for ArrayVec<u8, CAP>\<close>.\<close>

definition av_write :: "u8 list \<Rightarrow> u8 array_vec \<Rightarrow> (nat, u8 array_vec) outcome" where
  "av_write data v =
     (let len = min (av_remaining_capacity v) (length data) in
      and_run (av_try_extend_from_slice (take len data) v) (\<lambda>result v.
        case result of
          Inl e \<Rightarrow> Panics ''assertion failed: _result.is_ok()'' v
        | Inr _ \<Rightarrow> Returns len v))"

text \<open>
  Deserialisation: what the reader answers for each element, an error or a value. \<open>too_long\<close> is
  the error for more elements than fit.
\<close>

fun av_visit_seq :: "'e \<Rightarrow> ('e + 'a) list \<Rightarrow> 'a array_vec \<Rightarrow> ('e + unit, 'a array_vec) outcome" where
  "av_visit_seq too_long [] v = Returns (Inr ()) v"
| "av_visit_seq too_long (Inl e # rs) v = Returns (Inl e) v"
| "av_visit_seq too_long (Inr x # rs) v =
     and_run (av_try_push x v) (\<lambda>r v.
       case r of
         Inl e \<Rightarrow> Returns (Inl too_long) (log_drops [element e] v)
       | Inr _ \<Rightarrow> av_visit_seq too_long rs v)"

text \<open>\<open>borsh\<close>: a length of 32 bits, then so many elements.\<close>

definition av_deserialize_reader ::
  "'e \<Rightarrow> 'e + u32 \<Rightarrow> ('e + 'a) list \<Rightarrow> 'a array_vec \<Rightarrow> ('e + unit, 'a array_vec) outcome" where
  "av_deserialize_reader too_long len rs v =
     (case len of Inl e \<Rightarrow> Returns (Inl e) v
      | Inr n \<Rightarrow> av_visit_seq too_long (take (unat n) rs) v)"

section \<open>Comparison\<close>

fun slice_cmp :: "('a \<Rightarrow> 'a \<Rightarrow> ordering) \<Rightarrow> 'a list \<Rightarrow> 'a list \<Rightarrow> ordering" where
  "slice_cmp c [] [] = Equal"
| "slice_cmp c [] (y # ys) = Less"
| "slice_cmp c (x # xs) [] = Greater"
| "slice_cmp c (x # xs) (y # ys) = then_with (c x y) (slice_cmp c xs ys)"

definition av_eq :: "'a array_vec \<Rightarrow> 'a array_vec \<Rightarrow> bool" where
  "av_eq v w \<longleftrightarrow> av_as_slice v = av_as_slice w"

definition av_cmp :: "('a \<Rightarrow> 'a \<Rightarrow> ordering) \<Rightarrow> 'a array_vec \<Rightarrow> 'a array_vec \<Rightarrow> ordering option" where
  "av_cmp c v w =
     (case (av_as_slice v, av_as_slice w) of
        (Some xs, Some ys) \<Rightarrow> Some (slice_cmp c xs ys) | _ \<Rightarrow> None)"

section \<open>Extension implements its specification\<close>

text \<open>
  What an extension does to a list with \<open>n\<close> free places: how it ended (\<open>None\<close>, or the panic), the
  elements stored, and those dropped. Elements of no size are stored and dropped.
\<close>

fun load :: "bool \<Rightarrow> nat \<Rightarrow> 'a next_item list \<Rightarrow> string option \<times> 'a list \<times> 'a list" where
  "load zst n [] = (None, [], [])"
| "load zst n (Fails # items) = (Some ''iterator panicked'', [], [])"
| "load zst 0 (Yields x # items) = (Some ''ArrayVec: capacity exceeded in extend/from_iter'', [], [x])"
| "load zst (Suc n) (Yields x # items) =
     (case load zst n items of (e, zs, ds) \<Rightarrow> (e, x # zs, if zst then x # ds else ds))"

fun ended :: "string option \<Rightarrow> 's \<Rightarrow> (unit, 's) outcome" where
  "ended None s = Returns () s"
| "ended (Some m) s = Panics m s"

definition sp_extend :: "bool \<Rightarrow> 'a next_item list \<Rightarrow> 'a bounded \<Rightarrow> (unit, 'a bounded) outcome" where
  "sp_extend zst items s =
     (case load zst (bd_cap s - length (bd_elems s)) items of (e, zs, ds) \<Rightarrow>
        ended e (s\<lparr>bd_elems := bd_elems s @ zs, bd_dropped := bd_dropped s @ ds\<rparr>))"

definition sp_try_extend_from_slice ::
  "'a list \<Rightarrow> 'a bounded \<Rightarrow> (unit capacity_error + unit, 'a bounded) outcome" where
  "sp_try_extend_from_slice other s =
     (if bd_cap s < length (bd_elems s) + length other then Returns (Inl (CapacityError ())) s
      else Returns (Inr ()) (s\<lparr>bd_elems := bd_elems s @ other\<rparr>))"

lemma load_length: "load zst n items = (e, zs, ds) \<Longrightarrow> length zs \<le> n"
  by (induction zst n items arbitrary: e zs ds rule: load.induct) (auto split: prod.splits)

lemma extend_loop_list:
  assumes "load zst (length rest) items = (e, zs, es)"
  shows "extend_loop True zst items (length ys) (length ys + length rest) (length ys)
      \<lparr>av_len = l, av_xs = map Some ys @ rest, av_dropped = ds\<rparr> =
    ended e (vec (ys @ zs) (drop (length zs) rest) (ds @ es))"
  using assms
proof (induction zst "length rest" items arbitrary: ys rest ds e zs es rule: load.induct)
  case (4 zst n x items)
  then obtain c rest' where rest: "rest = c # rest'" and n: "n = length rest'"
    by (cases rest) auto
  obtain e' zs' es' where l: "load zst (length rest') items = (e', zs', es')"
    by (metis prod_cases3)
  with 4 rest have z: "e = e'" "zs = x # zs'" "es = (if zst then x # es' else es')" by auto
  note ih = 4(1) [OF n, of e' zs' es' "ys @ [x]"]
  from z rest show ?case
    using ih [of "ds @ [x]"] ih [of ds] l n
    by (cases zst) (simp_all add: log_drops_def ptr_write_def list_update_append)
qed (auto simp: guard_len_def vec_def log_drops_def)

lemma extend_refines: "models v s \<Longrightarrow> refines (av_extend zst items v) (sp_extend zst items s)"
proof (elim modelsE)
  fix ys ds and rest :: "'a option list"
  assume v: "v = vec ys rest ds" "s = seq ys (length rest) ds" "length ys + length rest \<le> LEN_MAX"
  obtain e zs es where l: "load zst (length rest) items = (e, zs, es)" by (metis prod_cases3)
  from load_length [OF this] have n: "length zs \<le> length rest" .
  have "av_extend zst items v = ended e (vec (ys @ zs) (drop (length zs) rest) (ds @ es))"
    using v extend_loop_list [OF l, of ys "of_nat (length ys)" ds]
    by (simp add: av_extend_def av_extend_from_iter_def vec_def [of ys rest ds, symmetric])
  moreover have "sp_extend zst items s = ended e (seq (ys @ zs) (length rest - length zs) (ds @ es))"
    using v l n by (simp add: sp_extend_def seq_def)
  ultimately show ?thesis using n v by (cases e) simp_all
qed

lemma try_extend_refines:
  "models v s \<Longrightarrow> refines (av_try_extend_from_slice other v) (sp_try_extend_from_slice other s)"
proof (elim modelsE)
  fix ys ds and rest :: "'a option list"
  assume v: "v = vec ys rest ds" "s = seq ys (length rest) ds" "length ys + length rest \<le> LEN_MAX"
  show ?thesis
  proof (cases "length rest < length other")
    case False
    let ?w = "vec (ys @ other) (drop (length other) rest) ds"
    have "blit (map Some other) (length ys) (map Some ys @ rest) =
        map Some (ys @ other) @ drop (length other) rest"
      using False by (simp add: blit_def)
    moreover have "\<lparr>av_len = of_nat (length (ys @ other)), av_xs = map Some (ys @ other) @ drop (length other) rest,
        av_dropped = ds\<rparr> = ?w"
      by (simp add: vec_def)
    ultimately have "av_try_extend_from_slice other v = Returns (Inr ()) ?w"
      using v False by (simp add: av_try_extend_from_slice_def av_remaining_capacity_def
          ptr_copy_from_def av_set_len_def av_capacity_def Let_def) (simp add: vec_def)
    moreover have "sp_try_extend_from_slice other s =
        Returns (Inr ()) (seq (ys @ other) (length rest - length other) ds)"
      using v False by (simp add: sp_try_extend_from_slice_def seq_def)
    ultimately show ?thesis using v False by simp
  next
    case True
    with v show ?thesis
      by (simp add: av_try_extend_from_slice_def sp_try_extend_from_slice_def av_remaining_capacity_def)
  qed
qed

section \<open>The vector as a machine\<close>

text \<open>
  A client runs any sequence of operations, catching every panic, and sees after each of them
  that it is done, what it was given, what was refused, or the panic's message.
\<close>

datatype 'a vec_op =
  VPush 'a | VTry_push 'a | VPop | VTruncate nat | VClear | VInsert nat 'a | VTry_insert nat 'a
  | VSwap_remove nat | VSwap_pop nat | VRemove nat | VPop_at nat | VDrain bound bound "bool list"
  | VRetain "'a \<Rightarrow> bool option" "'a \<Rightarrow> bool" | VExtend "'a next_item list"
  | VTry_extend_from_slice "'a list"

datatype 'a vec_obs = Done | Given "'a option list" | Refused "'a option" | Panicked string

abbreviation observe :: "('r \<Rightarrow> 'a vec_obs) \<Rightarrow> ('r, 's) outcome \<Rightarrow> ('a vec_obs \<times> 's) option" where
  "observe \<equiv> observed Panicked"

fun stored :: "'a capacity_error + unit \<Rightarrow> 'a vec_obs" where
  "stored (Inl e) = Refused (Some (element e))"
| "stored (Inr u) = Done"

fun copied :: "unit capacity_error + unit \<Rightarrow> 'a vec_obs" where
  "copied (Inl e) = Refused None"
| "copied (Inr u) = Done"

fun vec_step :: "bool \<Rightarrow> 'a vec_op \<Rightarrow> 'a array_vec \<Rightarrow> ('a vec_obs \<times> 'a array_vec) option" where
  "vec_step zst (VPush x) v = observe (\<lambda>_. Done) (av_push x v)"
| "vec_step zst (VTry_push x) v = observe stored (av_try_push x v)"
| "vec_step zst VPop v = observe (\<lambda>r. Given [r]) (av_pop v)"
| "vec_step zst (VTruncate n) v = observe (\<lambda>_. Done) (av_truncate n v)"
| "vec_step zst VClear v = observe (\<lambda>_. Done) (av_clear v)"
| "vec_step zst (VInsert i x) v = observe (\<lambda>_. Done) (av_insert i x v)"
| "vec_step zst (VTry_insert i x) v = observe stored (av_try_insert i x v)"
| "vec_step zst (VSwap_remove i) v = observe (\<lambda>r. Given [Some r]) (av_swap_remove i v)"
| "vec_step zst (VSwap_pop i) v = observe (\<lambda>r. Given [r]) (av_swap_pop i v)"
| "vec_step zst (VRemove i) v = observe (\<lambda>r. Given [Some r]) (av_remove i v)"
| "vec_step zst (VPop_at i) v = observe (\<lambda>r. Given [r]) (av_pop_at i v)"
| "vec_step zst (VDrain a b calls) v = observe Given (drain_session a b calls v)"
| "vec_step zst (VRetain keep dp) v = observe (\<lambda>_. Done) (av_retain (\<lambda>u x. (u, x, keep x)) dp () v)"
| "vec_step zst (VExtend items) v = observe (\<lambda>_. Done) (av_extend zst items v)"
| "vec_step zst (VTry_extend_from_slice other) v = observe copied (av_try_extend_from_slice other v)"

fun bounded_step :: "bool \<Rightarrow> 'a vec_op \<Rightarrow> 'a bounded \<Rightarrow> ('a vec_obs \<times> 'a bounded) option" where
  "bounded_step zst (VPush x) s = observe (\<lambda>_. Done) (and_run (sp_try_push x s) sp_unwrap)"
| "bounded_step zst (VTry_push x) s = observe stored (sp_try_push x s)"
| "bounded_step zst VPop s = observe (\<lambda>r. Given [r]) (sp_pop s)"
| "bounded_step zst (VTruncate n) s = observe (\<lambda>_. Done) (sp_truncate n s)"
| "bounded_step zst VClear s = observe (\<lambda>_. Done) (sp_truncate 0 s)"
| "bounded_step zst (VInsert i x) s = observe (\<lambda>_. Done) (and_run (sp_try_insert i x s) sp_unwrap)"
| "bounded_step zst (VTry_insert i x) s = observe stored (sp_try_insert i x s)"
| "bounded_step zst (VSwap_remove i) s =
     observe (\<lambda>r. Given [Some r]) (and_run (sp_swap_pop i s) (sp_unwrap_index ''swap_remove'' i))"
| "bounded_step zst (VSwap_pop i) s = observe (\<lambda>r. Given [r]) (sp_swap_pop i s)"
| "bounded_step zst (VRemove i) s =
     observe (\<lambda>r. Given [Some r]) (and_run (sp_pop_at i s) (sp_unwrap_index ''remove'' i))"
| "bounded_step zst (VPop_at i) s = observe (\<lambda>r. Given [r]) (sp_pop_at i s)"
| "bounded_step zst (VDrain a b calls) s = observe Given (sp_drain a b calls s)"
| "bounded_step zst (VRetain keep dp) s = observe (\<lambda>_. Done) (sp_retain (\<lambda>u x. (u, x, keep x)) dp () s)"
| "bounded_step zst (VExtend items) s = observe (\<lambda>_. Done) (sp_extend zst items s)"
| "bounded_step zst (VTry_extend_from_slice other) s = observe copied (sp_try_extend_from_slice other s)"

abbreviation vec_run :: "bool \<Rightarrow> 'a vec_op list \<Rightarrow> 'a array_vec \<Rightarrow> ('a vec_obs list \<times> 'a array_vec) option" where
  "vec_run zst \<equiv> run_ops (vec_step zst)"

abbreviation bounded_run :: "bool \<Rightarrow> 'a vec_op list \<Rightarrow> 'a bounded \<Rightarrow> ('a vec_obs list \<times> 'a bounded) option" where
  "bounded_run zst \<equiv> run_ops (bounded_step zst)"

lemmas vec_refinements = push_refines try_push_refines pop_refines truncate_refines insert_refines
  try_insert_refines swap_remove_refines swap_pop_refines remove_refines pop_at_refines
  drain_refines retain_refines extend_refines try_extend_refines

lemma vec_step_refines:
  "models v s \<Longrightarrow>
   \<exists>ob v' s'. vec_step zst op v = Some (ob, v') \<and> bounded_step zst op s = Some (ob, s') \<and> models v' s'"
  by (cases op; hypsubst; unfold vec_step.simps bounded_step.simps av_clear_def;
      intro observed_rel vec_refinements; assumption)

interpretation vec_machine: implements_spec models "vec_step zst" "bounded_step zst" "\<lambda>_. True" for zst
  by unfold_locales (rule vec_step_refines)

lemmas vec_run_models = vec_machine.run_rel [unfolded list.pred_True, OF _ TrueI]

definition bounded_new :: "nat \<Rightarrow> 'a bounded" where
  "bounded_new cap = \<lparr>bd_cap = cap, bd_elems = [], bd_dropped = []\<rparr>"

lemma vec_run_new:
  assumes "av_new cap = Inr v"
  obtains obs v' s where "vec_run zst ops v = Some (obs, v')"
    "bounded_run zst ops (bounded_new cap) = Some (obs, s)" "models v' s"
  using vec_run_models [OF models_new [OF assms], of zst ops] by (auto simp: bounded_new_def)

section \<open>Every element has one owner\<close>

text \<open>
  What a client hands over with an operation (of an iterator, what the extension pulls from it:
  the rest stays the iterator's), and what it gets back.
\<close>

fun pulled :: "nat \<Rightarrow> 'a next_item list \<Rightarrow> 'a list" where
  "pulled n [] = []"
| "pulled n (Fails # items) = []"
| "pulled 0 (Yields x # items) = [x]"
| "pulled (Suc n) (Yields x # items) = x # pulled n items"

fun supplied :: "nat \<Rightarrow> 'a vec_op \<Rightarrow> 'a list" where
  "supplied n (VPush x) = [x]"
| "supplied n (VTry_push x) = [x]"
| "supplied n (VInsert i x) = [x]"
| "supplied n (VTry_insert i x) = [x]"
| "supplied n (VExtend items) = pulled n items"
| "supplied n (VTry_extend_from_slice other) = (if n < length other then [] else other)"
| "supplied n _ = []"

fun given :: "'a vec_obs \<Rightarrow> 'a list" where
  "given Done = []"
| "given (Given rs) = concat (map (case_option [] (\<lambda>x. [x])) rs)"
| "given (Refused r) = case_option [] (\<lambda>x. [x]) r"
| "given (Panicked m) = []"

fun supplied_run :: "bool \<Rightarrow> 'a vec_op list \<Rightarrow> 'a array_vec \<Rightarrow> 'a list" where
  "supplied_run zst [] v = []"
| "supplied_run zst (op # ops) v = supplied (av_remaining_capacity v) op @
     (case vec_step zst op v of None \<Rightarrow> [] | Some (ob, v) \<Rightarrow> supplied_run zst ops v)"

text \<open>Only the extension by an iterator treats elements of no size differently.\<close>

fun is_extend :: "'a vec_op \<Rightarrow> bool" where
  "is_extend (VExtend items) \<longleftrightarrow> True"
| "is_extend _ \<longleftrightarrow> False"

definition owned :: "'a bounded \<Rightarrow> 'a multiset" where
  "owned s = mset (bd_elems s) + mset (bd_dropped s)"

definition balanced :: "'a list \<Rightarrow> 'a bounded \<Rightarrow> ('a vec_obs \<times> 'a bounded) option \<Rightarrow> bool" where
  "balanced ins s r \<longleftrightarrow> (\<forall>ob s'. r = Some (ob, s') \<longrightarrow>
     owned s + mset ins = owned s' + mset (given ob))"

lemma mset_swap_pop:
  assumes "i < length ys"
  shows "add_mset (ys ! i) (mset (butlast (ys[i := last ys]))) = mset ys"
proof -
  obtain zs y where ys: "ys = zs @ [y]" using assms by (cases ys rule: rev_cases) auto
  show ?thesis
  proof (cases "i < length zs")
    case True
    with ys show ?thesis
      by (simp add: list_update_append nth_append mset_update butlast_append)
  next
    case False
    with assms ys show ?thesis by (simp add: nth_append list_update_append)
  qed
qed

lemma mset_without:
  "i < length ys \<Longrightarrow> add_mset (ys ! i) (mset (take i ys) + mset (drop (Suc i) ys)) = mset ys"
  by (subst (4) id_take_nth_drop [of i ys]) simp_all

lemma mset_parts: "mset (take i ys) + mset (drop i ys) = mset ys"
  by (simp flip: mset_append)

lemma mset_hd_tl: "xs \<noteq> [] \<Longrightarrow> add_mset (hd xs) (mset (tl xs)) = mset xs"
  by (cases xs) auto

lemma mset_last_butlast: "xs \<noteq> [] \<Longrightarrow> add_mset (last xs) (mset (butlast xs)) = mset xs"
  by (cases xs rule: rev_cases) auto

lemma deque_calls_mset:
  "deque_calls calls xs = (rs, left) \<Longrightarrow> mset (given (Given rs)) + mset left = mset xs"
proof (induction calls xs arbitrary: rs left rule: deque_calls.induct)
  case (2 b bs xs)
  let ?ys = "if b then butlast xs else tl xs"
  show ?case
  proof (cases "xs = []")
    case True
    with 2 show ?thesis by (auto split: prod.splits)
  next
    case False
    obtain rs' left' where d: "deque_calls bs ?ys = (rs', left')" by (metis surj_pair)
    with 2(4) False have r: "left = left'" "rs = Some (if b then last xs else hd xs) # rs'"
      by (auto split: if_splits)
    have "mset (given (Given rs')) + mset left' = mset ?ys"
      using 2(2,3) False d by (cases b) simp_all
    then have "mset (given (Given rs)) + mset left = add_mset (if b then last xs else hd xs) (mset ?ys)"
      by (simp add: r)
    with False show ?thesis by (cases b) (simp_all add: mset_hd_tl mset_last_butlast)
  qed
qed simp

lemma retain_list_mset:
  "retain_list (\<lambda>u x. (u, x, keep x)) dp u xs = (e, u', ys, ds) \<Longrightarrow> mset xs = mset ys + mset ds"
proof (induction xs arbitrary: e u' ys ds)
  case (Cons x xs)
  obtain e1 u1 ys1 ds1 where r: "retain_list (\<lambda>u x. (u, x, keep x)) dp u xs = (e1, u1, ys1, ds1)"
    by (cases "retain_list (\<lambda>u x. (u, x, keep x)) dp u xs") auto
  note ih = Cons.IH [OF r]
  show ?case
  proof (cases "keep x")
    case None
    with Cons.prems show ?thesis by simp
  next
    case (Some k)
    with Cons.prems r ih show ?thesis by (cases k; cases "dp x") auto
  qed
qed simp

lemma load_mset: "load False n items = (e, zs, ds) \<Longrightarrow> mset zs + mset ds = mset (pulled n items)"
  by (induction False n items arbitrary: e zs ds rule: load.induct) (auto split: prod.splits)

lemma bounded_step_balanced:
  assumes "length (bd_elems s) \<le> bd_cap s" and "zst \<Longrightarrow> \<not> is_extend op"
  shows "balanced (supplied (bd_cap s - length (bd_elems s)) op) s (bounded_step zst op s)"
proof (cases op)
  case (VDrain a b calls)
  let ?ys = "bd_elems s" and ?from = "range_start a" and ?to = "range_end (length (bd_elems s)) b"
  obtain rs left where d: "deque_calls calls (take (?to - ?from) (drop ?from ?ys)) = (rs, left)"
    by (metis surj_pair)
  have "mset ?ys = mset (take ?from ?ys) + mset (take (?to - ?from) (drop ?from ?ys)) + mset (drop ?to ?ys)"
    if "?from \<le> ?to"
    using that by (metis (no_types) append_take_drop_id drop_drop le_add_diff_inverse2 mset_append add.assoc)
  with VDrain d deque_calls_mset [OF d] show ?thesis
    by (auto simp: balanced_def owned_def sp_drain_def Let_def ac_simps)
next
  case (VRetain keep dp)
  obtain e u ys ds where "retain_list (\<lambda>u x. (u, x, keep x)) dp () (bd_elems s) = (e, u, ys, ds)"
    by (cases "retain_list (\<lambda>u x. (u, x, keep x)) dp () (bd_elems s)") auto
  with VRetain retain_list_mset [OF this] show ?thesis
    by (cases e) (auto simp: balanced_def owned_def sp_retain_def Let_def)
next
  case (VExtend items)
  with assms(2) have [simp]: "\<not> zst" by auto
  obtain e zs ds where "load False (bd_cap s - length (bd_elems s)) items = (e, zs, ds)"
    by (metis surj_pair)
  with VExtend load_mset [OF this] show ?thesis
    by (cases e) (auto simp: balanced_def owned_def sp_extend_def simp flip: union_assoc)
qed (use assms(1) in \<open>auto simp: balanced_def owned_def sp_try_push_def sp_pop_def sp_truncate_def sp_try_insert_def
    sp_swap_pop_def sp_pop_at_def sp_try_extend_from_slice_def Let_def mset_swap_pop mset_without
    mset_parts mset_last_butlast split: if_splits\<close>)


lemma models_remaining: "models v s \<Longrightarrow> av_remaining_capacity v = bd_cap s - length (bd_elems s)"
  by (simp add: models_def av_remaining_capacity_def)

lemma models_fits: "models v s \<Longrightarrow> length (bd_elems s) \<le> bd_cap s"
  by (auto elim!: modelsE)

lemma vec_run_balanced:
  "models v s \<Longrightarrow> bounded_run zst ops s = Some (obs, s') \<Longrightarrow>
   (zst \<Longrightarrow> list_ex is_extend ops \<Longrightarrow> False) \<Longrightarrow>
   owned s + mset (supplied_run zst ops v) = owned s' + mset (concat (map given obs))"
proof (induction ops arbitrary: v s obs)
  case (Cons op ops)
  obtain ob v1 s1 where step: "vec_step zst op v = Some (ob, v1)"
      "bounded_step zst op s = Some (ob, s1)" "models v1 s1"
    using vec_step_refines [OF Cons.prems(1)] by blast
  obtain obs1 where obs: "bounded_run zst ops s1 = Some (obs1, s')" "obs = ob # obs1"
    using Cons.prems(2) step(2) by auto
  have "owned s + mset (supplied (av_remaining_capacity v) op) = owned s1 + mset (given ob)"
    using bounded_step_balanced [OF models_fits [OF Cons.prems(1)], of zst op] step(2) Cons.prems(3)
    by (auto simp: balanced_def models_remaining [OF Cons.prems(1)])
  moreover have "owned s1 + mset (supplied_run zst ops v1) = owned s' + mset (concat (map given obs1))"
    using Cons.IH [OF step(3) obs(1)] Cons.prems(3) by auto
  ultimately show ?case
    by (simp add: step(1) obs(2)) (metis add.assoc add.commute)
qed simp

lemma observe_ended [simp]: "observe f (ended e s) = Some (ob, s') \<longleftrightarrow>
    s' = s \<and> ob = (case e of None \<Rightarrow> f () | Some m \<Rightarrow> Panicked m)"
  by (cases e) auto

lemma models_facts:
  assumes "models v s"
  shows "av_as_slice v = Some (bd_elems s)" "av_dropped v = bd_dropped s"
  using models_slice [OF assms] assms by (auto simp: models_def)

lemma new_two: "av_new 2 = Inr \<lparr>av_len = 0, av_xs = [None, None], av_dropped = []\<rparr>"
  by (simp add: av_new_def LEN_MAX_def) (simp add: numeral_2_eq_2)

lemma bounded_step_cap: "bounded_step zst op s = Some (ob, s') \<Longrightarrow> bd_cap s' = bd_cap s"
  by (cases op)
    (auto simp: sp_try_push_def sp_pop_def sp_truncate_def sp_try_insert_def sp_swap_pop_def
      sp_pop_at_def sp_drain_def sp_retain_def sp_extend_def sp_try_extend_from_slice_def Let_def
      elim!: sp_unwrap.elims sp_unwrap_index.elims
      split: if_splits prod.splits option.splits)

lemma bounded_run_cap: "bounded_run zst ops s = Some (obs, s') \<Longrightarrow> bd_cap s' = bd_cap s"
  by (induction ops arbitrary: s obs) (auto split: option.splits dest: bounded_step_cap)

text \<open>
  C9. An \<open>ArrayVec\<close> of capacity \<open>cap\<close> behaves as a bounded sequence under every sequence of
  pushes, insertions, removals, drains (abandoned at any point), \<open>retain\<close>s, extensions and
  truncations, each panic caught and the vector used on: no operation touches a cell outside the
  buffer or reads an uninitialised one, the client sees the same answers and the same panic
  messages, the vector holds the same elements and the same destructors have run in the same order.
\<close>

theorem vec_run_refines:
  assumes "av_new cap = Inr v"
  shows "\<exists>obs v' s. vec_run zst ops v = Some (obs, v') \<and>
    bounded_run zst ops (bounded_new cap) = Some (obs, s) \<and>
    av_as_slice v' = Some (bd_elems s) \<and> av_dropped v' = bd_dropped s \<and>
    length (bd_elems s) \<le> cap \<and> av_capacity v' = cap"
proof -
  obtain obs v' s where run: "vec_run zst ops v = Some (obs, v')"
    "bounded_run zst ops (bounded_new cap) = Some (obs, s)" "models v' s"
    using vec_run_new [OF assms] .
  have "bd_cap s = cap" using bounded_run_cap [OF run(2)] by (simp add: bounded_new_def)
  with run models_slice [OF run(3)] models_fits [OF run(3)] show ?thesis by (auto simp: models_def)
qed

lemma vec_run_refines_witness:
  "\<exists>obs v' s. vec_run False [VPush (1::nat), VTry_push 2, VTry_push 3, VInsert 0 4, VRemove 0, VPop]
      \<lparr>av_len = 0, av_xs = [None, None], av_dropped = []\<rparr> = Some (obs, v') \<and>
    bounded_run False [VPush (1::nat), VTry_push 2, VTry_push 3, VInsert 0 4, VRemove 0, VPop]
      (bounded_new 2) = Some (obs, s) \<and>
    av_as_slice v' = Some (bd_elems s) \<and> av_dropped v' = bd_dropped s \<and>
    length (bd_elems s) \<le> 2 \<and> av_capacity v' = (2::nat)"
  by (rule vec_run_refines [OF new_two])

text \<open>
  C11. Ownership: after any sequence of operations, panics caught, and the vector's destructor,
  every element a client handed in has been given back to it or dropped, exactly once. This holds
  for every element type that has a size, and for the types without a size (\<open>zst\<close>) when no
  operation of the sequence is an extension by an iterator, which drops the stored elements of such
  a type once too often.
\<close>

theorem elements_owned_once:
  assumes "av_new cap = Inr v" and "\<not> zst \<or> \<not> list_ex is_extend ops"
  shows "\<exists>obs v' w. vec_run zst ops v = Some (obs, v') \<and> av_drop v' = Returns () w \<and>
    av_length w = 0 \<and>
    mset (supplied_run zst ops v) = mset (concat (map given obs)) + mset (av_dropped w)"
proof -
  obtain obs v' s where run: "vec_run zst ops v = Some (obs, v')"
    "bounded_run zst ops (bounded_new cap) = Some (obs, s)" "models v' s"
    using vec_run_new [OF assms(1)] .
  have "mset (supplied_run zst ops v) = owned s + mset (concat (map given obs))"
    using vec_run_balanced [OF models_new [OF assms(1)], of zst ops obs s] run(2) assms(2)
    by (auto simp: bounded_new_def owned_def)
  moreover obtain w where "av_drop v' = Returns () w" "models w
      (s\<lparr>bd_elems := [], bd_dropped := bd_dropped s @ bd_elems s\<rparr>)"
    using truncate_refines [OF run(3), of 0]
    by (cases "av_truncate 0 v'") (auto simp: sp_truncate_def av_drop_def av_clear_def)
  ultimately show ?thesis
    using run(1) by (auto simp: models_def owned_def ac_simps)
qed

lemma elements_owned_once_witness:
  "\<exists>obs v' w. vec_run False [VExtend [Yields 1, Yields 2, Yields 3], VSwap_pop 0]
      \<lparr>av_len = 0, av_xs = [None, None], av_dropped = []\<rparr> = Some (obs, v') \<and> av_drop v' = Returns () w \<and>
    av_length w = 0 \<and>
    mset (supplied_run False [VExtend [Yields 1, Yields 2, Yields 3], VSwap_pop 0]
      \<lparr>av_len = 0, av_xs = [None, None], av_dropped = []\<rparr>) =
    mset (concat (map given obs)) + mset (av_dropped w :: nat list)"
  by (rule elements_owned_once [OF new_two]) simp

text \<open>
  C24. \<open>retain\<close> is panic safe: whether it returns, its closure panics or a destructor panics, the
  vector holds the elements kept, each as the closure left it, followed by those not yet processed
  (the one the closure panicked on among them), in order, and exactly the rejected ones were dropped.
\<close>

theorem retain_panic_safe:
  assumes "models v \<lparr>bd_cap = cap, bd_elems = xs, bd_dropped = ds\<rparr>"
    and "retain_list f dp s xs = (e, s', ys, zs)"
  shows "\<exists>w. av_retain f dp s v = (case e of None \<Rightarrow> Returns s' w | Some m \<Rightarrow> Panics m w) \<and>
    av_as_slice w = Some ys \<and> av_dropped w = ds @ zs"
proof -
  have "refines (av_retain f dp s v) (sp_retain f dp s \<lparr>bd_cap = cap, bd_elems = xs, bd_dropped = ds\<rparr>)"
    by (rule retain_refines [OF assms(1)])
  with assms(2) show ?thesis
    by (cases e; cases "av_retain f dp s v")
      (auto simp: sp_retain_def dest: models_facts)
qed

lemma retain_panic_safe_witness:
  "\<exists>w. av_retain (\<lambda>n x. (n + 1, 10 * x, if n = (2::nat) then None else Some (x \<noteq> 2))) (\<lambda>_. False) 0
      \<lparr>av_len = 4, av_xs = map Some [1, 2, 3, 4], av_dropped = []\<rparr> = Panics ''closure panicked'' w \<and>
    av_as_slice w = Some [10, 30, 4 :: nat] \<and> av_dropped w = [] @ [20]"
  using retain_panic_safe [of "\<lparr>av_len = 4, av_xs = map Some [1, 2, 3, 4], av_dropped = []\<rparr>" 4 "[1, 2, 3, 4::nat]"
      "[]" "\<lambda>n x. (n + 1, 10 * x, if n = (2::nat) then None else Some (x \<noteq> 2))" "\<lambda>_. False" 0
      "Some ''closure panicked''" 3 "[10, 30, 4]" "[20]"]
  by (simp add: models_def av_length_def av_capacity_def LEN_MAX_def)

text \<open>A closure that keeps a log of the elements it was called on.\<close>

definition logged :: "('s, 'a) closure \<Rightarrow> ('a list \<times> 's, 'a) closure" where
  "logged f = (\<lambda>(seen, s) x. case f s x of (s, y, keep) \<Rightarrow> ((seen @ [x], s), y, keep))"

lemma retain_list_logged:
  assumes "\<forall>s x. snd (snd (f s x)) \<noteq> None" and "\<forall>x. \<not> dp x"
  shows "\<exists>s' ys zs. retain_list (logged f) dp (seen, s) xs = (None, (seen @ xs, s'), ys, zs)"
proof (induction xs arbitrary: seen s)
  case (Cons x xs)
  obtain s1 y keep where f: "f s x = (s1, y, Some keep)"
    using assms(1) by (cases "f s x") (metis option.exhaust snd_conv)
  obtain s' ys zs where "retain_list (logged f) dp (seen @ [x], s1) xs = (None, ((seen @ [x]) @ xs, s'), ys, zs)"
    using Cons.IH by blast
  moreover have "logged f (seen, s) x = ((seen @ [x], s1), y, Some keep)" using f by (simp add: logged_def)
  moreover have "\<not> dp y" using assms(2) by simp
  ultimately show ?case by (cases keep) simp_all
qed simp

text \<open>
  C25. The loops of \<open>retain\<close> end: with a closure and destructors that do not panic the call
  returns after calling the closure on every element exactly once, in order.
\<close>

theorem retain_visits_once:
  assumes "models v \<lparr>bd_cap = cap, bd_elems = xs, bd_dropped = ds\<rparr>"
    and "\<forall>s x. snd (snd (f s x)) \<noteq> None" and "\<forall>x. \<not> dp x"
  shows "\<exists>s' w. av_retain (logged f) dp ([], s) v = Returns (xs, s') w"
proof -
  obtain s' ys zs where "retain_list (logged f) dp ([], s) xs = (None, ([] @ xs, s'), ys, zs)"
    using retain_list_logged [OF assms(2,3)] by blast
  with retain_refines [OF assms(1), of "logged f" dp "([], s)"] show ?thesis
    by (cases "av_retain (logged f) dp ([], s) v") (auto simp: sp_retain_def)
qed

lemma retain_visits_once_witness:
  "\<exists>s' w. av_retain (logged (\<lambda>n x. (n + x, x, Some (x < n)))) (\<lambda>_. False) ([], 2)
      \<lparr>av_len = 3, av_xs = map Some [1, 2, 3], av_dropped = []\<rparr> = Returns ([1, 2, 3], s') w"
  by (rule retain_visits_once [where cap = 3 and ds = "[]"])
    (simp_all add: models_def av_length_def av_capacity_def LEN_MAX_def)

text \<open>
  C35. Elements of no size are dropped twice: an extension drops each element it stores (it writes
  nothing, so the element was never moved out of its variable), yet counts it, and the vector's
  destructor drops it again.
\<close>

theorem zero_sized_dropped_twice:
  assumes "av_new cap = Inr v" and "length xs \<le> cap"
  shows "\<exists>v' w. av_extend True (map Yields xs) v = Returns () v' \<and> av_as_slice v' = Some xs \<and>
    av_dropped v' = xs \<and> av_drop v' = Returns () w \<and> av_dropped w = xs @ xs"
proof -
  have load: "load True n (map Yields ys) = (None, ys, ys)" if "length ys \<le> n" for n and ys :: "'a list"
    using that
  proof (induction ys arbitrary: n)
    case (Cons y ys)
    then show ?case by (cases n) auto
  qed simp
  obtain v' where v': "av_extend True (map Yields xs) v = Returns () v'"
      "models v' \<lparr>bd_cap = cap, bd_elems = xs, bd_dropped = xs\<rparr>"
    using extend_refines [OF models_new [OF assms(1)], of True "map Yields xs"] load [OF assms(2)]
    by (cases "av_extend True (map Yields xs) v") (auto simp: sp_extend_def)
  moreover obtain w where "av_drop v' = Returns () w" "av_dropped w = xs @ xs"
    using truncate_refines [OF v'(2), of 0]
    by (cases "av_truncate 0 v'") (auto simp: sp_truncate_def av_drop_def av_clear_def models_def)
  ultimately show ?thesis using models_slice [OF v'(2)] by (auto simp: models_def)
qed

lemma zero_sized_dropped_twice_witness:
  "\<exists>v' w. av_extend True (map Yields [(), ()]) \<lparr>av_len = 0, av_xs = [None, None], av_dropped = []\<rparr> =
      Returns () v' \<and> av_as_slice v' = Some [(), ()] \<and>
    av_dropped v' = [(), ()] \<and> av_drop v' = Returns () w \<and> av_dropped w = [(), ()] @ [(), ()]"
  by (rule zero_sized_dropped_twice [OF new_two]) simp

section \<open>Conversions\<close>

text \<open>Collecting and cloning: a fresh vector extended with what the iterator gives.\<close>

lemma from_iter_refines:
  fixes items :: "'a next_item list"
  assumes "cap \<le> LEN_MAX"
  obtains out where "av_from_iter cap zst items = Inr out"
    "refines out (sp_extend zst items (bounded_new cap))"
proof -
  obtain v :: "'a array_vec" where v: "av_new cap = Inr v" using assms by (auto simp: av_new_def)
  then show thesis
    using that extend_refines [OF models_new [OF v], of zst items]
    by (simp add: av_from_iter_def bounded_new_def)
qed

lemma clone_refines:
  assumes "models v s"
  obtains out where "av_clone zst clone v = Some (Inr out)"
    "refines out (sp_extend zst (map clone (bd_elems s)) (bounded_new (bd_cap s)))"
proof -
  have "bd_cap s \<le> LEN_MAX" "av_capacity v = bd_cap s" using assms by (auto simp: models_def)
  with from_iter_refines [of "bd_cap s" zst "map clone (bd_elems s)"] that show thesis
    by (auto simp: av_clone_def models_slice [OF assms])
qed

text \<open>Writing bytes takes what fits.\<close>

lemma write_refines:
  assumes "models v s"
  shows "refines (av_write data v)
    (let n = min (bd_cap s - length (bd_elems s)) (length data) in
     Returns n (s\<lparr>bd_elems := bd_elems s @ take n data\<rparr>))"
proof -
  let ?n = "min (bd_cap s - length (bd_elems s)) (length data)"
  have "\<not> bd_cap s < length (bd_elems s) + length (take ?n data)"
    using models_fits [OF assms] by simp
  with try_extend_refines [OF assms, of "take ?n data"] show ?thesis
    by (cases "av_try_extend_from_slice (take ?n data) v")
      (simp_all add: av_write_def sp_try_extend_from_slice_def models_remaining [OF assms] Let_def)
qed

text \<open>
  The by-value iterator: any calls of \<open>next\<close> and \<open>next_back\<close>, then its destructor; \<open>gone\<close> and
  \<open>taken\<close> are the elements that have left at either end.
\<close>

fun into_iter_calls :: "bool list \<Rightarrow> 'a into_iter \<Rightarrow> ('a option list, 'a into_iter) outcome" where
  "into_iter_calls [] it = Returns [] it"
| "into_iter_calls (b # bs) it =
     and_run (if b then ii_next_back it else ii_next it) (\<lambda>r it.
     and_run (into_iter_calls bs it) (\<lambda>rs. Returns (r # rs)))"

definition iterating :: "'a list \<Rightarrow> 'a list \<Rightarrow> 'a option list \<Rightarrow> 'a list \<Rightarrow> 'a into_iter" where
  "iterating gone ms rest ds = \<lparr>ii_index = length gone, ii_v = vec (gone @ ms) rest ds\<rparr>"

lemma iterating_next:
  "length gone + Suc (length ms) + length rest \<le> LEN_MAX \<Longrightarrow>
   ii_next (iterating gone (m # ms) rest ds) = Returns (Some m) (iterating (gone @ [m]) ms rest ds)"
  using ptr_read_vec [of "length gone" "gone @ m # ms" rest ds]
  by (simp add: ii_next_def iterating_def)

lemma iterating_next_back:
  "length gone + Suc (length ms) + length rest \<le> LEN_MAX \<Longrightarrow>
   ii_next_back (iterating gone (ms @ [m]) rest ds) =
      Returns (Some m) (iterating gone ms (Some m # rest) ds)"
  using ptr_read_rest [of "gone @ ms" m rest ds]
  by (simp add: ii_next_back_def iterating_def set_len_shrink)

lemma iterating_end:
  assumes "length gone + length rest \<le> LEN_MAX"
  shows "ii_next (iterating gone [] rest ds) = Returns None (iterating gone [] rest ds)"
    and "ii_next_back (iterating gone [] rest ds) = Returns None (iterating gone [] rest ds)"
  using assms by (simp_all add: ii_next_def ii_next_back_def iterating_def)

lemma iterating_drop:
  assumes "length gone + length ms + length rest \<le> LEN_MAX"
  shows "\<exists>v. ii_drop (iterating gone ms rest ds) = Returns () v \<and> av_length v = 0 \<and>
    av_dropped v = ds @ ms"
proof -
  have "drop_in_place (length gone) (length ms) (vec [] (map Some (gone @ ms) @ rest) ds) =
      Returns () (vec [] (map Some (gone @ ms) @ rest) (ds @ ms))"
    by (simp add: drop_in_place_def from_raw_parts_def)
  with assms show ?thesis
    by (simp add: ii_drop_def iterating_def set_len_shrink [where n = 0, simplified]
        av_drop_def av_clear_def av_truncate_def) (simp add: vec_def)
qed

lemma into_iter_calls_deque:
  "length gone + length ms + length rest \<le> LEN_MAX \<Longrightarrow>
   \<exists>gone' rest' rs left. into_iter_calls calls (iterating gone ms rest ds) =
       Returns rs (iterating gone' left rest' ds) \<and> deque_calls calls ms = (rs, left) \<and>
     length gone' + length left + length rest' \<le> LEN_MAX"
proof (induction calls arbitrary: gone ms rest)
  case (Cons b calls)
  consider "ms = []" | n ns where "ms = n # ns" "\<not> b" | n ns where "ms = ns @ [n]" b
    by (metis neq_Nil_conv rev_exhaust)
  then show ?case
  proof cases
    case 1
    with Cons.IH [of gone "[]" rest] Cons.prems show ?thesis
      by (auto simp: iterating_end) blast
  next
    case (2 n ns)
    with Cons.IH [of "gone @ [n]" ns rest] Cons.prems show ?thesis
      by (auto simp: iterating_next) blast
  next
    case (3 n ns)
    with Cons.IH [of gone ns "Some n # rest"] Cons.prems show ?thesis
      by (auto simp: iterating_next_back) blast
  qed
qed auto

text \<open>Consuming a vector yields a deque of its elements; what is left is dropped.\<close>

lemma into_iter_session:
  assumes "models v s"
  obtains rs left it w where "into_iter_calls calls (av_into_iter v) = Returns rs it"
    "deque_calls calls (bd_elems s) = (rs, left)" "ii_drop it = Returns () w"
    "av_length w = 0" "av_dropped w = bd_dropped s @ left"
proof -
  from assms obtain ys rest ds where v: "v = vec ys rest ds" "s = seq ys (length rest) ds"
      "length ys + length rest \<le> LEN_MAX"
    by (elim modelsE)
  have it: "av_into_iter v = iterating [] ys rest ds" by (simp add: av_into_iter_def iterating_def v)
  have "length ([] :: 'a list) + length ys + length rest \<le> LEN_MAX" using v by simp
  from into_iter_calls_deque [OF this, of calls ds] obtain gone' rest' rs left where
    c: "into_iter_calls calls (iterating [] ys rest ds) = Returns rs (iterating gone' left rest' ds)"
      "deque_calls calls ys = (rs, left)" "length gone' + length left + length rest' \<le> LEN_MAX"
    by blast
  with iterating_drop [OF c(3), of ds] that show thesis
    using it v by auto
qed

end
