(* ===== verification/Array_String.thy ===== *)
theory Array_String
  imports Array_Vec_Iter Utf8
begin

text \<open>
  \<open>array_string.rs\<close> of arrayvec: a UTF-8 string of fixed capacity over an array of bytes, of which
  the first \<open>as_len\<close> are initialised. A \<open>str\<close> argument is its bytes, which are valid UTF-8. The
  contract is a list of characters whose encodings fit into the capacity; an operation that makes
  the bytes invalid would be undefined at the next \<open>deref\<close>, so the refinement shows that none does.
\<close>

section \<open>The structure\<close>

record array_string =
  as_len :: u32
  as_xs :: "u8 option list"

definition as_new :: "nat \<Rightarrow> string + array_string" where
  "as_new cap =
     (if cap > LEN_MAX then Inl ''ArrayVec: largest supported capacity is u32::MAX''
      else Inr \<lparr>as_len = 0, as_xs = replicate cap None\<rparr>)"

definition as_length :: "array_string \<Rightarrow> nat" where
  "as_length a = unat (as_len a)"

definition as_is_empty :: "array_string \<Rightarrow> bool" where
  "as_is_empty a \<longleftrightarrow> as_length a = 0"

definition as_capacity :: "array_string \<Rightarrow> nat" where
  "as_capacity a = length (as_xs a)"

definition as_is_full :: "array_string \<Rightarrow> bool" where
  "as_is_full a \<longleftrightarrow> as_length a = as_capacity a"

definition as_remaining_capacity :: "array_string \<Rightarrow> nat" where
  "as_remaining_capacity a = as_capacity a - as_length a"

definition as_set_len :: "nat \<Rightarrow> array_string \<Rightarrow> (unit, array_string) outcome" where
  "as_set_len n a =
     (if \<not> n \<le> as_capacity a then Panics ''assertion failed: length <= self.capacity()'' a
      else Returns () (a\<lparr>as_len := of_nat n\<rparr>))"

text \<open>
  \<open>deref\<close>: undefined on bytes never written, and on bytes that are no UTF-8
  (\<open>from_utf8_unchecked\<close>).
\<close>

definition as_deref :: "array_string \<Rightarrow> (u8 list, array_string) outcome" where
  "as_deref a =
     (if as_length a \<le> length (as_xs a)
      then case those (take (as_length a) (as_xs a)) of
          None \<Rightarrow> Undefined
        | Some bs \<Rightarrow> if utf8_valid bs then Returns bs a else Undefined
      else Undefined)"

section \<open>Appending\<close>

definition as_try_push ::
  "u32 \<Rightarrow> array_string \<Rightarrow> (u32 capacity_error + unit, array_string) outcome" where
  "as_try_push c a =
     (let len = as_length a; remaining_cap = as_capacity a - len in
      case encode_utf8 c len remaining_cap (as_xs a) of
        None \<Rightarrow> Undefined
      | Some (Some n, xs) \<Rightarrow>
          and_run (as_set_len (len + n) (a\<lparr>as_xs := xs\<rparr>)) (\<lambda>_. Returns (Inr ()))
      | Some (None, xs) \<Rightarrow> Returns (Inl (CapacityError c)) (a\<lparr>as_xs := xs\<rparr>))"

fun unwrap_unit :: "'e + unit \<Rightarrow> 's \<Rightarrow> (unit, 's) outcome" where
  "unwrap_unit (Inr u) a = Returns () a"
| "unwrap_unit (Inl e) a = Panics unwrap_panic a"

definition as_push :: "u32 \<Rightarrow> array_string \<Rightarrow> (unit, array_string) outcome" where
  "as_push c a = and_run (as_try_push c a) unwrap_unit"

definition as_try_push_str ::
  "u8 list \<Rightarrow> array_string \<Rightarrow> (u8 list capacity_error + unit, array_string) outcome" where
  "as_try_push_str s a =
     (if length s > as_capacity a - as_length a then Returns (Inl (CapacityError s)) a
      else if as_length a + length s \<le> length (as_xs a) then
        let a = a\<lparr>as_xs := blit (map Some s) (as_length a) (as_xs a)\<rparr>; newl = as_length a + length s in
        and_run (as_set_len newl a) (\<lambda>_. Returns (Inr ()))
      else Undefined)"

definition as_push_str :: "u8 list \<Rightarrow> array_string \<Rightarrow> (unit, array_string) outcome" where
  "as_push_str s a = and_run (as_try_push_str s a) unwrap_unit"

section \<open>Removing\<close>

definition as_pop :: "array_string \<Rightarrow> (u32 option, array_string) outcome" where
  "as_pop a =
     and_run (as_deref a) (\<lambda>bs a.
       case rev (utf8_chars bs) of
         [] \<Rightarrow> Returns None a
       | ch # _ \<Rightarrow> and_run (as_set_len (as_length a - len_utf8 ch) a) (\<lambda>_. Returns (Some ch)))"

text \<open>\<open>str::is_char_boundary\<close>: the ends, and every byte that continues no character.\<close>

definition is_char_boundary :: "nat \<Rightarrow> u8 list \<Rightarrow> bool" where
  "is_char_boundary n bs \<longleftrightarrow> n = 0 \<or> n = length bs \<or> n < length bs \<and> \<not> is_cont (bs ! n)"

definition as_truncate :: "nat \<Rightarrow> array_string \<Rightarrow> (unit, array_string) outcome" where
  "as_truncate new_len a =
     (if new_len \<le> as_length a
      then and_run (as_deref a) (\<lambda>bs a.
        if \<not> is_char_boundary new_len bs
        then Panics ''assertion failed: self.is_char_boundary(new_len)'' a
        else as_set_len new_len a)
      else Returns () a)"

text \<open>\<open>&self[idx..]\<close>; the panic's message is abbreviated.\<close>

definition slice_from :: "nat \<Rightarrow> u8 list \<Rightarrow> 's \<Rightarrow> (u8 list, 's) outcome" where
  "slice_from idx bs a =
     (if is_char_boundary idx bs then Returns (drop idx bs) a
      else Panics ''byte index is not a char boundary'' a)"

definition as_copy :: "nat \<Rightarrow> nat \<Rightarrow> nat \<Rightarrow> array_string \<Rightarrow> (unit, array_string) outcome" where
  "as_copy src dst n a =
     (if src + n \<le> length (as_xs a) \<and> dst + n \<le> length (as_xs a)
      then Returns () (a\<lparr>as_xs := memmove src dst n (as_xs a)\<rparr>) else Undefined)"

definition as_remove :: "nat \<Rightarrow> array_string \<Rightarrow> (u32, array_string) outcome" where
  "as_remove idx a =
     and_run (as_deref a) (\<lambda>bs a.
     and_run (slice_from idx bs a) (\<lambda>tail a.
       case utf8_chars tail of
         [] \<Rightarrow> Panics ''cannot remove a char from the end of a string'' a
       | ch # _ \<Rightarrow>
           let next_idx = idx + len_utf8 ch; len = as_length a in
           and_run (as_copy next_idx idx (len - next_idx) a) (\<lambda>_ a.
           and_run (as_set_len (len - (next_idx - idx)) a) (\<lambda>_. Returns ch))))"

definition as_clear :: "array_string \<Rightarrow> (unit, array_string) outcome" where
  "as_clear a = as_set_len 0 a"

section \<open>Construction, conversion, comparison\<close>

definition as_from :: "nat \<Rightarrow> u8 list \<Rightarrow> string + (u8 list capacity_error + unit, array_string) outcome" where
  "as_from cap s = (case as_new cap of Inl m \<Rightarrow> Inl m | Inr a \<Rightarrow> Inr (as_try_push_str s a))"

text \<open>\<open>None\<close> is the error of \<open>str::from_utf8\<close>; the array has the length of the capacity.\<close>

definition as_from_byte_string ::
  "u8 list \<Rightarrow> (string + (unit, array_string) outcome) option" where
  "as_from_byte_string b =
     (if \<not> utf8_valid b then None
      else Some (case as_new (length b) of
          Inl m \<Rightarrow> Inl m
        | Inr a \<Rightarrow> Inr (as_set_len (length b) (a\<lparr>as_xs := map Some b\<rparr>))))"

definition as_zero_filled :: "nat \<Rightarrow> string + array_string" where
  "as_zero_filled cap =
     (if cap > LEN_MAX then Inl ''ArrayVec: largest supported capacity is u32::MAX''
      else Inr \<lparr>as_len = of_nat cap, as_xs = replicate cap (Some 0)\<rparr>)"

definition as_write_char :: "u32 \<Rightarrow> array_string \<Rightarrow> (unit + unit, array_string) outcome" where
  "as_write_char c a = and_run (as_try_push c a) (\<lambda>r. Returns (case r of Inl _ \<Rightarrow> Inl () | Inr u \<Rightarrow> Inr u))"

definition as_write_str :: "u8 list \<Rightarrow> array_string \<Rightarrow> (unit + unit, array_string) outcome" where
  "as_write_str s a = and_run (as_try_push_str s a) (\<lambda>r. Returns (case r of Inl _ \<Rightarrow> Inl () | Inr u \<Rightarrow> Inr u))"

definition as_clone_from :: "u8 list \<Rightarrow> array_string \<Rightarrow> (unit, array_string) outcome" where
  "as_clone_from rhs a = and_run (as_clear a) (\<lambda>_ a. and_run (as_try_push_str rhs a) (\<lambda>_. Returns ()))"

text \<open>\<open>write_fmt\<close> hands over the pieces of a format one by one, and stops at the first error.\<close>

fun feed :: "('x \<Rightarrow> 's \<Rightarrow> ('e + unit, 's) outcome) \<Rightarrow> 'x list \<Rightarrow> 's \<Rightarrow> ('e + unit, 's) outcome" where
  "feed put [] s = Returns (Inr ()) s"
| "feed put (x # xs) s =
     and_run (put x s) (\<lambda>r s. case r of Inl e \<Rightarrow> Returns (Inl e) s | Inr u \<Rightarrow> feed put xs s)"

definition as_from_fmt ::
  "nat \<Rightarrow> u8 list list \<Rightarrow> string + (unit capacity_error + unit, array_string) outcome" where
  "as_from_fmt cap pieces =
     (case as_new cap of
        Inl m \<Rightarrow> Inl m
      | Inr a \<Rightarrow> Inr (and_run (feed as_write_str pieces a)
          (\<lambda>r. Returns (case r of Inl e \<Rightarrow> Inl (CapacityError e) | Inr u \<Rightarrow> Inr u))))"

text \<open>
  \<open>borsh\<close>: a length, so many bytes (\<open>rest\<close> is what the reader still holds), which must be UTF-8.
\<close>

definition as_deserialize_reader ::
  "nat \<Rightarrow> string + u32 \<Rightarrow> u8 list \<Rightarrow> string + (unit, array_string) outcome" where
  "as_deserialize_reader cap hdr rest =
     (case hdr of
        Inl e \<Rightarrow> Inl e
      | Inr len \<Rightarrow>
          if unat len > cap then Inl (''Expected a string no more than '' @ show_nat cap @ '' bytes long'')
          else if length rest < unat len then Inl ''failed to fill whole buffer''
          else let buf = take (unat len) rest in
            if \<not> utf8_valid buf then Inl ''invalid utf-8''
            else case as_from cap buf of
                Inl m \<Rightarrow> Inl m
              | Inr r \<Rightarrow> Inr (and_run r unwrap_unit))"

text \<open>\<open>Zeroize\<close>: no element to drop, then every byte.\<close>

definition as_zeroize :: "array_string \<Rightarrow> (unit, array_string) outcome" where
  "as_zeroize a = and_run (as_clear a) (\<lambda>_ a. Returns () (a\<lparr>as_xs := replicate (as_capacity a) (Some 0)\<rparr>))"

lemma zeroize_wipes:
  "as_zeroize a = Returns () b \<Longrightarrow> as_length b = 0 \<and> as_xs b = replicate (as_capacity a) (Some 0)"
  by (auto simp: as_zeroize_def as_clear_def as_set_len_def as_length_def as_capacity_def)

definition as_str :: "array_string \<Rightarrow> u8 list option" where
  "as_str a = (case as_deref a of Returns bs _ \<Rightarrow> Some bs | _ \<Rightarrow> None)"

definition as_eq :: "array_string \<Rightarrow> array_string \<Rightarrow> bool" where
  "as_eq a b \<longleftrightarrow> as_str a = as_str b"

definition as_cmp :: "array_string \<Rightarrow> array_string \<Rightarrow> ordering option" where
  "as_cmp a b =
     (case (as_str a, as_str b) of
        (Some x, Some y) \<Rightarrow> Some (slice_cmp ord_cmp x y) | _ \<Rightarrow> None)"

section \<open>Character boundaries\<close>

lemma enc_cont:
  assumes "is_scalar c" and "i < len_utf8 c"
  shows "is_cont (utf8_enc c ! i) \<longleftrightarrow> i \<noteq> 0"
proof -
  define n where "n = unat c"
  have n: "n < 1114112" using assms(1) by (auto simp: is_scalar_def n_def)
  have lead: "\<not> is_cont (of_nat m :: u8)" if "192 \<le> m" "m < 256" for m
    using that by (simp add: is_cont_def del: of_nat_add)
  have cont: "is_cont (of_nat (128 + m mod 64))" for m
    using cont_u8 [of "m mod 64"] by simp
  consider "n < 128" | "128 \<le> n" "n < 2048" | "2048 \<le> n" "n < 65536" | "65536 \<le> n" by linarith
  then show ?thesis
  proof cases
    case 1
    with assms show ?thesis by (simp add: len_utf8_def utf8_enc_def n_def [symmetric] is_cont_def)
  next
    case 2
    then have "n div 64 < 32" by (simp add: less_mult_imp_div_less)
    with 2 assms lead [of "192 + n div 64"] cont [of n] show ?thesis
      by (auto simp: len_utf8_def utf8_enc_def n_def [symmetric] less_Suc_eq simp del: of_nat_add)
  next
    case 3
    then have "n div 4096 < 16" by (simp add: less_mult_imp_div_less)
    with 3 assms lead [of "224 + n div 4096"] cont [of n] cont [of "n div 64"] show ?thesis
      by (auto simp: len_utf8_def utf8_enc_def n_def [symmetric] less_Suc_eq simp del: of_nat_add)
  next
    case 4
    with n have "n div 262144 < 5" by (simp add: less_mult_imp_div_less)
    with 4 assms lead [of "240 + n div 262144"] cont [of n] cont [of "n div 64"] cont [of "n div 4096"]
    show ?thesis
      by (auto simp: len_utf8_def utf8_enc_def n_def [symmetric] less_Suc_eq simp del: of_nat_add)
  qed
qed

text \<open>Cutting a text at a byte offset, when that falls between two characters.\<close>

definition nbytes :: "u32 list \<Rightarrow> nat" where
  "nbytes cs = length (utf8_encode_all cs)"

lemma nbytes_simps [simp]:
  "nbytes [] = 0" "nbytes (c # cs) = len_utf8 c + nbytes cs" "nbytes (as @ bs) = nbytes as + nbytes bs"
  by (simp_all add: nbytes_def len_utf8_def)

fun split_at_byte :: "nat \<Rightarrow> u32 list \<Rightarrow> (u32 list \<times> u32 list) option" where
  "split_at_byte n [] = (if n = 0 then Some ([], []) else None)"
| "split_at_byte n (c # cs) =
     (if n = 0 then Some ([], c # cs)
      else if n < len_utf8 c then None
      else map_option (\<lambda>(as, bs). (c # as, bs)) (split_at_byte (n - len_utf8 c) cs))"

lemma split_at_byte_sound:
  "split_at_byte n cs = Some (as, bs) \<Longrightarrow> cs = as @ bs \<and> n = nbytes as"
  by (induction n cs arbitrary: as bs rule: split_at_byte.induct) (auto split: if_splits)

lemma split_at_byte_0 [simp]: "split_at_byte 0 cs = Some ([], cs)"
  by (cases cs) auto

lemma len_utf8_pos [simp]: "0 < len_utf8 c"
  using len_utf8_bounds(1) [of c] by linarith

lemma split_at_byte_nbytes: "split_at_byte (nbytes as) (as @ bs) = Some (as, bs)"
  by (induction as) simp_all

lemma boundary_past:
  assumes "is_scalar c" and "list_all is_scalar cs"
  shows "is_char_boundary (len_utf8 c + n) (utf8_enc c @ utf8_encode_all cs) \<longleftrightarrow>
    is_char_boundary n (utf8_encode_all cs)"
proof (cases cs)
  case (Cons d ds)
  with assms have "\<not> is_cont (utf8_enc d ! 0)" using enc_cont [of d 0] by simp
  with Cons show ?thesis
    by (auto simp: is_char_boundary_def len_utf8_def nth_append)
qed (auto simp: is_char_boundary_def len_utf8_def)

lemma boundary_iff:
  "list_all is_scalar cs \<Longrightarrow> is_char_boundary n (utf8_encode_all cs) \<longleftrightarrow> split_at_byte n cs \<noteq> None"
proof (induction cs arbitrary: n)
  case Nil
  show ?case by (auto simp: is_char_boundary_def)
next
  case (Cons c cs)
  consider "n = 0" | "0 < n" "n < len_utf8 c" | m where "n = len_utf8 c + m"
    using le_Suc_ex not_less by blast
  then show ?case
  proof cases
    case 2
    with Cons.prems enc_cont [of c n] show ?thesis
      by (auto simp: is_char_boundary_def nth_append len_utf8_def)
  next
    case (3 m)
    with Cons boundary_past [of c cs m] show ?thesis by (cases "split_at_byte m cs") auto
  qed (simp add: is_char_boundary_def)
qed

section \<open>The contract\<close>

record bounded_text =
  bt_cap :: nat
  bt_chars :: "u32 list"

definition spells :: "array_string \<Rightarrow> bounded_text \<Rightarrow> bool" where
  "spells a t \<longleftrightarrow> as_length a = nbytes (bt_chars t) \<and> as_capacity a = bt_cap t \<and> bt_cap t \<le> LEN_MAX \<and>
     take (nbytes (bt_chars t)) (as_xs a) = map Some (utf8_encode_all (bt_chars t)) \<and>
     list_all is_scalar (bt_chars t)"

abbreviation implements :: "('r, array_string) outcome \<Rightarrow> ('r, bounded_text) outcome \<Rightarrow> bool" where
  "implements \<equiv> outcome_rel spells"

definition text_str :: "u32 list \<Rightarrow> u8 option list \<Rightarrow> array_string" where
  "text_str cs rest = \<lparr>as_len = of_nat (nbytes cs), as_xs = map Some (utf8_encode_all cs) @ rest\<rparr>"

lemma length_encode_all [simp]: "length (utf8_encode_all cs) = nbytes cs"
  by (simp add: nbytes_def)

lemma length_enc [simp]: "length (utf8_enc c) = len_utf8 c"
  by (simp add: len_utf8_def)

lemma as_length_cells [simp]: "as_length (a\<lparr>as_xs := xs\<rparr>) = as_length a"
  by (simp add: as_length_def)

lemma text_str_simps [simp]:
  "nbytes cs \<le> LEN_MAX \<Longrightarrow> as_length (text_str cs rest) = nbytes cs"
  "as_capacity (text_str cs rest) = nbytes cs + length rest"
  "as_xs (text_str cs rest) = map Some (utf8_encode_all cs) @ rest"
  by (simp_all add: text_str_def as_length_def as_capacity_def)

lemma text_str_cells [simp]:
  "text_str cs rest\<lparr>as_xs := map Some (utf8_encode_all cs) @ rest\<rparr> = text_str cs rest"
  by (simp add: text_str_def)

lemma spells_text [simp]:
  "spells (text_str cs rest) \<lparr>bt_cap = n, bt_chars = cs\<rparr> \<longleftrightarrow>
     n = nbytes cs + length rest \<and> n \<le> LEN_MAX \<and> list_all is_scalar cs"
  by (auto simp: spells_def)

lemma spellsE:
  assumes "spells a t"
  obtains cs rest where "a = text_str cs rest" "t = \<lparr>bt_cap = nbytes cs + length rest, bt_chars = cs\<rparr>"
    "nbytes cs + length rest \<le> LEN_MAX" "list_all is_scalar cs"
proof -
  let ?cs = "bt_chars t" and ?rest = "drop (nbytes (bt_chars t)) (as_xs a)"
  have "as_xs a = take (nbytes ?cs) (as_xs a) @ ?rest" by simp
  also have "take (nbytes ?cs) (as_xs a) = map Some (utf8_encode_all ?cs)"
    using assms by (simp add: spells_def)
  finally have xs: "as_xs a = map Some (utf8_encode_all ?cs) @ ?rest" .
  moreover have len: "as_len a = of_nat (nbytes ?cs)"
  proof -
    have "as_len a = of_nat (as_length a)" by (simp add: as_length_def)
    with assms show ?thesis by (simp add: spells_def)
  qed
  ultimately have "a = text_str ?cs ?rest" by (simp add: text_str_def)
  moreover have "nbytes ?cs + length ?rest = bt_cap t"
  proof -
    have "length (as_xs a) = nbytes ?cs + length ?rest"
      using arg_cong [OF xs, of length] by (simp only: length_append length_map length_encode_all)
    with assms show ?thesis unfolding spells_def as_capacity_def by metis
  qed
  ultimately show thesis
    using assms that [of ?cs ?rest] by (simp add: spells_def)
qed

lemma spells_new: "as_new cap = Inr a \<Longrightarrow> spells a \<lparr>bt_cap = cap, bt_chars = []\<rparr>"
  by (auto simp: as_new_def spells_def as_length_def as_capacity_def split: if_splits)

lemma deref_text:
  "nbytes cs \<le> LEN_MAX \<Longrightarrow> list_all is_scalar cs \<Longrightarrow>
   as_deref (text_str cs rest) = Returns (utf8_encode_all cs) (text_str cs rest)"
  by (simp add: as_deref_def utf8_valid_encode_all)

lemma text_strI:
  "n = nbytes cs \<Longrightarrow> xs = map Some (utf8_encode_all cs) @ rest \<Longrightarrow>
   \<lparr>as_len = of_nat n, as_xs = xs\<rparr> = text_str cs rest"
  by (simp add: text_str_def)

lemma set_len_text:
  "n = nbytes ds \<Longrightarrow> n \<le> length xs \<Longrightarrow> xs = map Some (utf8_encode_all ds) @ rest' \<Longrightarrow>
   as_xs a = xs \<Longrightarrow> as_set_len n a = Returns () (text_str ds rest')"
  by (cases a) (simp add: as_set_len_def as_capacity_def text_str_def)

section \<open>The operations implement the contract\<close>

definition tx_try_push :: "u32 \<Rightarrow> bounded_text \<Rightarrow> (u32 capacity_error + unit, bounded_text) outcome" where
  "tx_try_push c t =
     (if nbytes (bt_chars t) + len_utf8 c \<le> bt_cap t then Returns (Inr ()) (t\<lparr>bt_chars := bt_chars t @ [c]\<rparr>)
      else Returns (Inl (CapacityError c)) t)"

definition tx_try_push_str ::
  "u32 list \<Rightarrow> bounded_text \<Rightarrow> (u8 list capacity_error + unit, bounded_text) outcome" where
  "tx_try_push_str cs t =
     (if nbytes (bt_chars t) + nbytes cs \<le> bt_cap t then Returns (Inr ()) (t\<lparr>bt_chars := bt_chars t @ cs\<rparr>)
      else Returns (Inl (CapacityError (utf8_encode_all cs))) t)"

definition tx_pop :: "bounded_text \<Rightarrow> (u32 option, bounded_text) outcome" where
  "tx_pop t = (if bt_chars t = [] then Returns None t
     else Returns (Some (last (bt_chars t))) (t\<lparr>bt_chars := butlast (bt_chars t)\<rparr>))"

definition tx_truncate :: "nat \<Rightarrow> bounded_text \<Rightarrow> (unit, bounded_text) outcome" where
  "tx_truncate n t =
     (if n > nbytes (bt_chars t) then Returns () t
      else case split_at_byte n (bt_chars t) of
          None \<Rightarrow> Panics ''assertion failed: self.is_char_boundary(new_len)'' t
        | Some (as, bs) \<Rightarrow> Returns () (t\<lparr>bt_chars := as\<rparr>))"

definition tx_remove :: "nat \<Rightarrow> bounded_text \<Rightarrow> (u32, bounded_text) outcome" where
  "tx_remove n t =
     (case split_at_byte n (bt_chars t) of
        None \<Rightarrow> Panics ''byte index is not a char boundary'' t
      | Some (as, []) \<Rightarrow> Panics ''cannot remove a char from the end of a string'' t
      | Some (as, c # bs) \<Rightarrow> Returns c (t\<lparr>bt_chars := as @ bs\<rparr>))"

lemma blit_cells:
  "length ys \<le> length rest \<Longrightarrow> blit (map Some ys) (length xs) (map Some xs @ rest) =
     map Some (xs @ ys) @ drop (length ys) rest"
  by (simp add: blit_def)

lemma as_try_push_implements:
  "spells a t \<Longrightarrow> is_scalar c \<Longrightarrow> implements (as_try_push c a) (tx_try_push c t)"
proof (elim spellsE)
  fix cs and rest :: "u8 option list"
  assume c: "is_scalar c" and a: "a = text_str cs rest"
    "t = \<lparr>bt_cap = nbytes cs + length rest, bt_chars = cs\<rparr>"
    "nbytes cs + length rest \<le> LEN_MAX" "list_all is_scalar cs"
  show ?thesis
  proof (cases "len_utf8 c \<le> length rest")
    case True
    let ?rest = "drop (len_utf8 c) rest"
    have e: "encode_utf8 c (nbytes cs) (length rest) (map Some (utf8_encode_all cs) @ rest) =
        Some (Some (len_utf8 c), map Some (utf8_encode_all (cs @ [c])) @ ?rest)"
      using True c encode_utf8_ok [of "nbytes cs" c "map Some (utf8_encode_all cs) @ rest" "length rest"]
        blit_cells [of "utf8_enc c" rest "utf8_encode_all cs"]
      by simp
    have "as_set_len (nbytes cs + len_utf8 c)
        (text_str cs rest\<lparr>as_xs := map Some (utf8_encode_all (cs @ [c])) @ ?rest\<rparr>) =
        Returns () (text_str (cs @ [c]) ?rest)"
      using True by (intro set_len_text [OF _ _ refl]) simp_all
    with a c True e show ?thesis
      by (simp add: as_try_push_def tx_try_push_def)
  next
    case False
    with a show ?thesis
      using encode_utf8_short [of "length rest" c "nbytes cs" "map Some (utf8_encode_all cs) @ rest"]
      by (simp add: as_try_push_def tx_try_push_def)
  qed
qed

lemma as_try_push_str_implements:
  "spells a t \<Longrightarrow> list_all is_scalar ds \<Longrightarrow>
   implements (as_try_push_str (utf8_encode_all ds) a) (tx_try_push_str ds t)"
proof (elim spellsE)
  fix cs and rest :: "u8 option list"
  assume d: "list_all is_scalar ds" and a: "a = text_str cs rest"
    "t = \<lparr>bt_cap = nbytes cs + length rest, bt_chars = cs\<rparr>"
    "nbytes cs + length rest \<le> LEN_MAX" "list_all is_scalar cs"
  show ?thesis
  proof (cases "nbytes ds \<le> length rest")
    case True
    let ?rest = "drop (nbytes ds) rest"
    have b: "blit (map Some (utf8_encode_all ds)) (nbytes cs) (map Some (utf8_encode_all cs) @ rest) =
        map Some (utf8_encode_all (cs @ ds)) @ ?rest"
      using True blit_cells [of "utf8_encode_all ds" rest "utf8_encode_all cs"] by simp
    have "as_set_len (nbytes cs + nbytes ds)
        (text_str cs rest\<lparr>as_xs := map Some (utf8_encode_all (cs @ ds)) @ ?rest\<rparr>) =
        Returns () (text_str (cs @ ds) ?rest)"
      using True by (intro set_len_text [OF _ _ refl]) simp_all
    with a d True b show ?thesis
      by (simp add: as_try_push_str_def tx_try_push_str_def Let_def)
  next
    case False
    with a show ?thesis by (simp add: as_try_push_str_def tx_try_push_str_def)
  qed
qed

lemma as_pop_implements: "spells a t \<Longrightarrow> implements (as_pop a) (tx_pop t)"
proof (elim spellsE)
  fix cs and rest :: "u8 option list"
  assume a: "a = text_str cs rest" "t = \<lparr>bt_cap = nbytes cs + length rest, bt_chars = cs\<rparr>"
    "nbytes cs + length rest \<le> LEN_MAX" "list_all is_scalar cs"
  then have p: "as_pop a = (case rev cs of
        [] \<Rightarrow> Returns None a
      | ch # _ \<Rightarrow> and_run (as_set_len (nbytes cs - len_utf8 ch) a) (\<lambda>_. Returns (Some ch)))"
    by (simp add: as_pop_def deref_text utf8_chars_encode_all cong: list.case_cong)
  show ?thesis
  proof (cases cs rule: rev_cases)
    case (snoc ds d)
    with a have "as_set_len (nbytes ds) a = Returns () (text_str ds (map Some (utf8_enc d) @ rest))"
      by (intro set_len_text [OF _ _ refl]) simp_all
    with a p snoc show ?thesis by (simp add: tx_pop_def)
  next
    case Nil
    with a p show ?thesis by (simp add: tx_pop_def)
  qed
qed

lemma as_truncate_implements: "spells a t \<Longrightarrow> implements (as_truncate n a) (tx_truncate n t)"
proof (elim spellsE)
  fix cs and rest :: "u8 option list"
  assume a: "a = text_str cs rest" "t = \<lparr>bt_cap = nbytes cs + length rest, bt_chars = cs\<rparr>"
    "nbytes cs + length rest \<le> LEN_MAX" "list_all is_scalar cs"
  show ?thesis
  proof (cases "split_at_byte n cs")
    case None
    with a boundary_iff [OF a(4), of n] show ?thesis
      by (simp add: as_truncate_def tx_truncate_def deref_text)
  next
    case (Some p)
    obtain as bs where p: "p = (as, bs)" by (cases p)
    with Some split_at_byte_sound [of n cs as bs] have s: "cs = as @ bs" "n = nbytes as" by auto
    with a have "as_set_len n a = Returns () (text_str as (map Some (utf8_encode_all bs) @ rest))"
      by (intro set_len_text [OF _ _ refl]) simp_all
    with a s Some p boundary_iff [OF a(4), of n] show ?thesis
      by (simp add: as_truncate_def tx_truncate_def deref_text)
  qed
qed

lemma remove_cells:
  "memmove (length as + length cs) (length as) (length bs) (as @ cs @ bs @ rest) =
     as @ bs @ drop (length bs) (cs @ bs @ rest)"
  by (simp add: memmove_def)

lemma as_remove_implements: "spells a t \<Longrightarrow> implements (as_remove n a) (tx_remove n t)"
proof (elim spellsE)
  fix cs and rest :: "u8 option list"
  assume a: "a = text_str cs rest" "t = \<lparr>bt_cap = nbytes cs + length rest, bt_chars = cs\<rparr>"
    "nbytes cs + length rest \<le> LEN_MAX" "list_all is_scalar cs"
  note start = as_remove_def tx_remove_def slice_from_def
  show ?thesis
  proof (cases "split_at_byte n cs")
    case None
    with a boundary_iff [OF a(4), of n] show ?thesis by (simp add: start deref_text)
  next
    case (Some p)
    obtain as bs where p: "p = (as, bs)" by (cases p)
    with Some split_at_byte_sound [of n cs as bs] have s: "cs = as @ bs" "n = nbytes as" by auto
    with a(4) have chars: "utf8_chars (drop n (utf8_encode_all cs)) = bs"
      by (simp add: utf8_chars_encode_all)
    show ?thesis
    proof (cases bs)
      case Nil
      with a Some p s chars boundary_iff [OF a(4), of n] show ?thesis by (simp add: start deref_text)
    next
      case (Cons c ds)
      let ?cells = "map Some (utf8_encode_all (as @ ds))"
      let ?rest = "drop (nbytes ds) (map Some (utf8_encode_all (c # ds)) @ rest)"
      have copy: "as_copy (n + len_utf8 c) n (nbytes ds) a = Returns () (a\<lparr>as_xs := ?cells @ ?rest\<rparr>)"
        using a(1) s Cons remove_cells [of "map Some (utf8_encode_all as)" "map Some (utf8_enc c)"
            "map Some (utf8_encode_all ds)" rest]
        by (simp add: as_copy_def)
      have set: "as_set_len (nbytes (as @ ds)) (a\<lparr>as_xs := ?cells @ ?rest\<rparr>) =
          Returns () (text_str (as @ ds) ?rest)"
        by (intro set_len_text [OF _ _ refl]) simp_all
      have bound: "is_char_boundary n (utf8_encode_all cs)"
        using boundary_iff [OF a(4), of n] Some by simp
      have "as_remove n a = Returns c (text_str (as @ ds) ?rest)"
        using a bound chars copy set s Cons by (simp add: as_remove_def slice_from_def deref_text Let_def)
      moreover have "tx_remove n t = Returns c \<lparr>bt_cap = bt_cap t, bt_chars = as @ ds\<rparr>"
        using a Some p Cons by (simp add: tx_remove_def)
      moreover have "spells (text_str (as @ ds) ?rest) \<lparr>bt_cap = bt_cap t, bt_chars = as @ ds\<rparr>"
        using a s Cons by simp
      ultimately show ?thesis by simp
    qed
  qed
qed

section \<open>The string as a machine\<close>

text \<open>A text argument is given by its characters; the operation gets their UTF-8 bytes.\<close>

datatype str_op =
  SPush u32 | STry_push u32 | SPush_str "u32 list" | STry_push_str "u32 list" | SPop
  | STruncate nat | SRemove nat | SClear | SClone_from "u32 list"

datatype str_obs = SDone | SChar "u32 option" | SRefused | SPanicked string

fun str_op_ok :: "str_op \<Rightarrow> bool" where
  "str_op_ok (SPush c) \<longleftrightarrow> is_scalar c"
| "str_op_ok (STry_push c) \<longleftrightarrow> is_scalar c"
| "str_op_ok (SPush_str cs) \<longleftrightarrow> list_all is_scalar cs"
| "str_op_ok (STry_push_str cs) \<longleftrightarrow> list_all is_scalar cs"
| "str_op_ok (SClone_from cs) \<longleftrightarrow> list_all is_scalar cs"
| "str_op_ok _ \<longleftrightarrow> True"

definition str_stored :: "'e + unit \<Rightarrow> str_obs" where
  "str_stored r = (case r of Inl _ \<Rightarrow> SRefused | Inr _ \<Rightarrow> SDone)"

abbreviation str_observe :: "('r \<Rightarrow> str_obs) \<Rightarrow> ('r, 's) outcome \<Rightarrow> (str_obs \<times> 's) option" where
  "str_observe \<equiv> observed SPanicked"

fun str_step :: "str_op \<Rightarrow> array_string \<Rightarrow> (str_obs \<times> array_string) option" where
  "str_step (SPush c) a = str_observe (\<lambda>_. SDone) (as_push c a)"
| "str_step (STry_push c) a = str_observe str_stored (as_try_push c a)"
| "str_step (SPush_str cs) a = str_observe (\<lambda>_. SDone) (as_push_str (utf8_encode_all cs) a)"
| "str_step (STry_push_str cs) a = str_observe str_stored (as_try_push_str (utf8_encode_all cs) a)"
| "str_step SPop a = str_observe SChar (as_pop a)"
| "str_step (STruncate n) a = str_observe (\<lambda>_. SDone) (as_truncate n a)"
| "str_step (SRemove n) a = str_observe (\<lambda>c. SChar (Some c)) (as_remove n a)"
| "str_step SClear a = str_observe (\<lambda>_. SDone) (as_clear a)"
| "str_step (SClone_from cs) a = str_observe (\<lambda>_. SDone) (as_clone_from (utf8_encode_all cs) a)"

definition tx_clear :: "bounded_text \<Rightarrow> (unit, bounded_text) outcome" where
  "tx_clear t = Returns () (t\<lparr>bt_chars := []\<rparr>)"

fun text_step :: "str_op \<Rightarrow> bounded_text \<Rightarrow> (str_obs \<times> bounded_text) option" where
  "text_step (SPush c) t = str_observe (\<lambda>_. SDone) (and_run (tx_try_push c t) unwrap_unit)"
| "text_step (STry_push c) t = str_observe str_stored (tx_try_push c t)"
| "text_step (SPush_str cs) t = str_observe (\<lambda>_. SDone) (and_run (tx_try_push_str cs t) unwrap_unit)"
| "text_step (STry_push_str cs) t = str_observe str_stored (tx_try_push_str cs t)"
| "text_step SPop t = str_observe SChar (tx_pop t)"
| "text_step (STruncate n) t = str_observe (\<lambda>_. SDone) (tx_truncate n t)"
| "text_step (SRemove n) t = str_observe (\<lambda>c. SChar (Some c)) (tx_remove n t)"
| "text_step SClear t = str_observe (\<lambda>_. SDone) (tx_clear t)"
| "text_step (SClone_from cs) t = str_observe (\<lambda>_. SDone)
     (and_run (tx_clear t) (\<lambda>_ t. and_run (tx_try_push_str cs t) (\<lambda>_. Returns ())))"

lemma unwrap_unit_rel: "rel s t \<Longrightarrow> outcome_rel rel (unwrap_unit r s) (unwrap_unit r t)"
  by (cases r) auto

lemma as_clear_implements: "spells a t \<Longrightarrow> implements (as_clear a) (tx_clear t)"
proof (elim spellsE)
  fix cs and rest :: "u8 option list"
  assume a: "a = text_str cs rest" "t = \<lparr>bt_cap = nbytes cs + length rest, bt_chars = cs\<rparr>"
    "nbytes cs + length rest \<le> LEN_MAX"
  have "as_set_len 0 a = Returns () (text_str [] (as_xs a))"
    by (rule set_len_text [OF _ _ refl]) simp_all
  with a show ?thesis by (simp add: as_clear_def tx_clear_def)
qed

lemma str_step_implements:
  "spells a t \<Longrightarrow> str_op_ok op \<Longrightarrow>
   \<exists>ob a' t'. str_step op a = Some (ob, a') \<and> text_step op t = Some (ob, t') \<and> spells a' t'"
  by (cases op; hypsubst;
      unfold str_step.simps text_step.simps str_op_ok.simps as_push_def as_push_str_def as_clone_from_def;
      intro observed_rel refines_and_run as_try_push_implements as_try_push_str_implements
        as_pop_implements as_truncate_implements as_remove_implements as_clear_implements unwrap_unit_rel;
      (assumption | simp))

interpretation str_machine: implements_spec spells str_step text_step str_op_ok
  by unfold_locales (rule str_step_implements)

lemma str_step_cap: "text_step op t = Some (ob, t') \<Longrightarrow> bt_cap t' = bt_cap t"
  by (cases op)
    (auto simp: tx_try_push_def tx_try_push_str_def tx_pop_def tx_truncate_def tx_remove_def tx_clear_def
      elim!: unwrap_unit.elims split: if_splits option.splits list.splits)

lemma str_run_cap: "run_ops text_step ops t = Some (obs, t') \<Longrightarrow> bt_cap t' = bt_cap t"
  by (induction ops arbitrary: t obs) (auto split: option.splits dest: str_step_cap)

text \<open>
  C10. An \<open>ArrayString\<close> behaves as a text whose encoding fits the capacity, under every sequence
  of pushes, removals, truncations and clones (of characters that are scalar values and strings that
  are UTF-8, as \<open>char\<close> and \<open>str\<close> guarantee) with each panic caught: no operation leaves the
  buffer or reads a byte never written, characters are taken and cut at character boundaries only
  (other offsets panic), an insertion that does not fit changes nothing, and the bytes are always
  the UTF-8 encoding of the text, so the unchecked \<open>deref\<close> to \<open>str\<close> is sound.
\<close>

theorem string_stays_utf8:
  assumes "as_new cap = Inr a" and "list_all str_op_ok ops"
  shows "\<exists>obs a' t. run_ops str_step ops a = Some (obs, a') \<and>
    run_ops text_step ops \<lparr>bt_cap = cap, bt_chars = []\<rparr> = Some (obs, t) \<and>
    as_deref a' = Returns (utf8_encode_all (bt_chars t)) a' \<and>
    as_length a' = nbytes (bt_chars t) \<and> nbytes (bt_chars t) \<le> cap"
proof -
  obtain obs a' t where run: "run_ops str_step ops a = Some (obs, a')"
      "run_ops text_step ops \<lparr>bt_cap = cap, bt_chars = []\<rparr> = Some (obs, t)" "spells a' t"
    using str_machine.run_rel [OF spells_new [OF assms(1)] assms(2)] by blast
  have "bt_cap t = cap" using str_run_cap [OF run(2)] by simp
  with run(1,2) show ?thesis
    by (intro exI [of _ obs] exI [of _ a'] exI [of _ t])
      (use run(3) in \<open>auto elim!: spellsE simp: deref_text\<close>)
qed

lemma string_stays_utf8_witness:
  "\<exists>obs a' t. run_ops str_step [SPush 0xE9, STry_push 0x1F600, STruncate 1, SPop]
      \<lparr>as_len = 0, as_xs = replicate 4 None\<rparr> = Some (obs, a') \<and>
    run_ops text_step [SPush 0xE9, STry_push 0x1F600, STruncate 1, SPop] \<lparr>bt_cap = 4, bt_chars = []\<rparr> =
      Some (obs, t) \<and>
    as_deref a' = Returns (utf8_encode_all (bt_chars t)) a' \<and>
    as_length a' = nbytes (bt_chars t) \<and> nbytes (bt_chars t) \<le> 4"
  by (rule string_stays_utf8) (simp_all add: as_new_def LEN_MAX_def is_scalar_def)

section \<open>Writing piece by piece\<close>

text \<open>
  The interface of a bounded sink, as \<open>write_fmt\<close> and deserialisation use it: a piece that fits is
  appended, one that does not is refused and changes nothing. It then holds the longest run of
  pieces that fit.
\<close>

fun fitting :: "('x \<Rightarrow> 'y list) \<Rightarrow> nat \<Rightarrow> 'x list \<Rightarrow> 'x list" where
  "fitting bytes n [] = []"
| "fitting bytes n (x # xs) =
     (if length (bytes x) \<le> n then x # fitting bytes (n - length (bytes x)) xs else [])"

locale bounded_sink =
  fixes put :: "'x \<Rightarrow> 's \<Rightarrow> ('e + unit, 's) outcome"
    and bytes :: "'x \<Rightarrow> 'y list"
    and holds :: "'s \<Rightarrow> nat \<Rightarrow> 'y list \<Rightarrow> bool"
    and sound :: "'x \<Rightarrow> bool"
  assumes put_fits: "holds s cap ys \<Longrightarrow> sound x \<Longrightarrow> length ys + length (bytes x) \<le> cap \<Longrightarrow>
      \<exists>s'. put x s = Returns (Inr ()) s' \<and> holds s' cap (ys @ bytes x)"
    and put_full: "holds s cap ys \<Longrightarrow> sound x \<Longrightarrow> cap < length ys + length (bytes x) \<Longrightarrow>
      \<exists>e. put x s = Returns (Inl e) s"
begin

lemma feed_holds:
  "holds s cap ys \<Longrightarrow> length ys \<le> cap \<Longrightarrow> list_all sound xs \<Longrightarrow>
   \<exists>r s'. feed put xs s = Returns r s' \<and>
     holds s' cap (ys @ concat (map bytes (fitting bytes (cap - length ys) xs))) \<and>
     (r = Inr () \<longleftrightarrow> fitting bytes (cap - length ys) xs = xs)"
proof (induction xs arbitrary: s ys)
  case (Cons x xs)
  show ?case
  proof (cases "length ys + length (bytes x) \<le> cap")
    case True
    then obtain s' where s': "put x s = Returns (Inr ()) s'" "holds s' cap (ys @ bytes x)"
      using put_fits [OF Cons.prems(1), of x] Cons.prems(3) by auto
    with Cons.IH [OF s'(2)] Cons.prems True show ?thesis by auto
  next
    case False
    then obtain e where "put x s = Returns (Inl e) s"
      using put_full [OF Cons.prems(1), of x] Cons.prems(3) by auto
    with False Cons.prems show ?thesis by auto
  qed
qed auto

end

interpretation vec_sink: bounded_sink av_try_push "\<lambda>x. [x]"
    "\<lambda>v cap ys. models v \<lparr>bd_cap = cap, bd_elems = ys, bd_dropped = ds\<rparr>" "\<lambda>_. True" for ds
proof (unfold_locales, goal_cases)
  case (1 v cap ys x)
  from try_push_refines [OF 1(1), of x] 1(3) show ?case
    by (cases "av_try_push x v") (auto simp: sp_try_push_def)
next
  case (2 v cap ys x)
  then have "length ys = cap" using models_fits [OF 2(1)] by simp
  with 2(1) show ?case by (auto simp: av_try_push_def models_def)
qed

text \<open>The string holds the bytes of a text.\<close>

definition holds_text :: "array_string \<Rightarrow> nat \<Rightarrow> u8 list \<Rightarrow> bool" where
  "holds_text a cap bs \<longleftrightarrow>
     (\<exists>cs. bs = utf8_encode_all cs \<and> spells a \<lparr>bt_cap = cap, bt_chars = cs\<rparr>)"

lemma try_push_full: "spells a t \<Longrightarrow> bt_cap t < nbytes (bt_chars t) + len_utf8 c \<Longrightarrow>
   as_try_push c a = Returns (Inl (CapacityError c)) a"
  by (elim spellsE) (simp add: as_try_push_def encode_utf8_short)

lemma try_push_str_full: "spells a t \<Longrightarrow> bt_cap t < nbytes (bt_chars t) + length s \<Longrightarrow>
   as_try_push_str s a = Returns (Inl (CapacityError s)) a"
  by (elim spellsE) (simp add: as_try_push_str_def)

interpretation char_sink: bounded_sink as_try_push utf8_enc holds_text is_scalar
proof (unfold_locales, goal_cases)
  case (1 a cap ys c)
  then obtain cs where cs: "ys = utf8_encode_all cs" "spells a \<lparr>bt_cap = cap, bt_chars = cs\<rparr>"
    by (auto simp: holds_text_def)
  from as_try_push_implements [OF cs(2) 1(2)] 1(3) cs(1) show ?case
    by (cases "as_try_push c a")
      (auto simp: tx_try_push_def holds_text_def intro!: exI [of _ "cs @ [c]"])
next
  case (2 a cap ys c)
  then show ?case by (auto simp: holds_text_def try_push_full)
qed

interpretation str_sink: bounded_sink as_write_str "\<lambda>s. s" holds_text utf8_valid
proof (unfold_locales, goal_cases)
  case (1 a cap ys s)
  then obtain cs ds where cs: "ys = utf8_encode_all cs" "spells a \<lparr>bt_cap = cap, bt_chars = cs\<rparr>"
      and ds: "list_all is_scalar ds" "s = utf8_encode_all ds"
    by (auto simp: holds_text_def utf8_valid_iff)
  from as_try_push_str_implements [OF cs(2) ds(1)] 1(3) cs(1) ds(2) show ?case
    by (cases "as_try_push_str (utf8_encode_all ds) a")
      (auto simp: tx_try_push_str_def holds_text_def as_write_str_def intro!: exI [of _ "cs @ ds"])
next
  case (2 a cap ys s)
  then show ?case by (auto simp: holds_text_def as_write_str_def try_push_str_full)
qed

lemma holds_text_deref:
  "holds_text a cap bs \<Longrightarrow> as_deref a = Returns bs a \<and> length bs \<le> cap"
  by (auto simp: holds_text_def elim!: spellsE simp: deref_text)

lemma holds_new: "as_new cap = Inr a \<Longrightarrow> holds_text a cap []"
  unfolding holds_text_def using spells_new [of cap a] by (intro exI [of _ "[]"]) simp

text \<open>
  C26. Formatting into an \<open>ArrayString\<close> (\<open>write!\<close>, \<open>TryFrom<fmt::Arguments>\<close>) keeps whole pieces
  only: the string holds the longest prefix of the format's pieces that fits the capacity, as valid
  UTF-8, and the result is an error exactly when a piece was left out.
\<close>

theorem format_keeps_prefix:
  assumes "cap \<le> LEN_MAX" and "list_all utf8_valid pieces"
  shows "\<exists>r a. as_from_fmt cap pieces = Inr (Returns r a) \<and>
    as_deref a = Returns (concat (fitting (\<lambda>s. s) cap pieces)) a \<and>
    length (concat (fitting (\<lambda>s. s) cap pieces)) \<le> cap \<and>
    (r = Inr () \<longleftrightarrow> fitting (\<lambda>s. s) cap pieces = pieces)"
proof -
  obtain a where a: "as_new cap = Inr a" using assms(1) by (auto simp: as_new_def)
  obtain r s' where f: "feed as_write_str pieces a = Returns r s'"
      "holds_text s' cap (concat (fitting (\<lambda>s. s) cap pieces))"
      "r = Inr () \<longleftrightarrow> fitting (\<lambda>s. s) cap pieces = pieces"
    using str_sink.feed_holds [OF holds_new [OF a] _ assms(2)] by auto
  with holds_text_deref [OF f(2)] a show ?thesis
    by (cases r) (auto simp: as_from_fmt_def)
qed

lemma format_keeps_prefix_witness:
  "\<exists>r a. as_from_fmt 4 [[0x61 :: u8, 0xC3, 0xA9], [0x62], [0x63]] = Inr (Returns r a) \<and>
    as_deref a = Returns (concat (fitting (\<lambda>s. s) 4 [[0x61 :: u8, 0xC3, 0xA9], [0x62], [0x63]])) a \<and>
    length (concat (fitting (\<lambda>s. s) 4 [[0x61 :: u8, 0xC3, 0xA9], [0x62], [0x63]])) \<le> 4 \<and>
    (r = Inr () \<longleftrightarrow> fitting (\<lambda>s. s) 4 [[0x61 :: u8, 0xC3, 0xA9], [0x62], [0x63]] = [[0x61 :: u8, 0xC3, 0xA9], [0x62], [0x63]])"
  by (rule format_keeps_prefix)
    (simp_all add: LEN_MAX_def utf8_valid.simps is_cont_def six_def)

end
