(* ===== verification/Spec2Isabelle.thy ===== *)
theory Spec2Isabelle
  imports Unsafe_Counter Heap_Tracker Heap_Threads Cpu_Cycles Cpu_Threads Slot_Race Unsafe_Coverage
    Process_Exit Entry_Points
    Semver_Types Semver_Parse Semver_Display Semver_Eval Semver_Identifier
    Utf8 Array_Vec Array_Vec_Iter Array_String
begin

text \<open>
  A model of the artifact's own runtime library, \<open>unsafe_perf_source\<close>, and of two of the
  crates it measures, \<open>semver-1.0.26\<close> and \<open>arrayvec-0.7.6\<close>, with the theorems that make them
  correct. Names in the theories are those of the Rust sources, with a prefix or suffix where the
  name is taken.

  \<^bold>\<open>The program.\<close> Compiler passes insert calls of \<open>unsafe_perf\<close> into a benchmark. The library
  keeps four trackers in statics (instructions and functions, heap, cycles, covered lines), each
  fed by exported functions and each written to a file of statistics by a destructor. The
  benchmarks are ordinary crates; the two modelled here are where the unsafe code that is measured
  carries data-structure invariants.

  \<^bold>\<open>Shared theories.\<close>
  \<^item> \<open>Prelude\<close>: machine integers as words, checked arithmetic, decimal printing, \<open>memmove\<close> and
    copying into a buffer, \<open>Result\<close> as a sum, \<open>Ordering\<close> and the locale \<open>total_cmp\<close>.
  \<^item> \<open>Float64\<close>: the part of \<open>f64\<close> the percentages use, as rationals rounded to 53 bits.
  \<^item> \<open>Ordered_Map\<close>: \<open>BTreeMap\<close> as a sorted association list, behind the locale \<open>ordered_map\<close>.
  \<^item> \<open>Utf8\<close>: UTF-8 as the standard library promises it, and \<open>char.rs\<close> of arrayvec, which is proved
    to write exactly the standard encoding or nothing; a write outside the buffer has no result.

  \<^bold>\<open>unsafe_perf.\<close>
  \<^item> \<open>Runtime\<close> (\<open>lib.rs\<close>): output directory, \<open>write_output\<close>, one-time initialisation. The operating
    system is a record of functions. Locales: the output sink, the run-once dump.
  \<^item> \<open>Unsafe_Counter\<close> (\<open>unsafe_counter.rs\<close>): metadata table, bitset, counters, dump. The dump is what
    the trace of calls says; the atomic operations commute, so any interleaving gives the same
    state; an oversized table silences the tracker.
  \<^item> \<open>Heap_Tracker\<close> (\<open>heap_tracker.rs\<close>): the map of live blocks, histograms, the allocator's methods.
    Under the system allocator's contract the map is the live heap. \<open>Heap_Threads\<close> splits the
    methods at the calls of the system and at the mutex and lets threads interleave: the map stays
    exact when the system does not hand out an address too early, and loses a block when it does.
  \<^item> \<open>Cpu_Cycles\<close> (\<open>cpu_cycle_counter.rs\<close>): slots, context stack, accounting, entry points, dump, as
    a refinement of a stack of execution states. \<open>Cpu_Threads\<close>: a process of any number of threads
    over the shared registry, each with its own cells; conservation of cycles; \<open>pthread_create\<close>; and
    what a thread that still calls after its clean-up does to the next owner of its slot. In both an
    entry point is one step; \<open>Slot_Race\<close> takes the allocation of a slot apart into its loads,
    exchanges, stores and increments and shows it free of races for any number of threads, and that
    undisturbed it is the function \<open>allocate_slot\<close> of \<open>Cpu_Cycles\<close>.
  \<^item> \<open>Unsafe_Coverage\<close> (\<open>unsafe_coverage.rs\<close>): sets of lines, counts, percentage, report.
  \<^item> \<open>Process_Exit\<close>: the four trackers in one process, runs of recording calls and destructors, and
    what ends up in the files. The heap tracker is the allocator of the process, so every call comes
    with the allocator calls it makes, and the record of the heap includes them. \<open>Entry_Points\<close>: the
    exported functions over the statics, each the action of a step of such a run, and the unit tests
    of \<open>lib.rs\<close> with their assertions proved.

  \<^bold>\<open>semver.\<close>
  \<^item> \<open>Semver_Types\<close> (\<open>lib.rs\<close>, \<open>impls.rs\<close>, \<open>error.rs\<close>): versions, requirements and the orders, proved
    linear through keys in linear orders, and agree with comparing dotted segments, numbers by value.
    The pointer test before a comparison is equality of texts here (\<open>Semver_Identifier\<close> relates the
    two on packed words).
  \<^item> \<open>Semver_Parse\<close> (\<open>parse.rs\<close>) and \<open>Semver_Display\<close> (\<open>display.rs\<close>): parser and printer, each other's
    inverse exactly on the values the parser can produce.
  \<^item> \<open>Semver_Eval\<close> (\<open>eval.rs\<close>): matching, against the table of operators in the crate's documentation,
    which the code follows but for \<open>^0.0.K\<close> with a pre-release.
  \<^item> \<open>Semver_Identifier\<close> (\<open>identifier.rs\<close>): the packed word, its heap form behind a varint, clone, drop
    and comparison on a heap of byte cells; reading back, and ownership of every allocation.

  \<^bold>\<open>arrayvec.\<close>
  \<^item> \<open>Array_Vec\<close> and \<open>Array_Vec_Iter\<close> (\<open>arrayvec.rs\<close>, \<open>arrayvec_impl.rs\<close>, \<open>errors.rs\<close>): a vector over cells
    that may never have been written. Accesses outside the buffer and reads of such cells are an
    outcome of their own (\<open>Undefined\<close>), panics another, which carries the state unwinding leaves;
    destructor calls are logged. Each operation refines one on bounded sequences, and the locale
    \<open>implements_spec\<close> lifts this to runs; every element is given back or dropped once, but for elements
    of no size that an extension stores; \<open>retain\<close> is safe under panics of its closure and of
    destructors.
  \<^item> \<open>Array_String\<close> (\<open>array_string.rs\<close>): the same for a string, whose contract is a text; its bytes
    are always the UTF-8 encoding of it. The locale \<open>bounded_sink\<close> is what \<open>write_fmt\<close> relies on, with
    interpretations for pushing elements, characters and strings.

  \<^bold>\<open>Bounds and termination.\<close> No function runs on fuel: every loop is a total function, by structural
  recursion or by a measure (the rest of the input in the parsers, the remaining range of a drain,
  the unprocessed cells in \<open>retain\<close>). Rust's \<open>usize\<close> is a word of 64 bits in the trackers and in the
  packed identifiers; the lengths of arrayvec are numbers, stored in a word of 32 bits as the code
  does, and the capacity is at most \<open>u32::MAX\<close> (\<open>LEN_MAX\<close>) as its constructors check. Counters wrap.
  Debug assertions are part of the model and are shown not to fail.

  \<^bold>\<open>Parameters.\<close> The operating system's files, clock and environment, the system allocator, the time
  stamp counter, \<open>dlsym\<close> and the real \<open>pthread_create\<close>, an iterator's \<open>next\<close>, closures and \<open>Clone\<close>.

  \<^bold>\<open>Not modelled.\<close> Memory orders weaker than sequential consistency; the aliasing rules of the
  borrow checker (a vector mutated through a leaked drain is not); \<open>Hash\<close>, \<open>Debug\<close> and serialisation,
  which only read; the serde glue and back-ports of semver; \<open>test_write_output\<close>, which asserts nothing;
  the other benchmark crates (async-task, httparse, smallvec, memchr, hashbrown, parking_lot and the
  rest), the scripts and the prebuilt passes, which have no source here.
\<close>

end
